(* ===== verification/Prelude.thy ===== *)
theory Prelude
  imports Complex_Main "HOL-Library.Word" "HOL-Library.Monad_Syntax"
begin

text \<open>
  The types and the generic lemmas that every component of the development shares:
  byte strings and fixed-width integers of the Go sources, big-endian conversions between
  byte strings and numbers, and facts on lists, options and words.

  \<^item> Go's \<open>byte\<close>, \<open>uint64\<close> and 256-bit EVM words are words of those widths; a
    \<open>[]byte\<close> is a list of bytes.
  \<^item> A Go call that panics, or that never returns, is \<open>None\<close> where the caller has no
    other error; functions that return an \<open>error\<close> use a sum type with the error on the
    left.
\<close>

unbundle bit_operations_syntax

type_synonym u8 = "8 word"
type_synonym u64 = "64 word"
type_synonym u256 = "256 word"
type_synonym bytes = "u8 list"

named_theorems go_defs \<open>definitions that unfold to plain computations\<close>
named_theorems go_simps \<open>normalisation rules of the components\<close>

subsection \<open>Big-endian numbers\<close>

text \<open>The value of a byte string read big-endian, leading zeros allowed.\<close>

definition be_val :: "bytes \<Rightarrow> nat" where
  "be_val bs = foldl (\<lambda>acc b. acc * 256 + unat b) 0 bs"

text \<open>The shortest big-endian byte string of a number; zero has the empty string.\<close>

fun be_bytes :: "nat \<Rightarrow> bytes" where
  "be_bytes n = (if n = 0 then [] else be_bytes (n div 256) @ [of_nat (n mod 256)])"

declare be_bytes.simps [simp del]

lemma be_val_Nil [simp]: "be_val [] = 0"
  by (simp add: be_val_def)

lemma be_val_snoc [simp]: "be_val (bs @ [b]) = be_val bs * 256 + unat b"
  by (simp add: be_val_def)

lemma be_val_append: "be_val (xs @ ys) = be_val xs * 256 ^ length ys + be_val ys"
proof (induction ys rule: rev_induct)
  case Nil
  then show ?case by simp
next
  case (snoc y ys)
  have "be_val (xs @ ys @ [y]) = be_val (xs @ ys) * 256 + unat y"
    using be_val_snoc [of "xs @ ys" y] by simp
  with snoc.IH show ?case by (simp add: algebra_simps)
qed

lemma be_val_single [simp]: "be_val [b] = unat b"
  using be_val_snoc [of "[]" b] by simp

lemma be_val_Cons: "be_val (b # bs) = unat b * 256 ^ length bs + be_val bs"
  using be_val_append [of "[b]" bs] by simp

lemma unat_u8_lt [simp]: "unat (b :: u8) < 256"
  using unsigned_less [of b, where ?'a = nat] by simp

lemma be_val_lt: "be_val bs < 256 ^ length bs"
proof (induction bs)
  case Nil
  then show ?case by simp
next
  case (Cons b bs)
  have "unat b * 256 ^ length bs + be_val bs < (unat b + 1) * 256 ^ length bs"
    using Cons.IH by (simp add: algebra_simps)
  also have "\<dots> \<le> 256 * 256 ^ length bs"
    using unat_u8_lt [of b] by (intro mult_right_mono) linarith+
  finally show ?case by (simp add: be_val_Cons)
qed

lemma be_bytes_0 [simp]: "be_bytes 0 = []"
  by (simp add: be_bytes.simps)

lemma be_bytes_pos: "0 < n \<Longrightarrow> be_bytes n = be_bytes (n div 256) @ [of_nat (n mod 256)]"
  by (simp add: be_bytes.simps [of n])

lemma be_bytes_eq_Nil [simp]: "be_bytes n = [] \<longleftrightarrow> n = 0"
  by (simp add: be_bytes.simps [of n])

lemma unat_of_nat_u8: "n < 256 \<Longrightarrow> unat (of_nat n :: u8) = n"
  by (simp add: unat_of_nat)

lemma be_val_be_bytes [simp]: "be_val (be_bytes n) = n"
proof (induction n rule: be_bytes.induct)
  case (1 n)
  show ?case
  proof (cases "n = 0")
    case False
    with 1 have "be_val (be_bytes (n div 256)) = n div 256" by blast
    with False show ?thesis by (subst be_bytes_pos) (simp_all add: unat_of_nat_u8)
  qed simp
qed

lemma be_bytes_step: "0 < a * 256 + unat (b :: u8) \<Longrightarrow> be_bytes (a * 256 + unat b) = be_bytes a @ [b]"
  by (subst be_bytes_pos) simp_all

lemma be_bytes_unat: "b \<noteq> 0 \<Longrightarrow> be_bytes (unat (b :: u8)) = [b]"
  using be_bytes_step [of 0 b] by (simp add: unat_gt_0)

lemma be_bytes_be_val_snoc:
  "be_bytes (be_val (bs @ [b])) = (if be_val bs = 0 \<and> b = 0 then [] else be_bytes (be_val bs) @ [b])"
proof (cases "be_val bs = 0 \<and> b = 0")
  case False
  then have "0 < be_val bs * 256 + unat b" by (auto simp: unat_gt_0)
  with False show ?thesis by (simp add: be_bytes_step)
qed simp

lemma be_val_eq_0: "be_val bs = 0 \<longleftrightarrow> (\<forall>b \<in> set bs. b = 0)"
  by (induction bs rule: rev_induct) (auto simp: unat_eq_zero)

lemma be_val_zeros [simp]: "be_val (replicate n 0 @ bs) = be_val bs"
proof -
  have "be_val (replicate n 0) = 0" by (simp add: be_val_eq_0)
  then show ?thesis by (simp add: be_val_append)
qed

text \<open>Reading and printing again drops exactly the leading zeros.\<close>

lemma be_bytes_be_val: "be_bytes (be_val bs) = dropWhile (\<lambda>b. b = 0) bs"
proof (induction bs rule: rev_induct)
  case Nil
  then show ?case by simp
next
  case (snoc b bs)
  then show ?case
    by (auto simp: be_bytes_be_val_snoc be_val_eq_0 dropWhile_append simp del: be_val_snoc)
qed

lemma be_bytes_be_val_id: "bs = [] \<or> hd bs \<noteq> 0 \<Longrightarrow> be_bytes (be_val bs) = bs"
  by (cases bs) (auto simp: be_bytes_be_val)

lemma hd_be_bytes:
  assumes "0 < n"
  shows "hd (be_bytes n) \<noteq> 0"
proof -
  have eq: "dropWhile (\<lambda>b. b = 0) (be_bytes n) = be_bytes n"
    using be_bytes_be_val [of "be_bytes n"] by simp
  with assms have "dropWhile (\<lambda>b. b = 0) (be_bytes n) \<noteq> []" by simp
  then have "hd (dropWhile (\<lambda>b. b = 0) (be_bytes n)) \<noteq> 0" by (rule hd_dropWhile)
  with eq show ?thesis by simp
qed

lemma length_be_bytes_le: "length (be_bytes n) \<le> k \<longleftrightarrow> n < 256 ^ k"
proof (induction n arbitrary: k rule: be_bytes.induct)
  case (1 n)
  show ?case
  proof (cases "n = 0 \<or> k = 0")
    case True
    then show ?thesis by auto
  next
    case False
    then obtain k' where k: "k = Suc k'" by (cases k) auto
    from False have "length (be_bytes n) \<le> k \<longleftrightarrow> length (be_bytes (n div 256)) \<le> k'"
      by (simp add: be_bytes_pos k)
    also have "\<dots> \<longleftrightarrow> n div 256 < 256 ^ k'"
      using 1 False by simp
    also have "\<dots> \<longleftrightarrow> n < 256 ^ k"
      by (simp add: k div_less_iff_less_mult mult.commute)
    finally show ?thesis .
  qed
qed

lemma be_val_inj_len: "length xs = length ys \<Longrightarrow> be_val xs = be_val ys \<Longrightarrow> xs = ys"
proof (induction xs arbitrary: ys rule: rev_induct)
  case Nil
  then show ?case by simp
next
  case (snoc x xs)
  then obtain y ys' where ys: "ys = ys' @ [y]"
    by (cases ys rule: rev_cases) auto
  from snoc.prems(2) have eq: "be_val xs * 256 + unat x = be_val ys' * 256 + unat y"
    by (simp add: ys)
  have "(be_val xs * 256 + unat x) mod 256 = (be_val ys' * 256 + unat y) mod 256"
    by (simp only: eq)
  then have "unat x = unat y" by simp
  moreover from this eq have "be_val xs = be_val ys'" by simp
  ultimately show ?case
    using snoc.IH [of ys'] snoc.prems(1) by (auto simp: ys word_unat_eq_iff)
qed

subsection \<open>Options as computations\<close>

lemma bind_eq_Some_iff [simp]:
  "Option.bind m f = Some y \<longleftrightarrow> (\<exists>x. m = Some x \<and> f x = Some y)"
  by (cases m) auto

lemma bind_neq_None_iff: "Option.bind m f \<noteq> None \<longleftrightarrow> (\<exists>x. m = Some x \<and> f x \<noteq> None)"
  by (cases m) auto

lemma map_sum_eq_Inr_iff [simp]: "map_sum f g x = Inr y \<longleftrightarrow> (\<exists>z. x = Inr z \<and> y = g z)"
  by (cases x) auto

lemma map_sum_eq_Inl_iff [simp]: "map_sum f g x = Inl y \<longleftrightarrow> (\<exists>z. x = Inl z \<and> y = f z)"
  by (cases x) auto

subsection \<open>Lists\<close>

lemma take_drop_append: "take n (drop i xs) @ drop (i + n) xs = drop i xs"
  by (metis add.commute append_take_drop_id drop_drop)

lemma length_concat_const: "\<forall>x \<in> set xs. length x = k \<Longrightarrow> length (concat xs) = k * length xs"
  by (induction xs) auto

end
