(* ===== verification/Go_Big.thy ===== *)
theory Go_Big
  imports Prelude
begin

text \<open>
  The operations of Go's \<open>math/big\<close> that the sources use, on \<open>int\<close>: conversion to and
  from big-endian byte strings, Euclidean modulus and division, modular exponentiation and
  modular inverse. A zero divisor panics in Go, which is \<open>None\<close> here. The second half is
  the arithmetic the cryptographic components rest on: primes, Fermat's little theorem, and
  exponents taken modulo \<open>p - 1\<close>.
\<close>

section \<open>Operations of math/big\<close>

definition big_SetBytes :: "bytes \<Rightarrow> int" where
  "big_SetBytes bs = int (be_val bs)"

definition big_Bytes :: "int \<Rightarrow> bytes" where
  "big_Bytes z = be_bytes (nat \<bar>z\<bar>)"

text \<open>\<open>Mod\<close> and \<open>Div\<close> are Euclidean: the modulus is never negative.\<close>

definition big_Mod :: "int \<Rightarrow> int \<Rightarrow> int option" where
  "big_Mod x m = (if m = 0 then None else Some (x mod \<bar>m\<bar>))"

definition big_Div :: "int \<Rightarrow> int \<Rightarrow> int option" where
  "big_Div x m = (if m = 0 then None else Some ((x - x mod \<bar>m\<bar>) div m))"

text \<open>
  \<open>Exp(x, y, m)\<close> is \<open>x**y mod |m|\<close>, and \<open>x**y\<close> for a zero modulus. Every exponent in the
  sources is the result of \<open>SetBytes\<close>, \<open>Mod\<close> or \<open>Rand\<close>, hence not negative.
\<close>

definition big_Exp :: "int \<Rightarrow> int \<Rightarrow> int \<Rightarrow> int" where
  "big_Exp x y m = (if m = 0 then x ^ nat y else x ^ nat y mod \<bar>m\<bar>)"

text \<open>
  \<open>ModInverse(g, n)\<close> is \<open>nil\<close>, and its receiver unchanged, when \<open>g\<close> and \<open>n\<close> are not
  coprime.
\<close>

definition big_ModInverse :: "int \<Rightarrow> int \<Rightarrow> int option" where
  "big_ModInverse g n =
     (if gcd g n = 1 then Some (fst (bezw (nat (g mod \<bar>n\<bar>)) (nat \<bar>n\<bar>)) mod \<bar>n\<bar>) else None)"

text \<open>
  The sources test a greatest common divisor through \<open>GCD(...).Int64()\<close>, which keeps the
  low 64 bits.
\<close>

definition gcd_Int64 :: "int \<Rightarrow> int \<Rightarrow> int" where
  "gcd_Int64 a b = sint (word_of_int (gcd a b) :: u64)"

lemmas [go_defs] = big_Mod_def big_Div_def big_Exp_def

lemma big_SetBytes_nonneg [simp]: "0 \<le> big_SetBytes bs"
  by (simp add: big_SetBytes_def)

lemma big_SetBytes_Bytes [simp]: "big_SetBytes (big_Bytes z) = \<bar>z\<bar>"
  by (simp add: big_SetBytes_def big_Bytes_def)

lemma big_Bytes_SetBytes: "big_Bytes (big_SetBytes bs) = dropWhile (\<lambda>b. b = 0) bs"
  by (simp add: big_SetBytes_def big_Bytes_def be_bytes_be_val)

lemma big_Bytes_eq_Nil [simp]: "big_Bytes z = [] \<longleftrightarrow> z = 0"
  by (simp add: big_Bytes_def)

lemma big_SetBytes_Nil [simp]: "big_SetBytes [] = 0"
  by (simp add: big_SetBytes_def)

lemma big_Mod_Some: "m \<noteq> 0 \<Longrightarrow> big_Mod x m = Some (x mod \<bar>m\<bar>)"
  by (simp add: big_Mod_def)

lemma gcd_Int64_coprime [simp]: "gcd a b = 1 \<Longrightarrow> gcd_Int64 a b = 1"
  by (simp add: gcd_Int64_def)

section \<open>Primes and Fermat's little theorem\<close>

definition is_prime :: "int \<Rightarrow> bool" where
  "is_prime p \<longleftrightarrow> 1 < p \<and> (\<forall>m \<in> {2..<p}. \<not> m dvd p)"

lemma is_prime_gt_1: "is_prime p \<Longrightarrow> 1 < p"
  by (simp add: is_prime_def)

lemma is_prime_coprime:
  assumes "is_prime p" and "\<not> p dvd a"
  shows "coprime a p"
proof -
  define g where "g = gcd a p"
  have p: "1 < p" using assms(1) by (rule is_prime_gt_1)
  have g: "g dvd p" "g dvd a" "0 < g" using p by (simp_all add: g_def)
  have "g \<le> p" using g(1) p by (auto intro: zdvd_imp_le)
  moreover have "g \<noteq> p" using g(2) assms(2) by auto
  moreover have "\<not> (2 \<le> g \<and> g < p)" using assms(1) g(1) by (auto simp: is_prime_def)
  ultimately have "g = 1" using g(3) by linarith
  then show ?thesis by (simp add: g_def coprime_iff_gcd_eq_1)
qed

lemma is_prime_dvd_mult: "is_prime p \<Longrightarrow> p dvd a * b \<Longrightarrow> p dvd a \<or> p dvd b"
  using is_prime_coprime [of p a] by (metis coprime_commute coprime_dvd_mult_right_iff)

lemma is_prime_dvd_power: "is_prime p \<Longrightarrow> p dvd a ^ n \<Longrightarrow> p dvd a"
  by (induction n) (auto dest: is_prime_dvd_mult is_prime_gt_1)

lemma is_prime_dvd_prod:
  assumes "is_prime p" and "finite S" and "p dvd prod f S"
  shows "\<exists>x \<in> S. p dvd f x"
  using assms(2,3)
proof (induction S rule: finite_induct)
  case empty
  then show ?case using is_prime_gt_1 [OF assms(1)] by auto
next
  case (insert x S)
  then have "p dvd f x * prod f S" by simp
  then have "p dvd f x \<or> p dvd prod f S" by (rule is_prime_dvd_mult [OF assms(1)])
  with insert.IH show ?case by blast
qed

text \<open>Multiplication by a unit permutes the non-zero residues.\<close>

lemma residue_permutation:
  assumes p: "is_prime p" and a: "\<not> p dvd a"
  shows "bij_betw (\<lambda>x. a * x mod p) {1..<p} {1..<p}"
proof (rule bij_betw_imageI)
  have gt: "1 < p" using p by (rule is_prime_gt_1)
  show inj: "inj_on (\<lambda>x. a * x mod p) {1..<p}"
  proof (rule inj_onI)
    fix x y assume x: "x \<in> {1..<p}" and y: "y \<in> {1..<p}" and eq: "a * x mod p = a * y mod p"
    have "p dvd a * (x - y)" using eq by (simp add: mod_eq_dvd_iff right_diff_distrib)
    then have "p dvd x - y" using is_prime_dvd_mult [OF p] a by blast
    then have "x mod p = y mod p" by (simp add: mod_eq_dvd_iff)
    with x y show "x = y" by simp
  qed
  have "(\<lambda>x. a * x mod p) ` {1..<p} \<subseteq> {1..<p}"
  proof (rule image_subsetI)
    fix x assume x: "x \<in> {1..<p}"
    have "a * x mod p \<noteq> 0"
    proof
      assume "a * x mod p = 0"
      then have "p dvd x" using is_prime_dvd_mult [OF p] a by (auto simp: mod_eq_0_iff_dvd)
      with x show False by (auto dest: zdvd_imp_le)
    qed
    moreover have "0 \<le> a * x mod p" "a * x mod p < p" using gt by simp_all
    ultimately show "a * x mod p \<in> {1..<p}" by simp
  qed
  then show "(\<lambda>x. a * x mod p) ` {1..<p} = {1..<p}"
    by (rule endo_inj_surj [OF finite_atLeastLessThan_int _ inj])
qed

theorem fermat_little:
  assumes p: "is_prime p" and a: "\<not> p dvd a"
  shows "a ^ nat (p - 1) mod p = 1"
proof -
  have gt: "1 < p" using p by (rule is_prime_gt_1)
  let ?S = "{1..<p}" and ?q = "\<Prod>x \<in> {1..<p}. x"
  have "?q = (\<Prod>x \<in> ?S. a * x mod p)"
    using prod.reindex_bij_betw [OF residue_permutation [OF p a], of "\<lambda>x. x"] by simp
  then have "?q mod p = (\<Prod>x \<in> ?S. a * x mod p) mod p" by simp
  also have "\<dots> = (\<Prod>x \<in> ?S. a * x) mod p" by (rule mod_prod_eq)
  also have "(\<Prod>x \<in> ?S. a * x) = a ^ nat (p - 1) * ?q"
    by (simp add: prod.distrib)
  finally have "p dvd (a ^ nat (p - 1) - 1) * ?q"
    by (simp add: mod_eq_dvd_iff left_diff_distrib dvd_diff_commute)
  moreover have "\<not> p dvd ?q"
  proof
    assume "p dvd ?q"
    then have "\<exists>x \<in> ?S. p dvd x"
      using is_prime_dvd_prod [OF p, of ?S "\<lambda>x. x"] by simp
    then show False by (auto dest: zdvd_imp_le)
  qed
  ultimately have "p dvd a ^ nat (p - 1) - 1" using is_prime_dvd_mult [OF p] by blast
  then have "a ^ nat (p - 1) mod p = 1 mod p" by (simp add: mod_eq_dvd_iff)
  with gt show ?thesis by simp
qed

text \<open>Exponents of a unit count modulo \<open>p - 1\<close>.\<close>

lemma power_mod_exponent:
  assumes p: "is_prime p" and a: "\<not> p dvd a" and mn: "m mod (p - 1) = n mod (p - 1)"
    and m: "0 \<le> m" and n: "0 \<le> n"
  shows "a ^ nat m mod p = a ^ nat n mod p"
proof -
  have gt: "1 < p" using p by (rule is_prime_gt_1)
  have reduce: "a ^ nat k mod p = a ^ nat (k mod (p - 1)) mod p" if k: "0 \<le> k" for k
  proof -
    have q: "0 \<le> k div (p - 1)" "0 \<le> k mod (p - 1)"
      using k gt by (simp_all add: pos_imp_zdiv_nonneg_iff)
    have "nat k = nat (p - 1) * nat (k div (p - 1)) + nat (k mod (p - 1))"
      using q gt by (simp flip: nat_mult_distrib nat_add_distrib)
    then have "a ^ nat k mod p = (a ^ nat (p - 1)) ^ nat (k div (p - 1)) * a ^ nat (k mod (p - 1)) mod p"
      by (simp add: power_add power_mult)
    also have "\<dots> = ((a ^ nat (p - 1)) ^ nat (k div (p - 1)) mod p) * a ^ nat (k mod (p - 1)) mod p"
      by (simp add: mod_mult_left_eq)
    also have "(a ^ nat (p - 1)) ^ nat (k div (p - 1)) mod p = (a ^ nat (p - 1) mod p) ^ nat (k div (p - 1)) mod p"
      by (simp add: power_mod)
    also have "\<dots> = 1" using gt by (simp add: fermat_little [OF p a])
    finally show ?thesis by simp
  qed
  show ?thesis using reduce [OF m] reduce [OF n] mn by simp
qed

lemma is_prime_not_dvd_power: "is_prime p \<Longrightarrow> \<not> p dvd a \<Longrightarrow> \<not> p dvd a ^ n"
  by (auto dest: is_prime_dvd_power)

lemma is_prime_not_dvd_mult: "is_prime p \<Longrightarrow> \<not> p dvd a \<Longrightarrow> \<not> p dvd b \<Longrightarrow> \<not> p dvd a * b"
  by (auto dest: is_prime_dvd_mult)

text \<open>The inverse found by the extended Euclidean algorithm.\<close>

lemma big_ModInverse_Some:
  assumes "gcd g n = 1" and n: "1 < n"
  shows "\<exists>i. big_ModInverse g n = Some i \<and> 0 \<le> i \<and> i < n \<and> g * i mod n = 1"
proof -
  let ?u = "nat (g mod n)" and ?v = "nat n"
  have gcd: "gcd ?u ?v = 1"
  proof -
    have "int (gcd ?u ?v) = gcd (g mod n) n"
      using n by (simp add: gcd_int_int_eq [symmetric])
    also have "\<dots> = gcd g n" by (simp add: gcd.commute flip: gcd_red_int)
    finally show ?thesis using assms(1) by simp
  qed
  have "fst (bezw ?u ?v) * int ?u + snd (bezw ?u ?v) * int ?v = int (gcd ?u ?v)"
    using bezw_aux [of ?u ?v] by simp
  then have eq: "fst (bezw ?u ?v) * (g mod n) + snd (bezw ?u ?v) * n = 1"
    using n gcd by simp
  then have "(fst (bezw ?u ?v) * (g mod n)) mod n = 1"
    by (metis mod_mult_self2 n mod_pos_pos_trivial zero_le_one add.commute mult.commute)
  then have "g * (fst (bezw ?u ?v) mod n) mod n = 1"
    by (simp add: mod_simps mult.commute)
  moreover have "big_ModInverse g n = Some (fst (bezw ?u ?v) mod n)"
    using assms by (simp add: big_ModInverse_def)
  ultimately show ?thesis using n by simp
qed

end
