(* ===== verification/Elgamal.thy ===== *)
theory Elgamal
  imports Go_Big
begin

text \<open>
  ElGamal encryption, Pedersen commitments and ElGamal signatures:
  \<^verbatim>\<open>crypto/zkp/Elgamal.go\<close>, \<^verbatim>\<open>crypto/zkp/commit.go\<close>, \<^verbatim>\<open>crypto/zkp/utils.go\<close> of the node,
  and \<^verbatim>\<open>exchange/crypto/ElGamal.go\<close>, \<^verbatim>\<open>exchange/crypto/ZeroKnowledgeProof.go\<close> of the exchange,
  whose \<open>Encrypt\<close>, \<open>Verify\<close>, \<open>Commit\<close> and \<open>EncryptValue\<close> are the same code.

  Pseudo-random draws are arguments: \<open>draw j\<close> is the value of \<open>k.Rand(rnd, limit)\<close> in the
  \<open>j\<close>-th attempt of a retry loop. The hash function is an argument \<open>sha\<close>, so every theorem
  holds for any hash function. \<open>None\<close> is a call without a result: a panic (zero modulus,
  slice out of range) or a retry loop that never finds a coprime number.
\<close>

section \<open>Keys, ciphertexts, commitments, signatures\<close>

record PublicKey =
  pk_G1 :: int
  pk_G2 :: int
  pk_P :: int
  pk_H :: int

record PrivateKey = PublicKey +
  sk_X :: int

record CypherText =
  ct_C1 :: bytes
  ct_C2 :: bytes

record Commitment =
  cm_Commitment :: bytes
  cm_R :: bytes

record Signature =
  sig_M :: bytes
  sig_M_hash :: bytes
  sig_R :: bytes
  sig_S :: bytes

datatype zkp_error = ValueTooLarge

section \<open>Random numbers coprime to the modulus\<close>

text \<open>The retry loop \<^verbatim>\<open>for { k.Rand(rnd, limit); k.Add(k, 2); if gcd == 1 { break }; rnd_key++ }\<close>.\<close>

partial_function (option) pick_coprime :: "(nat \<Rightarrow> int) \<Rightarrow> int \<Rightarrow> nat \<Rightarrow> int option" where
  "pick_coprime draw p j =
     (if gcd_Int64 (draw j + 2) p = 1 then Some (draw j + 2) else pick_coprime draw p (Suc j))"

definition randBytes :: "('a) PublicKey_scheme \<Rightarrow> (nat \<Rightarrow> int) \<Rightarrow> bytes option" where
  "randBytes pub draw = do {
     k \<leftarrow> pick_coprime draw (pk_P pub) 0;
     Some (big_Bytes k) }"

section \<open>Commitments\<close>

definition Commit :: "('a) PublicKey_scheme \<Rightarrow> int \<Rightarrow> bytes \<Rightarrow> Commitment option" where
  "Commit pub v rnd = do {
     v' \<leftarrow> big_Mod v (pk_P pub);
     let r' = big_SetBytes rnd;
     let vG1 = big_Exp (pk_G1 pub) v' (pk_P pub);
     let rH = big_Exp (pk_H pub) r' (pk_P pub);
     cm \<leftarrow> big_Mod (vG1 * rH) (pk_P pub);
     Some \<lparr>cm_Commitment = big_Bytes cm, cm_R = big_Bytes r'\<rparr> }"

definition CommitByUint64 :: "('a) PublicKey_scheme \<Rightarrow> u64 \<Rightarrow> (nat \<Rightarrow> int) \<Rightarrow> Commitment option" where
  "CommitByUint64 pub v draw = do {
     rnd \<leftarrow> randBytes pub draw;
     Commit pub (uint v) rnd }"

definition CommitByBytes :: "('a) PublicKey_scheme \<Rightarrow> bytes \<Rightarrow> (nat \<Rightarrow> int) \<Rightarrow> Commitment option" where
  "CommitByBytes pub b draw = do {
     rnd \<leftarrow> randBytes pub draw;
     Commit pub (big_SetBytes b) rnd }"

text \<open>The exhaustive search of \<open>VerifyCommitment\<close>, from \<open>i\<close> up to 262144.\<close>

function VerifyCommitment_loop :: "('a) PublicKey_scheme \<Rightarrow> int \<Rightarrow> int \<Rightarrow> nat \<Rightarrow> nat option" where
  "VerifyCommitment_loop pub R cm i =
     (case big_Mod (big_Exp (pk_G1 pub) (int i) (pk_P pub) * big_Exp (pk_H pub) R (pk_P pub)) (pk_P pub) of
        None \<Rightarrow> None
      | Some c \<Rightarrow>
          if c = cm then Some i
          else if 262144 \<le> i then Some 0
          else VerifyCommitment_loop pub R cm (Suc i))"
  by pat_completeness auto
termination
  by (relation "measure (\<lambda>(pub, R, cm, i). 262144 - i)") auto

declare VerifyCommitment_loop.simps [simp del]

definition VerifyCommitment :: "('a) PublicKey_scheme \<Rightarrow> Commitment \<Rightarrow> nat option" where
  "VerifyCommitment pub commit =
     VerifyCommitment_loop pub (big_SetBytes (cm_R commit)) (big_SetBytes (cm_Commitment commit)) 1"

section \<open>Encryption\<close>

text \<open>The \<open>i\<close>-th slice of a message cut into \<open>n\<close> pieces of \<open>w\<close> bytes, the last one shorter.\<close>

definition slice_at :: "nat \<Rightarrow> bytes \<Rightarrow> nat \<Rightarrow> nat \<Rightarrow> bytes" where
  "slice_at w M n i = (if i = n - 1 then drop (i * w) M else take w (drop (i * w) M))"

text \<open>\<^verbatim>\<open>copy(buf[(32-len(b)):], b)\<close> into a zeroed \<open>[32]byte\<close>; a longer \<open>b\<close> panics.\<close>

definition pad32 :: "bytes \<Rightarrow> bytes option" where
  "pad32 b = (if length b \<le> 32 then Some (replicate (32 - length b) 0 @ b) else None)"

definition Encrypt_chunk :: "('a) PublicKey_scheme \<Rightarrow> (nat \<Rightarrow> int) \<Rightarrow> bytes \<Rightarrow> (bytes \<times> bytes) option" where
  "Encrypt_chunk pub draw m_bytes = do {
     k \<leftarrow> pick_coprime draw (pk_P pub) 0;
     let m = big_SetBytes m_bytes;
     let c1 = big_Exp (pk_G2 pub) k (pk_P pub);
     let s = big_Exp (pk_H pub) k (pk_P pub);
     c2 \<leftarrow> big_Mod (s * m) (pk_P pub);
     c1_bytes \<leftarrow> pad32 (big_Bytes c1);
     c2_bytes \<leftarrow> pad32 (big_Bytes c2);
     Some (c1_bytes, c2_bytes) }"

function Encrypt_loop ::
  "('a) PublicKey_scheme \<Rightarrow> (nat \<Rightarrow> nat \<Rightarrow> int) \<Rightarrow> bytes \<Rightarrow> nat \<Rightarrow> nat \<Rightarrow> bytes \<Rightarrow> bytes \<Rightarrow> CypherText option" where
  "Encrypt_loop pub draws M n i C1 C2 =
     (if i < n then do {
        (c1, c2) \<leftarrow> Encrypt_chunk pub (draws i) (slice_at 28 M n i);
        Encrypt_loop pub draws M n (Suc i) (C1 @ c1) (C2 @ c2) }
      else Some \<lparr>ct_C1 = C1, ct_C2 = C2\<rparr>)"
  by pat_completeness auto
termination
  by (relation "measure (\<lambda>(pub, draws, M, n, i, C1, C2). n - i)") auto

declare Encrypt_loop.simps [simp del]

definition Encrypt :: "('a) PublicKey_scheme \<Rightarrow> (nat \<Rightarrow> nat \<Rightarrow> int) \<Rightarrow> bytes \<Rightarrow> CypherText option" where
  "Encrypt pub draws M = Encrypt_loop pub draws M ((length M + 27) div 28) 0 [] []"

definition EncodeCypherText :: "CypherText \<Rightarrow> int" where
  "EncodeCypherText C = big_SetBytes (ct_C1 C @ ct_C2 C)"

text \<open>
  Decryption, in the exchange. The slices of \<open>C.C2\<close> panic when it is shorter than \<open>C.C1\<close>.
  \<^verbatim>\<open>s.ModInverse(s, P)\<close> leaves \<open>s\<close> unchanged when there is no inverse.
\<close>

definition Decrypt_chunk :: "('a) PrivateKey_scheme \<Rightarrow> bytes \<Rightarrow> bytes \<Rightarrow> bytes option" where
  "Decrypt_chunk priv c1_bytes c2_bytes = do {
     let c1 = big_SetBytes c1_bytes;
     let c2 = big_SetBytes c2_bytes;
     let s = big_Exp c1 (sk_X priv) (pk_P priv);
     let s' = (case big_ModInverse s (pk_P priv) of Some i \<Rightarrow> i | None \<Rightarrow> s);
     m \<leftarrow> big_Mod (s' * c2) (pk_P priv);
     Some (big_Bytes m) }"

function Decrypt_loop :: "('a) PrivateKey_scheme \<Rightarrow> CypherText \<Rightarrow> nat \<Rightarrow> nat \<Rightarrow> bytes \<Rightarrow> bytes option" where
  "Decrypt_loop priv C n i M =
     (if i < n then
        (if length (ct_C2 C) < (if i = n - 1 then i * 32 else Suc i * 32) then None
         else do {
           m \<leftarrow> Decrypt_chunk priv (slice_at 32 (ct_C1 C) n i) (slice_at 32 (ct_C2 C) n i);
           Decrypt_loop priv C n (Suc i) (M @ m) })
      else Some M)"
  by pat_completeness auto
termination
  by (relation "measure (\<lambda>(priv, C, n, i, M). n - i)") auto

declare Decrypt_loop.simps [simp del]

definition Decrypt :: "('a) PrivateKey_scheme \<Rightarrow> CypherText \<Rightarrow> bytes option" where
  "Decrypt priv C = Decrypt_loop priv C ((length (ct_C1 C) + 31) div 32) 0 []"

section \<open>Encrypted values\<close>

definition EncryptValue ::
  "('a) PublicKey_scheme \<Rightarrow> (nat \<Rightarrow> int) \<Rightarrow> u64 \<Rightarrow> (zkp_error + CypherText \<times> Commitment) option" where
  "EncryptValue pub draw M =
     (if 262144 < M then Some (Inl ValueTooLarge)
      else do {
        k \<leftarrow> pick_coprime draw (pk_P pub) 0;
        let m = uint M;
        let c1 = big_Bytes (big_Exp (pk_G2 pub) k (pk_P pub));
        let rnd = big_Bytes k;
        commit \<leftarrow> Commit pub m rnd;
        Some (Inr (\<lparr>ct_C1 = c1, ct_C2 = cm_Commitment commit\<rparr>, commit)) })"

definition EncryptAddress ::
  "('a) PublicKey_scheme \<Rightarrow> (nat \<Rightarrow> int) \<Rightarrow> bytes \<Rightarrow> (CypherText \<times> Commitment) option" where
  "EncryptAddress pub draw addr = do {
     k \<leftarrow> pick_coprime draw (pk_P pub) 0;
     let m = big_SetBytes addr;
     let c1 = big_Bytes (big_Exp (pk_G2 pub) k (pk_P pub));
     let rnd = big_Bytes k;
     commit \<leftarrow> Commit pub m rnd;
     Some (\<lparr>ct_C1 = c1, ct_C2 = cm_Commitment commit\<rparr>, commit) }"

function DecryptValue_loop :: "('a) PrivateKey_scheme \<Rightarrow> int \<Rightarrow> nat \<Rightarrow> nat" where
  "DecryptValue_loop priv gv i =
     (if gv = big_Exp (pk_G1 priv) (int i) (pk_P priv) then i
      else if 262144 \<le> i then 0
      else DecryptValue_loop priv gv (Suc i))"
  by pat_completeness auto
termination
  by (relation "measure (\<lambda>(priv, gv, i). 262144 - i)") auto

declare DecryptValue_loop.simps [simp del]

definition DecryptValue :: "('a) PrivateKey_scheme \<Rightarrow> CypherText \<Rightarrow> nat option" where
  "DecryptValue priv C = do {
     let c1 = big_SetBytes (ct_C1 C);
     let c2 = big_SetBytes (ct_C2 C);
     let c1x = big_Exp c1 (sk_X priv) (pk_P priv);
     let c1x' = (case big_ModInverse c1x (pk_P priv) of Some i \<Rightarrow> i | None \<Rightarrow> c1x);
     gv \<leftarrow> big_Mod (c2 * c1x') (pk_P priv);
     Some (DecryptValue_loop priv gv 1) }"

section \<open>Signatures\<close>

definition Verify :: "(bytes \<Rightarrow> bytes) \<Rightarrow> ('a) PublicKey_scheme \<Rightarrow> Signature \<Rightarrow> bool option" where
  "Verify sha pub sig =
     (let hash_m = sha (sig_M sig) in
      if length hash_m \<noteq> length (sig_M_hash sig) then Some False
      else if hash_m \<noteq> sig_M_hash sig then Some False
      else do {
        m \<leftarrow> big_Mod (big_SetBytes (sig_M_hash sig)) (pk_P pub);
        let r = big_SetBytes (sig_R sig);
        let s = big_SetBytes (sig_S sig);
        let hr = big_Exp (pk_H pub) r (pk_P pub);
        let rs = big_Exp r s (pk_P pub);
        let gm = big_Exp (pk_G2 pub) m (pk_P pub);
        hr' \<leftarrow> big_Mod (hr * rs) (pk_P pub);
        Some (hr' = gm) })"

text \<open>Signing, in the exchange: \<open>K\<close> is coprime to \<open>P - 1\<close>, so \<open>ModInverse\<close> succeeds.\<close>

definition Sign :: "(bytes \<Rightarrow> bytes) \<Rightarrow> ('a) PrivateKey_scheme \<Rightarrow> (nat \<Rightarrow> int) \<Rightarrow> bytes \<Rightarrow> Signature option" where
  "Sign sha priv draw m = do {
     let P1 = pk_P priv - 1;
     K \<leftarrow> pick_coprime draw P1 0;
     let m0 = big_SetBytes (sha m);
     m' \<leftarrow> big_Mod m0 (pk_P priv);
     let r = big_Exp (pk_G2 priv) K (pk_P priv);
     s \<leftarrow> big_ModInverse K P1;
     let s1 = m' - r * sk_X priv;
     s' \<leftarrow> big_Mod (s * s1) P1;
     Some \<lparr>sig_M = m, sig_M_hash = big_Bytes m0, sig_R = big_Bytes r, sig_S = big_Bytes s'\<rparr> }"

section \<open>Key generation\<close>

text \<open>
  The loop that lowers a candidate generator until it is coprime to \<open>P\<close>. Starting from a
  residue it stops at 1 at the latest, unless the residue is 0.
\<close>

partial_function (option) coprime_below :: "int \<Rightarrow> int \<Rightarrow> int option" where
  "coprime_below g p = (if gcd_Int64 g p = 1 then Some g else coprime_below (g - 1) p)"

text \<open>
  \<open>GenerateKeys\<close>: \<open>p\<close> is the number drawn from the table of primes, \<open>now\<close> the decimal
  Unix time, \<open>x\<close> the value of \<^verbatim>\<open>priv.X.Rand(rnd, pub.P)\<close>.
\<close>

definition GenerateKeys :: "(bytes \<Rightarrow> bytes) \<Rightarrow> int \<Rightarrow> bytes \<Rightarrow> bytes \<Rightarrow> int \<Rightarrow> PrivateKey option" where
  "GenerateKeys sha p info now x = do {
     let hashInfo = sha info;
     g1 \<leftarrow> big_Mod (big_SetBytes hashInfo) p;
     G1 \<leftarrow> coprime_below g1 p;
     g2 \<leftarrow> big_Mod (big_SetBytes (hashInfo @ now)) p;
     G2 \<leftarrow> coprime_below g2 p;
     let H = big_Exp G2 x p;
     Some \<lparr>pk_G1 = G1, pk_G2 = G2, pk_P = p, pk_H = H, sk_X = x\<rparr> }"

section \<open>Valid keys\<close>

text \<open>
  A key over a prime modulus whose generators and public value are units, and a private key
  whose exponent gives the public value.
\<close>

definition good_key :: "('a) PublicKey_scheme \<Rightarrow> bool" where
  "good_key pub \<longleftrightarrow> is_prime (pk_P pub) \<and>
     \<not> pk_P pub dvd pk_G1 pub \<and> \<not> pk_P pub dvd pk_G2 pub \<and> \<not> pk_P pub dvd pk_H pub"

definition key_pair :: "('a) PrivateKey_scheme \<Rightarrow> bool" where
  "key_pair priv \<longleftrightarrow> good_key priv \<and> 0 \<le> sk_X priv \<and>
     pk_H priv = big_Exp (pk_G2 priv) (sk_X priv) (pk_P priv)"


section \<open>Library of lemmas\<close>

lemma good_key_P: "good_key pub \<Longrightarrow> 1 < pk_P pub"
  by (simp add: good_key_def is_prime_gt_1)

lemma pick_coprime_first:
  assumes "is_prime p" and "0 \<le> draw j" and "draw j < p - 4"
  shows "pick_coprime draw p j = Some (draw j + 2)"
proof -
  have "\<not> p dvd draw j + 2" using assms by (auto dest: zdvd_imp_le)
  then have "gcd (draw j + 2) p = 1"
    using is_prime_coprime [OF assms(1)] by (simp add: coprime_iff_gcd_eq_1)
  then show ?thesis by (subst pick_coprime.simps) simp
qed

lemma pick_coprime_search:
  assumes "gcd_Int64 (draw (i + n) + 2) p = 1" and "\<forall>j < n. gcd_Int64 (draw (i + j) + 2) p \<noteq> 1"
  shows "pick_coprime draw p i = Some (draw (i + n) + 2)"
  using assms
proof (induction n arbitrary: i)
  case 0
  then show ?case by (subst pick_coprime.simps) simp
next
  case (Suc n)
  have "gcd_Int64 (draw i + 2) p \<noteq> 1" using Suc.prems(2) by (metis add.right_neutral zero_less_Suc)
  moreover have "pick_coprime draw p (Suc i) = Some (draw (Suc i + n) + 2)"
  proof (rule Suc.IH)
    show "gcd_Int64 (draw (Suc i + n) + 2) p = 1" using Suc.prems(1) by simp
    show "\<forall>j < n. gcd_Int64 (draw (Suc i + j) + 2) p \<noteq> 1"
      using Suc.prems(2) by (metis Suc_less_eq add_Suc_right add_Suc_shift)
  qed
  ultimately show ?case by (subst pick_coprime.simps) simp
qed

lemma Commit_eq:
  assumes "0 < pk_P pub"
  shows "Commit pub v rnd = Some
    \<lparr>cm_Commitment = big_Bytes (pk_G1 pub ^ nat (v mod pk_P pub) * pk_H pub ^ be_val rnd mod pk_P pub),
     cm_R = big_Bytes (int (be_val rnd))\<rparr>"
  using assms by (simp add: Commit_def go_defs Let_def mod_simps big_SetBytes_def)

subsection \<open>Messages cut into chunks\<close>

lemma Encrypt_loop_eq:
  assumes "\<forall>i < n. Encrypt_chunk pub (draws i) (slice_at 28 M n i) = Some (f i, g i)" and "i \<le> n"
  shows "Encrypt_loop pub draws M n i C1 C2 =
    Some \<lparr>ct_C1 = C1 @ concat (map f [i..<n]), ct_C2 = C2 @ concat (map g [i..<n])\<rparr>"
  using assms(2)
proof (induction "n - i" arbitrary: i C1 C2)
  case 0
  then show ?case by (simp add: Encrypt_loop.simps)
next
  case (Suc k)
  then have "i < n" by simp
  with assms(1) Suc show ?case
    by (subst Encrypt_loop.simps) (simp add: upt_conv_Cons)
qed

lemma concat_slices:
  "concat (map (slice_at w M n) [0..<n]) = (if n = 0 then [] else M)" if "n = (length M + (w - 1)) div w" "0 < w"
proof -
  have gen: "concat (map (\<lambda>i. take w (drop (i * w) M)) [0..<k]) = take (k * w) M" for k
  proof (induction k)
    case (Suc k)
    have "take (Suc k * w) M = take (k * w) M @ take w (drop (k * w) M)"
      by (metis add.commute mult_Suc take_add)
    with Suc show ?case by simp
  qed simp
  show ?thesis
  proof (cases n)
    case (Suc m)
    have "concat (map (slice_at w M n) [0..<m]) = concat (map (\<lambda>i. take w (drop (i * w) M)) [0..<m])"
      by (rule arg_cong [where f = concat]) (auto simp: slice_at_def Suc)
    then show ?thesis using gen [of m] by (simp add: Suc slice_at_def)
  qed simp
qed

lemma length_slice_at:
  assumes "n = (length M + (w - 1)) div w" "0 < w" "i < n"
  shows "length (slice_at w M n i) \<le> w" 
proof (cases "i = n - 1")
  case True
  have "length M \<le> n * w" using assms(1,2)
    by (metis add.commute add_le_cancel_left  div_mult_mod_eq le_add_diff_inverse less_Suc_eq_le  mod_less_divisor One_nat_def Suc_leI Suc_pred)
  with True assms(3) show ?thesis by (cases n) (auto simp: slice_at_def)
qed (simp add: slice_at_def)

lemma slice_at_concat:
  assumes "\<forall>i < n. length (f i) = 32" and "i < n"
  shows "slice_at 32 (concat (map f [0..<n])) n i = f i"
proof -
  have len: "length (concat (map f [0..<k])) = k * 32" if "k \<le> n" for k
    using that assms(1) by (induction k) auto
  have split: "[0..<n] = [0..<i] @ i # [Suc i..<n]"
    using assms(2) by (metis append_Cons append_Nil upt_add_eq_append upt_conv_Cons less_imp_add_positive le0 less_imp_le_nat  add_0)
  have "drop (i * 32) (concat (map f [0..<n])) = f i @ concat (map f [Suc i..<n])"
    using len [of i] assms(2) by (simp add: split)
  moreover have "length (f i) = 32" using assms by simp
  moreover have "concat (map f [Suc i..<n]) = []" if "i = n - 1" using that assms(2) by simp
  ultimately show ?thesis by (cases "i = n - 1") (simp_all add: slice_at_def)
qed


subsection \<open>Decryption undoes encryption\<close>

lemma mod_mult_inverse_cancel:
  fixes p :: int
  assumes "s * i mod p = 1"
  shows "i * (s * m) mod p = m mod p"
proof -
  have "i * (s * m) mod p = (s * i mod p) * m mod p" by (simp add: mod_simps ac_simps)
  with assms show ?thesis by simp
qed

lemma length_pad32: "pad32 b = Some c \<Longrightarrow> length c = 32"
  by (auto simp: pad32_def split: if_splits)

lemma big_SetBytes_pad32: "pad32 b = Some c \<Longrightarrow> big_SetBytes c = big_SetBytes b"
  by (auto simp: pad32_def big_SetBytes_def split: if_splits)

lemma pad32_ok: "0 \<le> z \<Longrightarrow> z < 256 ^ 32 \<Longrightarrow> \<exists>c. pad32 (big_Bytes z) = Some c"
  using length_be_bytes_le [of "nat z" 32] by (simp add: pad32_def big_Bytes_def nat_less_iff)

text \<open>One chunk is encrypted to two 32-byte blocks that decrypt to its value.\<close>

lemma Encrypt_chunk_Decrypt_chunk:
  assumes key: "key_pair priv" and P: "pk_P priv < 256 ^ 32"
    and draw: "0 \<le> draw 0" "draw 0 < pk_P priv - 4"
    and m: "big_SetBytes m < pk_P priv"
  obtains c1 c2 where "Encrypt_chunk priv draw m = Some (c1, c2)"
    and "length c1 = 32" and "length c2 = 32"
    and "Decrypt_chunk priv c1 c2 = Some (dropWhile (\<lambda>b. b = 0) m)"
proof -
  let ?P = "pk_P priv" and ?k = "draw 0 + 2" and ?X = "sk_X priv"
  have prime: "is_prime ?P" and G2: "\<not> ?P dvd pk_G2 priv"
    using key by (simp_all add: key_pair_def good_key_def)
  have gt: "1 < ?P" using prime by (rule is_prime_gt_1)
  have X: "0 \<le> ?X" and H: "pk_H priv = pk_G2 priv ^ nat ?X mod ?P"
    using key gt by (auto simp: key_pair_def big_Exp_def)
  define s where "s = pk_G2 priv ^ (nat ?X * nat ?k) mod ?P"
  define v1 where "v1 = pk_G2 priv ^ nat ?k mod ?P"
  define v2 where "v2 = s * big_SetBytes m mod ?P"
  have s_H: "pk_H priv ^ nat ?k mod ?P = s" by (simp add: H s_def power_mod power_mult)
  have v: "0 \<le> v1" "v1 < 256 ^ 32" "0 \<le> v2" "v2 < 256 ^ 32"
    unfolding v1_def v2_def using gt P by (auto intro: less_trans [OF pos_mod_bound] simp del: power_numeral)
  obtain c1 c2 where c: "pad32 (big_Bytes v1) = Some c1" "pad32 (big_Bytes v2) = Some c2"
    using pad32_ok v by blast
  have "Encrypt_chunk priv draw m = Some (c1, c2)"
    using gt c by (simp add: Encrypt_chunk_def pick_coprime_first [of ?P draw 0, OF prime draw] go_defs
        s_H v1_def [symmetric] v2_def [symmetric])
  moreover have "Decrypt_chunk priv c1 c2 = Some (dropWhile (\<lambda>b. b = 0) m)"
  proof -
    have "\<not> ?P dvd s" unfolding s_def
      using is_prime_not_dvd_power [OF prime G2] by (simp add: dvd_mod_iff)
    then have "gcd s ?P = 1" using is_prime_coprime [OF prime] by (simp add: coprime_iff_gcd_eq_1)
    then obtain i where i: "big_ModInverse s ?P = Some i" "s * i mod ?P = 1"
      using big_ModInverse_Some [OF _ gt, of s] by auto
    have c1: "big_Exp (big_SetBytes c1) ?X ?P = s"
      using gt v by (simp add: big_SetBytes_pad32 [OF c(1)] big_Exp_def v1_def s_def power_mod
          power_mult [symmetric] mult.commute)
    have "i * v2 mod ?P = big_SetBytes m mod ?P"
      unfolding v2_def using mod_mult_inverse_cancel [OF i(2)] by (simp add: mod_mult_right_eq)
    also have "\<dots> = big_SetBytes m" using m by simp
    finally have "i * big_SetBytes c2 mod ?P = big_SetBytes m"
      using v by (simp add: big_SetBytes_pad32 [OF c(2)])
    then show ?thesis
      using gt by (simp add: Decrypt_chunk_def c1 i big_Mod_def big_Bytes_SetBytes)
  qed
  ultimately show ?thesis using c by (intro that) (auto dest: length_pad32)
qed

lemma Decrypt_loop_eq:
  assumes "\<forall>i < n. Decrypt_chunk priv (f i) (g i) = Some (d i)"
    and "\<forall>i < n. length (f i) = 32" and "\<forall>i < n. length (g i) = 32" and "i \<le> n"
  shows "Decrypt_loop priv \<lparr>ct_C1 = concat (map f [0..<n]), ct_C2 = concat (map g [0..<n])\<rparr> n i M =
    Some (M @ concat (map d [i..<n]))"
  using assms(4)
proof (induction "n - i" arbitrary: i M)
  case 0
  then show ?case by (simp add: Decrypt_loop.simps)
next
  case (Suc k)
  then have i: "i < n" by simp
  have "length (concat (map g [0..<n])) = n * 32"
    using assms(3) by (subst length_concat_const [where k = 32]) auto
  moreover have "Suc i * 32 \<le> n * 32" using i by simp
  moreover have "slice_at 32 (concat (map f [0..<n])) n i = f i"
    "slice_at 32 (concat (map g [0..<n])) n i = g i"
    using slice_at_concat [OF assms(2) i] slice_at_concat [OF assms(3) i] .
  moreover have "Decrypt_loop priv \<lparr>ct_C1 = concat (map f [0..<n]), ct_C2 = concat (map g [0..<n])\<rparr> n (Suc i) (M @ d i) =
      Some ((M @ d i) @ concat (map d [Suc i..<n]))"
    using Suc i by (intro Suc.hyps) auto
  ultimately show ?case
    using i assms(1) by (subst Decrypt_loop.simps) (simp add: upt_conv_Cons)
qed

text \<open>
  C19: Decrypting what \<open>Encrypt\<close> produced for a valid key pair returns, for every 28-byte
  chunk of the message, that chunk without its leading zero bytes: \<open>Decrypt\<close> appends
  \<open>s.Bytes()\<close>, the shortest encoding of the chunk's number. Both calls always return.
\<close>

theorem Decrypt_Encrypt:
  assumes key: "key_pair priv" and P: "pk_P priv < 256 ^ 32"
    and draws: "\<And>i. 0 \<le> draws i 0 \<and> draws i 0 < pk_P priv - 4"
    and n: "n = (length M + 27) div 28"
    and m: "\<And>i. i < n \<Longrightarrow> big_SetBytes (slice_at 28 M n i) < pk_P priv"
  shows "Option.bind (Encrypt priv draws M) (Decrypt priv) =
    Some (concat (map (\<lambda>i. dropWhile (\<lambda>b. b = 0) (slice_at 28 M n i)) [0..<n]))"
proof -
  let ?s = "slice_at 28 M n" and ?d = "\<lambda>i. dropWhile (\<lambda>b. b = 0) (slice_at 28 M n i)"
  have "\<forall>i. \<exists>c1 c2. i < n \<longrightarrow> Encrypt_chunk priv (draws i) (?s i) = Some (c1, c2) \<and>
      length c1 = 32 \<and> length c2 = 32 \<and> Decrypt_chunk priv c1 c2 = Some (?d i)"
  proof
    fix i
    show "\<exists>c1 c2. i < n \<longrightarrow> Encrypt_chunk priv (draws i) (?s i) = Some (c1, c2) \<and>
      length c1 = 32 \<and> length c2 = 32 \<and> Decrypt_chunk priv c1 c2 = Some (?d i)"
    proof (cases "i < n")
      case True
      with draws [of i] obtain c1 c2 where "Encrypt_chunk priv (draws i) (?s i) = Some (c1, c2)"
        "length c1 = 32" "length c2 = 32" "Decrypt_chunk priv c1 c2 = Some (?d i)"
        using Encrypt_chunk_Decrypt_chunk [OF key P _ _ m [OF True]] by blast
      then show ?thesis by blast
    qed simp
  qed
  then obtain f g where fg: "\<forall>i < n. Encrypt_chunk priv (draws i) (?s i) = Some (f i, g i)"
      "\<forall>i < n. length (f i) = 32" "\<forall>i < n. length (g i) = 32"
      "\<forall>i < n. Decrypt_chunk priv (f i) (g i) = Some (?d i)"
    by metis
  have "Encrypt priv draws M =
      Some \<lparr>ct_C1 = concat (map f [0..<n]), ct_C2 = concat (map g [0..<n])\<rparr>"
    using Encrypt_loop_eq [OF fg(1), of 0 "[]" "[]"] by (simp add: Encrypt_def n)
  moreover have "(length (concat (map f [0..<n])) + 31) div 32 = n"
    using fg(2) by (subst length_concat_const [where k = 32]) auto
  ultimately show ?thesis
    using Decrypt_loop_eq [OF fg(4,2,3), of 0 "[]"] by (simp add: Decrypt_def)
qed

subsection \<open>Signatures verify\<close>

lemma good_key_units:
  assumes "good_key pub"
  shows "is_prime (pk_P pub)" and "\<not> pk_P pub dvd pk_G1 pub"
    and "\<not> pk_P pub dvd pk_G2 pub" and "\<not> pk_P pub dvd pk_H pub"
  using assms by (simp_all add: good_key_def)

lemma mult_mod_cong: "(a :: int) mod p = a' mod p \<Longrightarrow> b mod p = b' mod p \<Longrightarrow> a * b mod p = a' * b' mod p"
  by (metis mod_mult_eq)

lemma elgamal_verify_eq:
  assumes prime: "is_prime p" and g: "\<not> p dvd g" and X: "0 \<le> x" and K: "0 \<le> k"
    and r: "r = g ^ nat k mod p" and inv: "k * i mod (p - 1) = 1 mod (p - 1)"
    and s: "s = i * (m - r * x) mod (p - 1)" and m: "0 \<le> m"
  shows "(g ^ nat x mod p) ^ nat r * r ^ nat s mod p = g ^ nat m mod p"
proof -
  have gt: "1 < p" using prime by (rule is_prime_gt_1)
  have r0: "0 \<le> r" and s0: "0 \<le> s" using gt by (simp_all add: r s)
  have "k * s mod (p - 1) = (k * i mod (p - 1)) * (m - r * x) mod (p - 1)"
    by (simp add: s mod_simps ac_simps)
  also have "\<dots> = (m - r * x) mod (p - 1)" by (simp add: inv mod_simps)
  finally have "(x * r + k * s) mod (p - 1) = (x * r + (m - r * x)) mod (p - 1)"
    by (simp only: mod_add_right_eq [symmetric, of "x * r" "k * s"] mod_add_right_eq)
  then have exp: "(x * r + k * s) mod (p - 1) = m mod (p - 1)" by (simp add: mult.commute)
  have "(g ^ nat x mod p) ^ nat r * r ^ nat s mod p = (g ^ nat x) ^ nat r * (g ^ nat k) ^ nat s mod p"
    by (rule mult_mod_cong) (simp_all add: r power_mod)
  also have "\<dots> = g ^ nat (x * r + k * s) mod p"
    using X K r0 s0 by (simp add: power_add power_mult nat_add_distrib nat_mult_distrib)
  also have "\<dots> = g ^ nat m mod p"
    using X K r0 s0 m by (intro power_mod_exponent [OF prime g exp]) simp_all
  finally show ?thesis .
qed

text \<open>
  C21: A signature made by \<open>Sign\<close> with a valid key pair, once its retry loop has met a
  number coprime to \<open>P - 1\<close>, is accepted by \<open>Verify\<close> exactly when the message hash does not
  start with a zero byte: \<open>Sign\<close> stores the hash as \<open>m_0.Bytes()\<close>, which drops leading zeros,
  and \<open>Verify\<close> compares lengths.
\<close>

theorem Verify_Sign:
  assumes key: "key_pair priv" and P: "2 < pk_P priv"
    and stop: "gcd (draw j + 2) (pk_P priv - 1) = 1"
    and before: "\<And>i. i < j \<Longrightarrow> gcd_Int64 (draw i + 2) (pk_P priv - 1) \<noteq> 1"
    and draw: "0 \<le> draw j"
  shows "Option.bind (Sign sha priv draw m) (Verify sha priv) =
    Some (sha m = [] \<or> hd (sha m) \<noteq> 0)"
proof -
  let ?P = "pk_P priv" and ?K = "draw j + 2"
  have prime: "is_prime ?P" and G2: "\<not> ?P dvd pk_G2 priv" and X: "0 \<le> sk_X priv"
    using key by (auto simp: key_pair_def good_key_def)
  have H: "pk_H priv = pk_G2 priv ^ nat (sk_X priv) mod ?P"
    using key P by (auto simp: key_pair_def big_Exp_def)
  have pick: "pick_coprime draw (?P - 1) 0 = Some ?K"
    using pick_coprime_search [of draw 0 j "?P - 1"] stop before by simp
  obtain i where i: "big_ModInverse ?K (?P - 1) = Some i" "?K * i mod (?P - 1) = 1"
    using big_ModInverse_Some [OF stop] P by force
  define m' where "m' = big_SetBytes (sha m) mod ?P"
  define r where "r = pk_G2 priv ^ nat ?K mod ?P"
  define s where "s = i * (m' - r * sk_X priv) mod (?P - 1)"
  have r0: "0 \<le> r" and s0: "0 \<le> s" using P by (simp_all add: r_def s_def)
  have sign: "Sign sha priv draw m = Some \<lparr>sig_M = m, sig_M_hash = dropWhile (\<lambda>b. b = 0) (sha m),
      sig_R = big_Bytes r, sig_S = big_Bytes s\<rparr>"
    using P by (simp add: Sign_def pick i go_defs Let_def m'_def r_def s_def big_Bytes_SetBytes)
  have eq: "pk_H priv ^ nat r * r ^ nat s mod ?P = pk_G2 priv ^ nat m' mod ?P"
    unfolding H
  proof (rule elgamal_verify_eq [OF prime G2 X _ r_def _ s_def])
    show "?K * i mod (?P - 1) = 1 mod (?P - 1)" using i(2) P by simp
  qed (use draw P in \<open>simp_all add: m'_def\<close>)
  show ?thesis
  proof (cases "sha m = [] \<or> hd (sha m) \<noteq> 0")
    case True
    then have "dropWhile (\<lambda>b. b = 0) (sha m) = sha m" by (cases "sha m") auto
    with True P eq r0 s0 show ?thesis
      by (simp add: sign Verify_def go_defs Let_def mod_simps m'_def)
  next
    case False
    then have "length (dropWhile (\<lambda>b. b = 0) (sha m)) < length (sha m)"
      by (cases "sha m") (auto simp: le_imp_less_Suc length_dropWhile_le)
    with False show ?thesis by (simp add: sign Verify_def)
  qed
qed

subsection \<open>Encrypted values\<close>

lemma DecryptValue_loop_least:
  assumes hit: "gv = big_Exp (pk_G1 priv) (int v) (pk_P priv)" and "i \<le> v" and "v \<le> 262144"
    and miss: "\<And>j. i \<le> j \<Longrightarrow> j < v \<Longrightarrow> gv \<noteq> big_Exp (pk_G1 priv) (int j) (pk_P priv)"
  shows "DecryptValue_loop priv gv i = v"
  using assms(2) miss
proof (induction "v - i" arbitrary: i)
  case 0
  then show ?case using hit by (subst DecryptValue_loop.simps) simp
next
  case (Suc k)
  then have "DecryptValue_loop priv gv (Suc i) = v" by (intro Suc.hyps) auto
  moreover have "gv \<noteq> big_Exp (pk_G1 priv) (int i) (pk_P priv)" using Suc by auto
  moreover have "\<not> 262144 \<le> i" using Suc.hyps(2) assms(3) by simp
  ultimately show ?case by (subst DecryptValue_loop.simps) simp
qed

text \<open>
  C23: A value between 1 and 262144 that \<open>EncryptValue\<close> encrypts under a valid key is
  recovered by \<open>DecryptValue\<close>, as long as no smaller positive exponent of \<open>G1\<close> gives the same
  group element.
\<close>

theorem DecryptValue_EncryptValue:
  assumes key: "key_pair priv" and draw: "0 \<le> draw 0" "draw 0 < pk_P priv - 4"
    and M: "0 < M" "M \<le> 262144" "uint M < pk_P priv"
    and least: "\<And>j. 0 < j \<Longrightarrow> j < unat M \<Longrightarrow>
      pk_G1 priv ^ j mod pk_P priv \<noteq> pk_G1 priv ^ unat M mod pk_P priv"
  shows "\<exists>C cm. EncryptValue priv draw M = Some (Inr (C, cm)) \<and> DecryptValue priv C = Some (unat M)"
proof -
  let ?P = "pk_P priv" and ?k = "draw 0 + 2" and ?X = "sk_X priv"
  have prime: "is_prime ?P" and G2: "\<not> ?P dvd pk_G2 priv" and X: "0 \<le> ?X"
    using key by (auto simp: key_pair_def good_key_def)
  have gt: "1 < ?P" using prime by (rule is_prime_gt_1)
  have H: "pk_H priv = pk_G2 priv ^ nat ?X mod ?P"
    using key gt by (auto simp: key_pair_def big_Exp_def)
  define s where "s = pk_G2 priv ^ (nat ?X * nat ?k) mod ?P"
  define c1 where "c1 = pk_G2 priv ^ nat ?k mod ?P"
  define gv where "gv = pk_G1 priv ^ unat M mod ?P"
  have s_H: "pk_H priv ^ nat ?k mod ?P = s" by (simp add: H s_def power_mod power_mult)
  have uM: "nat (uint M mod ?P) = unat M" using M(3) by simp
  have cm: "pk_G1 priv ^ unat M * pk_H priv ^ nat ?k mod ?P = s * gv mod ?P"
    using mult_mod_cong [of "pk_G1 priv ^ unat M" ?P gv "pk_H priv ^ nat ?k" s] s_H
    by (simp add: gv_def s_def mult.commute)
  let ?C = "\<lparr>ct_C1 = big_Bytes c1, ct_C2 = big_Bytes (s * gv mod ?P)\<rparr>"
  have k: "be_val (big_Bytes ?k) = nat ?k" using draw by (simp add: big_Bytes_def)
  have enc: "\<exists>cm. EncryptValue priv draw M = Some (Inr (?C, cm))"
    using gt M(2) cm by (simp add: EncryptValue_def pick_coprime_first [of ?P draw 0, OF prime draw] Commit_eq uM k
        big_Exp_def c1_def Let_def not_less)
  have "\<not> ?P dvd s" unfolding s_def
    using is_prime_not_dvd_power [OF prime G2] by (simp add: dvd_mod_iff)
  then have "gcd s ?P = 1" using is_prime_coprime [OF prime] by (simp add: coprime_iff_gcd_eq_1)
  then obtain i where i: "big_ModInverse s ?P = Some i" "s * i mod ?P = 1"
    using big_ModInverse_Some [OF _ gt, of s] by auto
  have c1: "c1 ^ nat ?X mod ?P = s"
    by (simp add: c1_def s_def power_mod power_mult [symmetric] mult.commute)
  have nn: "0 \<le> c1" "0 \<le> s * gv mod ?P" using gt by (simp_all add: c1_def)
  have "s * gv mod ?P * i mod ?P = gv mod ?P"
    using mod_mult_inverse_cancel [OF i(2), of gv] by (simp add: mod_simps ac_simps)
  also have "\<dots> = gv" by (simp add: gv_def)
  finally have "DecryptValue priv ?C = Some (DecryptValue_loop priv gv 1)"
    using gt nn by (simp add: DecryptValue_def big_Exp_def c1 i big_Mod_def)
  moreover have "DecryptValue_loop priv gv 1 = unat M"
  proof (rule DecryptValue_loop_least)
    show "gv = big_Exp (pk_G1 priv) (int (unat M)) ?P" using gt by (simp add: gv_def big_Exp_def)
    show "1 \<le> unat M" using M(1) by (simp add: Suc_le_eq unat_gt_0 word_gt_0)
    show "unat M \<le> 262144" using M(2) by (simp add: word_le_nat_alt)
    show "gv \<noteq> big_Exp (pk_G1 priv) (int j) ?P" if "1 \<le> j" "j < unat M" for j
      using least [of j] that gt by (auto simp: gv_def big_Exp_def)
  qed
  ultimately show ?thesis using enc by auto
qed

subsection \<open>The search of VerifyCommitment\<close>

lemma VerifyCommitment_loop_hit:
  assumes P: "0 < pk_P pub" and "i \<le> v" and "v \<le> 262144"
    and hit: "pk_G1 pub ^ v * pk_H pub ^ nat R mod pk_P pub = cm"
  shows "\<exists>w. VerifyCommitment_loop pub R cm i = Some w \<and> i \<le> w \<and> w \<le> v \<and>
    pk_G1 pub ^ w * pk_H pub ^ nat R mod pk_P pub = cm"
  using assms(2)
proof (induction "v - i" arbitrary: i)
  case 0
  then show ?case using P hit
    by (subst VerifyCommitment_loop.simps) (simp add: go_defs mod_simps)
next
  case (Suc k)
  show ?case
  proof (cases "pk_G1 pub ^ i * pk_H pub ^ nat R mod pk_P pub = cm")
    case True
    then show ?thesis using P Suc.prems
      by (subst VerifyCommitment_loop.simps) (simp add: go_defs mod_simps)
  next
    case False
    from Suc have "\<exists>w. VerifyCommitment_loop pub R cm (Suc i) = Some w \<and> Suc i \<le> w \<and> w \<le> v \<and>
        pk_G1 pub ^ w * pk_H pub ^ nat R mod pk_P pub = cm" by (intro Suc.hyps) auto
    moreover have "\<not> 262144 \<le> i" using Suc.hyps(2) assms(3) by simp
    ultimately show ?thesis using False P
      by (subst VerifyCommitment_loop.simps) (auto simp: go_defs mod_simps)
  qed
qed

lemma VerifyCommitment_loop_sound:
  "0 < pk_P pub \<Longrightarrow> VerifyCommitment_loop pub R cm i = Some w \<Longrightarrow> w \<noteq> 0 \<Longrightarrow> i \<le> w \<and>
    pk_G1 pub ^ w * pk_H pub ^ nat R mod pk_P pub = cm"
proof (induction pub R cm i rule: VerifyCommitment_loop.induct)
  case (1 pub R cm i)
  let ?c = "pk_G1 pub ^ i * pk_H pub ^ nat R mod pk_P pub"
  have "VerifyCommitment_loop pub R cm i =
      (if ?c = cm then Some i else if 262144 \<le> i then Some 0 else VerifyCommitment_loop pub R cm (Suc i))"
    using "1.prems"(1) by (subst VerifyCommitment_loop.simps) (simp add: go_defs mod_simps)
  with 1 show ?case by (auto simp: go_defs mod_simps split: if_splits)
qed

subsection \<open>Generated keys are valid\<close>

lemma coprime_below_unit:
  assumes prime: "is_prime p" and low: "p mod 2 ^ 64 \<noteq> 1" and g: "0 \<le> g" "g < p"
  obtains u where "coprime_below g p = Some u" and "\<not> p dvd u"
proof (cases "g = 0")
  case True
  have "gcd_Int64 0 p \<noteq> 1"
  proof
    assume "gcd_Int64 0 p = 1"
    then have "sint (word_of_int p :: u64) = 1"
      using is_prime_gt_1 [OF prime] by (simp add: gcd_Int64_def)
    then have "(word_of_int p :: u64) = 1" by (intro signed_word_eqI) simp
    then have "uint (word_of_int p :: u64) = 1" by simp
    with low show False by (simp add: uint_word_of_int)
  qed
  then have "coprime_below g p = coprime_below (- 1) p"
    by (subst coprime_below.simps) (simp add: True)
  also have "\<dots> = Some (- 1)" by (subst coprime_below.simps) simp
  finally show ?thesis using is_prime_gt_1 [OF prime] by (intro that) (auto simp: zdvd1_eq)
next
  case False
  with g have nd: "\<not> p dvd g" by (auto dest: zdvd_imp_le)
  then have "gcd g p = 1" using is_prime_coprime [OF prime] by (simp add: coprime_iff_gcd_eq_1)
  then have "coprime_below g p = Some g" by (subst coprime_below.simps) simp
  then show ?thesis using nd by (rule that)
qed

text \<open>
  C31: \<open>GenerateKeys\<close> always returns, and returns a valid key pair: both generators and the
  public value are units modulo the prime and \<open>H = G2**X mod P\<close>. (The low 64 bits of the
  prime must not be 1, since the code tests a gcd through \<open>Int64()\<close>.)
\<close>

theorem GenerateKeys_key_pair:
  assumes prime: "is_prime p" and low: "p mod 2 ^ 64 \<noteq> 1" and x: "0 \<le> x"
  shows "\<exists>priv. GenerateKeys sha p info now x = Some priv \<and> key_pair priv \<and> pk_P priv = p"
proof -
  have gt: "1 < p" using prime by (rule is_prime_gt_1)
  obtain G1 where G1: "coprime_below (big_SetBytes (sha info) mod p) p = Some G1" "\<not> p dvd G1"
    using coprime_below_unit [OF prime low, of "big_SetBytes (sha info) mod p"] gt by auto
  obtain G2 where G2: "coprime_below (big_SetBytes (sha info @ now) mod p) p = Some G2" "\<not> p dvd G2"
    using coprime_below_unit [OF prime low, of "big_SetBytes (sha info @ now) mod p"] gt by auto
  have "\<not> p dvd big_Exp G2 x p"
    using is_prime_not_dvd_power [OF prime G2(2)] gt by (simp add: big_Exp_def dvd_mod_iff)
  with G1 G2 gt prime x show ?thesis
    by (simp add: GenerateKeys_def big_Mod_def key_pair_def good_key_def Let_def)
qed

subsection \<open>A small key for the witnesses\<close>

definition ex_key :: PrivateKey where
  "ex_key = \<lparr>pk_G1 = 5, pk_G2 = 7, pk_P = 23, pk_H = 21, sk_X = 3\<rparr>"

lemma ex_key_simps [simp]:
  "pk_G1 ex_key = 5" "pk_G2 ex_key = 7" "pk_P ex_key = 23" "pk_H ex_key = 21" "sk_X ex_key = 3"
  by (simp_all add: ex_key_def)

lemma is_prime_23 [simp]: "is_prime 23"
  by code_simp

lemma ex_key_pair [simp]: "key_pair ex_key"
  by (simp add: key_pair_def good_key_def big_Exp_def)

lemma ex_good_key [simp]: "good_key ex_key"
  by (simp add: good_key_def)

theorem Decrypt_Encrypt_witness:
  "key_pair ex_key \<and>
   Option.bind (Encrypt ex_key (\<lambda>_ _. 3) [0, 5]) (Decrypt ex_key) = Some [5]"
proof -
  have n: "(1 :: nat) = (length ([0, 5] :: bytes) + 27) div 28" by simp
  have "Option.bind (Encrypt ex_key (\<lambda>_ _. 3) [0, 5]) (Decrypt ex_key) =
      Some (concat (map (\<lambda>i. dropWhile (\<lambda>b. b = 0) (slice_at 28 [0, 5] 1 i)) [0..<1]))"
    by (rule Decrypt_Encrypt [OF ex_key_pair _ _ n])
      (simp_all add: slice_at_def big_SetBytes_def be_val_def)
  then show ?thesis by (simp add: slice_at_def)
qed

theorem Verify_Sign_witness:
  "key_pair ex_key \<and> gcd (1 + 2) (22 :: int) = 1 \<and>
   Option.bind (Sign (\<lambda>_. [9, 4]) ex_key (\<lambda>_. 1) [1]) (Verify (\<lambda>_. [9, 4]) ex_key) = Some True \<and>
   Option.bind (Sign (\<lambda>_. [0, 4]) ex_key (\<lambda>_. 1) [1]) (Verify (\<lambda>_. [0, 4]) ex_key) = Some False"
  using Verify_Sign [of ex_key "\<lambda>_. 1" 0 "\<lambda>_. [9, 4]" "[1]"]
    Verify_Sign [of ex_key "\<lambda>_. 1" 0 "\<lambda>_. [0, 4]" "[1]"]
  by (simp add: gcd_non_0_int)

theorem DecryptValue_EncryptValue_witness:
  "key_pair ex_key \<and>
   (\<exists>C cm. EncryptValue ex_key (\<lambda>_. 4) 3 = Some (Inr (C, cm)) \<and> DecryptValue ex_key C = Some 3)"
proof -
  have "\<exists>C cm. EncryptValue ex_key (\<lambda>_. 4) 3 = Some (Inr (C, cm)) \<and>
      DecryptValue ex_key C = Some (unat (3 :: u64))"
  proof (rule DecryptValue_EncryptValue)
    fix j :: nat assume "0 < j" "j < unat (3 :: u64)"
    then have "j = 1 \<or> j = 2" by auto
    then show "pk_G1 ex_key ^ j mod pk_P ex_key \<noteq> pk_G1 ex_key ^ unat (3 :: u64) mod pk_P ex_key"
      by auto
  qed simp_all
  then show ?thesis by simp
qed

theorem GenerateKeys_key_pair_witness:
  "is_prime 23 \<and> (23 :: int) mod 2 ^ 64 \<noteq> 1 \<and>
   (\<exists>priv. GenerateKeys (\<lambda>_. [5]) 23 [] [] 3 = Some priv \<and> key_pair priv \<and> pk_P priv = 23)"
  using GenerateKeys_key_pair [of 23 3 "\<lambda>_. [5]" "[]" "[]"] by simp

text \<open>
  C33: A commitment made by \<open>Commit\<close> for a value between 1 and 262144 is opened by
  \<open>VerifyCommitment\<close>: the search always ends with some value between 1 and the committed one
  that gives the same commitment under the same randomness.
\<close>

theorem VerifyCommitment_Commit:
  assumes "0 < pk_P pub" and "1 \<le> v" and "v \<le> 262144" and "int v < pk_P pub"
  shows "\<exists>cm w. Commit pub (int v) rnd = Some cm \<and> VerifyCommitment pub cm = Some w \<and>
    1 \<le> w \<and> w \<le> v \<and> Commit pub (int w) rnd = Some cm"
proof -
  let ?cm = "pk_G1 pub ^ v * pk_H pub ^ be_val rnd mod pk_P pub"
  have nn: "0 \<le> ?cm" using assms(1) by simp
  obtain w where w: "VerifyCommitment_loop pub (int (be_val rnd)) ?cm 1 = Some w" "1 \<le> w" "w \<le> v"
      "pk_G1 pub ^ w * pk_H pub ^ be_val rnd mod pk_P pub = ?cm"
    using VerifyCommitment_loop_hit [OF assms(1-3), of "int (be_val rnd)" ?cm] by auto
  then have "int w < pk_P pub" using assms(4) by linarith
  then have "Commit pub (int w) rnd = Commit pub (int v) rnd"
    using assms w(4) by (simp add: Commit_eq)
  then show ?thesis
    using assms w(1-3) nn by (simp add: Commit_eq VerifyCommitment_def)
qed

theorem VerifyCommitment_Commit_witness:
  "\<exists>cm w. Commit ex_key (int 4) [2] = Some cm \<and> VerifyCommitment ex_key cm = Some w \<and>
    1 \<le> w \<and> w \<le> 4 \<and> Commit ex_key (int w) [2] = Some cm"
  by (rule VerifyCommitment_Commit) simp_all

end
