(* ===== verification/Zkp.thy ===== *)
theory Zkp
  imports Elgamal
begin

text \<open>
  The zero-knowledge proofs of \<open>crypto/zkp/zkp.go\<close>: format proofs for encrypted values, balance
  proofs for a transaction's three commitments, linear-equation proofs and the equality proofs
  built on them. SHA-256 is the argument \<open>sha\<close>; what \<open>rand\<close> draws is an argument of each
  prover. \<open>None\<close> is a run-time panic. A Go \<open>int\<close> that is only widened to a \<open>big.Int\<close> is an
  \<open>int\<close>.
\<close>

section \<open>Proof objects\<close>

record FormatProof =
  fp_C :: bytes
  fp_Z1 :: bytes
  fp_Z2 :: bytes

record BalanceProof =
  bp_C :: bytes
  bp_R_v :: bytes
  bp_R_r :: bytes
  bp_S_v :: bytes
  bp_S_r :: bytes
  bp_S_or :: bytes

record LinearEquationProof =
  lp_S :: "bytes list"
  lp_T :: bytes

section \<open>Format proofs\<close>

text \<open>
  \<open>hash_mod\<close> is the challenge \<^verbatim>\<open>c.SetBytes(sha256.Sum256(...)); c.Mod(c, pub.P)\<close>; \<open>response\<close> is the block
  \<^verbatim>\<open>vc := w * c; vc.Mod(vc, P1); vc.Sub(P1, vc); z := a + vc; z.Mod(z, P1)\<close> that the provers repeat.
\<close>

definition hash_mod :: "(bytes \<Rightarrow> bytes) \<Rightarrow> ('a) PublicKey_scheme \<Rightarrow> bytes \<Rightarrow> int option" where
  "hash_mod sha pub bs = big_Mod (big_SetBytes (sha bs)) (pk_P pub)"

definition response :: "int \<Rightarrow> int \<Rightarrow> int \<Rightarrow> int \<Rightarrow> int option" where
  "response P1 a w c = do {
     vc \<leftarrow> big_Mod (w * c) P1;
     big_Mod (a + (P1 - vc)) P1 }"

definition GenerateFormatProof ::
  "(bytes \<Rightarrow> bytes) \<Rightarrow> ('a) PublicKey_scheme \<Rightarrow> int \<Rightarrow> int \<Rightarrow> u64 \<Rightarrow> bytes \<Rightarrow> FormatProof option" where
  "GenerateFormatProof sha pub randA randB v r = do {
     let P1 = pk_P pub - 1;
     let a = randA + 2;
     let b = randB + 2;
     let g1a = big_Exp (pk_G1 pub) a (pk_P pub);
     let hb = big_Exp (pk_H pub) b (pk_P pub);
     t1P \<leftarrow> big_Mod (g1a * hb) (pk_P pub);
     let t2P = big_Exp (pk_G2 pub) b (pk_P pub);
     c \<leftarrow> hash_mod sha pub (big_Bytes t1P @ big_Bytes t2P);
     z1 \<leftarrow> response P1 a (uint v) c;
     z2 \<leftarrow> response P1 b (big_SetBytes r) c;
     Some \<lparr>fp_C = big_Bytes c, fp_Z1 = big_Bytes z1, fp_Z2 = big_Bytes z2\<rparr> }"

definition VerifyFormatProof ::
  "(bytes \<Rightarrow> bytes) \<Rightarrow> CypherText \<Rightarrow> ('a) PublicKey_scheme \<Rightarrow> FormatProof \<Rightarrow> bool option" where
  "VerifyFormatProof sha C pub fp = do {
     let c1 = big_SetBytes (ct_C1 C);
     let c2 = big_SetBytes (ct_C2 C);
     let c = big_SetBytes (fp_C fp);
     let z1 = big_SetBytes (fp_Z1 fp);
     let z2 = big_SetBytes (fp_Z2 fp);
     let c1c = big_Exp c2 c (pk_P pub);
     let g1z1 = big_Exp (pk_G1 pub) z1 (pk_P pub);
     let hz2 = big_Exp (pk_H pub) z2 (pk_P pub);
     c1c' \<leftarrow> big_Mod (c1c * g1z1) (pk_P pub);
     t1V \<leftarrow> big_Mod (c1c' * hz2) (pk_P pub);
     let c2c = big_Exp c1 c (pk_P pub);
     let g2z2 = big_Exp (pk_G2 pub) z2 (pk_P pub);
     t2V \<leftarrow> big_Mod (c2c * g2z2) (pk_P pub);
     cV \<leftarrow> hash_mod sha pub (big_Bytes t1V @ big_Bytes t2V);
     Some (c = cV) }"

section \<open>Balance proofs\<close>

text \<open>The five exponents are the base-\<open>limit\<close> digits of one random number, each plus two.\<close>

definition GenerateBalanceProof ::
  "(bytes \<Rightarrow> bytes) \<Rightarrow> ('a) PublicKey_scheme \<Rightarrow> int \<Rightarrow> u64 \<Rightarrow> u64 \<Rightarrow> u64 \<Rightarrow>
    bytes \<Rightarrow> bytes \<Rightarrow> bytes \<Rightarrow> BalanceProof option" where
  "GenerateBalanceProof sha pub mix vR vS vO rR rS rO = do {
     let P1 = pk_P pub - 1;
     let limit = pk_P pub - 4;
     a' \<leftarrow> big_Mod mix limit;
     let a = a' + 2;
     mix1 \<leftarrow> big_Div mix limit;
     b' \<leftarrow> big_Mod mix1 limit;
     let b = b' + 2;
     mix2 \<leftarrow> big_Div mix1 limit;
     d' \<leftarrow> big_Mod mix2 limit;
     let d = d' + 2;
     mix3 \<leftarrow> big_Div mix2 limit;
     e' \<leftarrow> big_Mod mix3 limit;
     let e = e' + 2;
     mix4 \<leftarrow> big_Div mix3 limit;
     f' \<leftarrow> big_Mod mix4 limit;
     let f = f' + 2;
     let g1a = big_Exp (pk_G1 pub) a (pk_P pub);
     let hb = big_Exp (pk_H pub) b (pk_P pub);
     t1P \<leftarrow> big_Mod (g1a * hb) (pk_P pub);
     let g1d = big_Exp (pk_G1 pub) d (pk_P pub);
     let he = big_Exp (pk_H pub) e (pk_P pub);
     t2P \<leftarrow> big_Mod (g1d * he) (pk_P pub);
     ad \<leftarrow> big_Mod (a + d) P1;
     let g1ad = big_Exp (pk_G1 pub) ad (pk_P pub);
     let hf = big_Exp (pk_H pub) f (pk_P pub);
     t3P \<leftarrow> big_Mod (g1ad * hf) (pk_P pub);
     c \<leftarrow> hash_mod sha pub ((big_Bytes t1P @ big_Bytes t2P) @ big_Bytes t3P);
     RV \<leftarrow> response P1 a (uint vR) c;
     RR \<leftarrow> response P1 b (big_SetBytes rR) c;
     SV \<leftarrow> response P1 d (uint vS) c;
     SR \<leftarrow> response P1 e (big_SetBytes rS) c;
     SOr \<leftarrow> response P1 f (big_SetBytes rO) c;
     Some \<lparr>bp_C = big_Bytes c, bp_R_v = big_Bytes RV, bp_R_r = big_Bytes RR,
       bp_S_v = big_Bytes SV, bp_S_r = big_Bytes SR, bp_S_or = big_Bytes SOr\<rparr> }"

text \<open>
  \<open>balance_t\<close> is one of the three blocks that rebuild a first message of the proof from a
  commitment, the challenge and two responses.
\<close>

definition balance_t :: "('a) PublicKey_scheme \<Rightarrow> int \<Rightarrow> int \<Rightarrow> int \<Rightarrow> int \<Rightarrow> int option" where
  "balance_t pub cm c x y = do {
     let g1x = big_Exp (pk_G1 pub) x (pk_P pub);
     let hy = big_Exp (pk_H pub) y (pk_P pub);
     let cmc = big_Exp cm c (pk_P pub);
     t \<leftarrow> big_Mod (g1x * hy) (pk_P pub);
     big_Mod (t * cmc) (pk_P pub) }"

definition balance_ts ::
  "bytes \<Rightarrow> bytes \<Rightarrow> bytes \<Rightarrow> ('a) PublicKey_scheme \<Rightarrow> BalanceProof \<Rightarrow> (int \<times> int \<times> int) option" where
  "balance_ts CM_r CM_s CM_o pub bp = do {
     let c = big_SetBytes (bp_C bp);
     let RV = big_SetBytes (bp_R_v bp);
     let RR = big_SetBytes (bp_R_r bp);
     let SV = big_SetBytes (bp_S_v bp);
     let SR = big_SetBytes (bp_S_r bp);
     let SOr = big_SetBytes (bp_S_or bp);
     t1V \<leftarrow> balance_t pub (big_SetBytes CM_r) c RV RR;
     t2V \<leftarrow> balance_t pub (big_SetBytes CM_s) c SV SR;
     t3V \<leftarrow> balance_t pub (big_SetBytes CM_o) c (RV + SV) SOr;
     Some (t1V, t2V, t3V) }"

definition VerifyBalanceProof ::
  "(bytes \<Rightarrow> bytes) \<Rightarrow> bytes \<Rightarrow> bytes \<Rightarrow> bytes \<Rightarrow> ('a) PublicKey_scheme \<Rightarrow> BalanceProof \<Rightarrow> bool option" where
  "VerifyBalanceProof sha CM_r CM_s CM_o pub bp = do {
     (t1V, t2V, t3V) \<leftarrow> balance_ts CM_r CM_s CM_o pub bp;
     cV \<leftarrow> hash_mod sha pub ((big_Bytes t1V @ big_Bytes t2V) @ big_Bytes t3V);
     Some (big_SetBytes (bp_C bp) = cV) }"

section \<open>Linear-equation proofs\<close>

text \<open>\<open>RandomBigInt\<close>: the digits of \<open>mix\<close>, a random number below \<open>limit**5\<close>.\<close>

fun RandomBigInt_loop :: "int \<Rightarrow> int \<Rightarrow> nat \<Rightarrow> int list option" where
  "RandomBigInt_loop limit mix 0 = Some []"
| "RandomBigInt_loop limit mix (Suc k) = do {
     buf \<leftarrow> big_Mod mix limit;
     mix' \<leftarrow> (if 0 < k then big_Div mix limit else Some mix);
     rest \<leftarrow> RandomBigInt_loop limit mix' k;
     Some ((buf + 2) # rest) }"

definition RandomBigInt :: "nat \<Rightarrow> ('a) PublicKey_scheme \<Rightarrow> int \<Rightarrow> int list option" where
  "RandomBigInt n pub mix = RandomBigInt_loop (pk_P pub - 4) mix n"

text \<open>
  The loop that fills \<open>v\<close>: free exponents come from \<open>rbi\<close>, and the last one with a non-zero
  coefficient is solved for, so that the equation holds modulo \<open>P - 1\<close>.
\<close>

fun linear_v :: "int \<Rightarrow> int list \<Rightarrow> int list \<Rightarrow> nat \<Rightarrow> int \<Rightarrow> int list option" where
  "linear_v P_1 [] rbi ssnum lst = Some []"
| "linear_v P_1 (ai # a) rbi ssnum lst =
     (if ai = 0 then
        (case rbi of [] \<Rightarrow> None
         | r # rbi' \<Rightarrow> map_option ((#) r) (linear_v P_1 a rbi' ssnum lst))
      else if ssnum = 1 then do {
        let Ai = (case big_ModInverse ai P_1 of Some i \<Rightarrow> i | None \<Rightarrow> ai);
        vi \<leftarrow> big_Mod (lst * Ai) P_1;
        map_option ((#) vi) (linear_v P_1 a rbi (ssnum - 1) lst) }
      else
        (case rbi of [] \<Rightarrow> None
         | r # rbi' \<Rightarrow> do {
             lst' \<leftarrow> big_Mod (lst - ai * r) P_1;
             map_option ((#) r) (linear_v P_1 a rbi' (ssnum - 1) lst') }))"

text \<open>The sums \<open>vrf\<close> and \<open>mix\<close>, the product \<open>t\<close> and the responses \<open>S\<close>.\<close>

fun linear_vrf :: "int \<Rightarrow> (int \<times> int) list \<Rightarrow> int \<Rightarrow> int option" where
  "linear_vrf P_1 [] vrf = Some vrf"
| "linear_vrf P_1 ((vi, ai) # va) vrf = do {
     vrf' \<leftarrow> big_Mod (vrf + vi * ai) P_1;
     linear_vrf P_1 va vrf' }"

fun linear_t :: "int \<Rightarrow> (bytes \<times> int) list \<Rightarrow> int \<Rightarrow> int option" where
  "linear_t P [] t = Some t"
| "linear_t P ((gi, vi) # gv) t = do {
     t' \<leftarrow> big_Mod (t * big_Exp (big_SetBytes gi) vi P) P;
     linear_t P gv t' }"

fun linear_S :: "int \<Rightarrow> int \<Rightarrow> (int \<times> bytes) list \<Rightarrow> bytes list option" where
  "linear_S P_1 c [] = Some []"
| "linear_S P_1 c ((vi, xi) # vx) = do {
     mash \<leftarrow> big_Mod (vi - c * big_SetBytes xi) P_1;
     rest \<leftarrow> linear_S P_1 c vx;
     Some (big_Bytes mash # rest) }"

fun linear_mix :: "int \<Rightarrow> (int \<times> bytes) list \<Rightarrow> int \<Rightarrow> int option" where
  "linear_mix P_1 [] mix = Some mix"
| "linear_mix P_1 ((ai, Si) # as) mix = do {
     aisi \<leftarrow> big_Mod (ai * big_SetBytes Si) P_1;
     mix' \<leftarrow> big_Mod (mix + aisi) P_1;
     linear_mix P_1 as mix' }"

definition GenerateLinearEquationProof ::
  "(bytes \<Rightarrow> bytes) \<Rightarrow> int \<Rightarrow> bytes \<Rightarrow> int \<Rightarrow> int list \<Rightarrow> bytes list \<Rightarrow> bytes list \<Rightarrow>
    ('a) PublicKey_scheme \<Rightarrow> LinearEquationProof option" where
  "GenerateLinearEquationProof sha rmix y b a x g pub =
     (if length x \<noteq> length g \<or> length g \<noteq> length a then Some \<lparr>lp_S = [], lp_T = []\<rparr>
      else do {
        let P_1 = pk_P pub - 1;
        let ssnum = length (filter (\<lambda>ai. ai \<noteq> 0) a);
        rbi \<leftarrow> RandomBigInt (if ssnum = 0 then length a else length a - 1) pub rmix;
        v \<leftarrow> linear_v P_1 a rbi ssnum 0;
        vrf \<leftarrow> linear_vrf P_1 (zip v a) 0;
        t \<leftarrow> linear_t (pk_P pub) (zip g v) 1;
        c \<leftarrow> hash_mod sha pub (concat g @ y @ big_Bytes t);
        S \<leftarrow> linear_S P_1 c (zip v x);
        Some \<lparr>lp_S = S, lp_T = big_Bytes t\<rparr> })"

definition VerifyLinearEquationProof ::
  "(bytes \<Rightarrow> bytes) \<Rightarrow> LinearEquationProof \<Rightarrow> bytes \<Rightarrow> int \<Rightarrow> int list \<Rightarrow> bytes list \<Rightarrow>
    ('a) PublicKey_scheme \<Rightarrow> bool option" where
  "VerifyLinearEquationProof sha lp y b a g pub =
     (if length (lp_S lp) \<noteq> length g \<or> length g \<noteq> length a then Some False
      else do {
        let P_1 = pk_P pub - 1;
        c \<leftarrow> hash_mod sha pub (concat g @ y @ lp_T lp);
        t_verify \<leftarrow> linear_t (pk_P pub) (zip g (map big_SetBytes (lp_S lp)))
          (big_Exp (big_SetBytes y) c (pk_P pub));
        if t_verify \<noteq> big_SetBytes (lp_T lp) then Some False
        else do {
          let cb = - (c * (b mod 2 ^ 64));
          mix \<leftarrow> linear_mix P_1 (zip a (lp_S lp)) 0;
          Some (mix = cb) } })"

section \<open>Equality proofs\<close>

text \<open>
  Two commitments under two keys of the same group hide the same value: a linear-equation proof
  with coefficients \<open>1, -1, 0, 0\<close>. The value of \<open>GenerateEqualityProof\<close> passes through \<open>int64\<close>.
\<close>

definition equality_proof ::
  "(bytes \<Rightarrow> bytes) \<Rightarrow> int \<Rightarrow> ('a) PublicKey_scheme \<Rightarrow> ('a) PublicKey_scheme \<Rightarrow> Commitment \<Rightarrow> Commitment \<Rightarrow>
    int \<Rightarrow> LinearEquationProof option" where
  "equality_proof sha rmix pub1 pub2 C1 C2 V =
     (if pk_P pub1 \<noteq> pk_P pub2 then Some \<lparr>lp_S = [], lp_T = []\<rparr>
      else do {
        Y \<leftarrow> big_Mod (big_SetBytes (cm_Commitment C1) * big_SetBytes (cm_Commitment C2)) (pk_P pub1);
        let g = [big_Bytes (pk_G1 pub1), big_Bytes (pk_G1 pub2),
                 big_Bytes (pk_H pub1), big_Bytes (pk_H pub2)];
        let x = [big_Bytes V, big_Bytes V, cm_R C1, cm_R C2];
        GenerateLinearEquationProof sha rmix (big_Bytes Y) 0 [1, -1, 0, 0] x g pub1 })"

definition GenerateEqualityProof ::
  "(bytes \<Rightarrow> bytes) \<Rightarrow> int \<Rightarrow> ('a) PublicKey_scheme \<Rightarrow> ('a) PublicKey_scheme \<Rightarrow> Commitment \<Rightarrow> Commitment \<Rightarrow>
    u64 \<Rightarrow> LinearEquationProof option" where
  "GenerateEqualityProof sha rmix pub1 pub2 C1 C2 v = equality_proof sha rmix pub1 pub2 C1 C2 (sint v)"

definition GenerateAddressEqualityProof ::
  "(bytes \<Rightarrow> bytes) \<Rightarrow> int \<Rightarrow> ('a) PublicKey_scheme \<Rightarrow> ('a) PublicKey_scheme \<Rightarrow> Commitment \<Rightarrow> Commitment \<Rightarrow>
    bytes \<Rightarrow> LinearEquationProof option" where
  "GenerateAddressEqualityProof sha rmix pub1 pub2 C1 C2 addr =
     equality_proof sha rmix pub1 pub2 C1 C2 (big_SetBytes addr)"

definition VerifyEqualityProof ::
  "(bytes \<Rightarrow> bytes) \<Rightarrow> ('a) PublicKey_scheme \<Rightarrow> ('a) PublicKey_scheme \<Rightarrow> CypherText \<Rightarrow> CypherText \<Rightarrow>
    LinearEquationProof \<Rightarrow> bool option" where
  "VerifyEqualityProof sha pub1 pub2 C1 C2 ep =
     (if pk_P pub1 \<noteq> pk_P pub2 then Some False
      else do {
        Y \<leftarrow> big_Mod (big_SetBytes (ct_C2 C1) * big_SetBytes (ct_C2 C2)) (pk_P pub1);
        let g = [big_Bytes (pk_G1 pub1), big_Bytes (pk_G1 pub2),
                 big_Bytes (pk_H pub1), big_Bytes (pk_H pub2)];
        VerifyLinearEquationProof sha ep (big_Bytes Y) 0 [1, -1, 0, 0] g pub1 })"

section \<open>Library of lemmas\<close>

lemma hash_mod_Some:
  "0 < pk_P pub \<Longrightarrow> hash_mod sha pub bs = Some (big_SetBytes (sha bs) mod pk_P pub)"
  by (simp add: hash_mod_def big_Mod_def)

lemma response_eq: "1 < P \<Longrightarrow> response (P - 1) a w c = Some ((a - w * c) mod (P - 1))"
proof -
  assume "1 < P"
  moreover have "(a + (P - 1 - w * c mod (P - 1))) mod (P - 1) = (a - w * c) mod (P - 1)"
    by (metis (no_types, opaque_lifting) add_diff_eq  diff_add_eq mod_add_self2 mod_diff_right_eq)
  ultimately show ?thesis by (simp add: response_def big_Mod_def)
qed

text \<open>The response cancels the challenge in the exponent of a unit.\<close>

lemma unit_response:
  assumes "is_prime P" and "\<not> P dvd g" and "0 \<le> a" and "0 \<le> w" and "0 \<le> c"
  shows "g ^ nat ((a - w * c) mod (P - 1)) * (g ^ nat w) ^ nat c mod P = g ^ nat a mod P"
proof -
  have P: "0 < P - 1" using is_prime_gt_1 [OF assms(1)] by simp
  then have z: "0 \<le> (a - w * c) mod (P - 1)" by simp
  have "g ^ nat ((a - w * c) mod (P - 1)) * (g ^ nat w) ^ nat c =
      g ^ nat ((a - w * c) mod (P - 1) + w * c)"
    using z assms by (simp add: nat_add_distrib nat_mult_distrib power_add power_mult)
  also have "\<dots> mod P = g ^ nat a mod P"
    using z assms by (intro power_mod_exponent) (simp_all add: mod_simps)
  finally show ?thesis .
qed

text \<open>Two such bases at once: what both verifiers recompute.\<close>

lemma commit_response:
  assumes key: "good_key pub" and nn: "0 \<le> a" "0 \<le> b" "0 \<le> v" "0 \<le> r" "0 \<le> c"
  defines "P \<equiv> pk_P pub"
  shows "pk_G1 pub ^ nat ((a - v * c) mod (P - 1)) * pk_H pub ^ nat ((b - r * c) mod (P - 1)) *
      (pk_G1 pub ^ nat v * pk_H pub ^ nat r) ^ nat c mod P =
    pk_G1 pub ^ nat a * pk_H pub ^ nat b mod P"
proof -
  let ?g = "pk_G1 pub" and ?h = "pk_H pub"
  have g: "?g ^ nat ((a - v * c) mod (P - 1)) * (?g ^ nat v) ^ nat c mod P = ?g ^ nat a mod P"
    and h: "?h ^ nat ((b - r * c) mod (P - 1)) * (?h ^ nat r) ^ nat c mod P = ?h ^ nat b mod P"
    using key nn by (auto simp: good_key_def P_def intro!: unit_response)
  have "?g ^ nat ((a - v * c) mod (P - 1)) * ?h ^ nat ((b - r * c) mod (P - 1)) *
        (?g ^ nat v * ?h ^ nat r) ^ nat c =
      (?g ^ nat ((a - v * c) mod (P - 1)) * (?g ^ nat v) ^ nat c) *
      (?h ^ nat ((b - r * c) mod (P - 1)) * (?h ^ nat r) ^ nat c)"
    by (simp add: power_mult_distrib ac_simps)
  then show ?thesis by (simp only:) (rule mod_mult_cong [OF g h])
qed

lemma EncryptValue_eq:
  assumes "good_key pub" and "0 \<le> draw 0" and "draw 0 < pk_P pub - 4"
    and "v \<le> 262144" and "uint v < pk_P pub"
  shows "EncryptValue pub draw v = Some (Inr
    (\<lparr>ct_C1 = big_Bytes (pk_G2 pub ^ nat (draw 0 + 2) mod pk_P pub),
      ct_C2 = big_Bytes (pk_G1 pub ^ nat (uint v) * pk_H pub ^ nat (draw 0 + 2) mod pk_P pub)\<rparr>,
     \<lparr>cm_Commitment = big_Bytes (pk_G1 pub ^ nat (uint v) * pk_H pub ^ nat (draw 0 + 2) mod pk_P pub),
      cm_R = big_Bytes (draw 0 + 2)\<rparr>))"
proof -
  have k: "pick_coprime draw (pk_P pub) 0 = Some (draw 0 + 2)"
    using assms by (intro pick_coprime_first) (auto simp: good_key_def)
  have P: "0 < pk_P pub" using good_key_P [OF assms(1)] by simp
  have r: "be_val (big_Bytes (draw 0 + 2)) = nat (draw 0 + 2)"
    using assms(2) by (simp add: big_Bytes_def)
  show ?thesis
    using assms k P
    by (simp add: EncryptValue_def Commit_eq r big_Exp_def Let_def not_less)
qed

text \<open>The order in which the verifiers multiply and reduce does not matter.\<close>

lemma verify_products:
  fixes P :: int
  shows "((x mod P) ^ n mod P * (a mod P)) mod P * (b mod P) mod P = a * b * x ^ n mod P"
    and "(x mod P) ^ n mod P * (a mod P) mod P = a * x ^ n mod P"
    and "(a * x ^ n mod P) * (b mod P) mod P = a * b * x ^ n mod P"
    and "((a mod P) * (b mod P) mod P) * ((x mod P) ^ n mod P) mod P = a * b * x ^ n mod P"
  by (simp_all only: mod_simps) (simp_all only: ac_simps)

lemma VerifyFormatProof_eq:
  assumes "0 < pk_P pub" and "0 \<le> c" and "0 \<le> z1" and "0 \<le> z2"
  shows "VerifyFormatProof sha \<lparr>ct_C1 = big_Bytes (y mod pk_P pub), ct_C2 = big_Bytes (x mod pk_P pub)\<rparr> pub
      \<lparr>fp_C = big_Bytes c, fp_Z1 = big_Bytes z1, fp_Z2 = big_Bytes z2\<rparr> =
    Some (c = big_SetBytes (sha (
      big_Bytes (pk_G1 pub ^ nat z1 * pk_H pub ^ nat z2 * x ^ nat c mod pk_P pub) @
      big_Bytes (pk_G2 pub ^ nat z2 * y ^ nat c mod pk_P pub))) mod pk_P pub)"
proof -
  have "\<bar>x mod pk_P pub\<bar> = x mod pk_P pub" "\<bar>y mod pk_P pub\<bar> = y mod pk_P pub" "\<bar>pk_P pub\<bar> = pk_P pub"
    using assms(1) by simp_all
  then show ?thesis
    using assms unfolding VerifyFormatProof_def Let_def
    by (simp only: big_Mod_def big_Exp_def big_SetBytes_Bytes CypherText.simps FormatProof.simps
        abs_of_nonneg hash_mod_Some if_False Option.bind.simps verify_products less_imp_neq [symmetric])
qed

section \<open>Completeness of the format proof\<close>

text \<open>
  C24: The format proof generated with the randomness of an encrypted value is accepted for that
  ciphertext: \<open>EncryptValue\<close>, \<open>GenerateFormatProof\<close> and \<open>VerifyFormatProof\<close> fit together, for
  every hash function and every draw, and none of them panics.
\<close>

theorem VerifyFormatProof_complete:
  assumes key: "good_key pub" and draw: "0 \<le> draw 0" "draw 0 < pk_P pub - 4"
    and v: "v \<le> 262144" "uint v < pk_P pub" and rnd: "0 \<le> randA" "0 \<le> randB"
  shows "\<exists>C cm fp. EncryptValue pub draw v = Some (Inr (C, cm)) \<and>
    GenerateFormatProof sha pub randA randB v (cm_R cm) = Some fp \<and>
    VerifyFormatProof sha C pub fp = Some True"
proof -
  let ?P = "pk_P pub" and ?k = "draw 0 + 2"
  define c where "c = big_SetBytes (sha (big_Bytes (pk_G1 pub ^ nat (randA + 2) * pk_H pub ^ nat (randB + 2) mod ?P)
    @ big_Bytes (pk_G2 pub ^ nat (randB + 2) mod ?P))) mod ?P"
  have P: "1 < ?P" by (rule good_key_P [OF key])
  have c: "0 \<le> c" using P by (simp add: c_def)
  have t1: "pk_G1 pub ^ nat ((randA + 2 - uint v * c) mod (?P - 1)) * pk_H pub ^ nat ((randB + 2 - ?k * c) mod (?P - 1)) *
      (pk_G1 pub ^ nat (uint v) * pk_H pub ^ nat ?k) ^ nat c mod ?P =
    pk_G1 pub ^ nat (randA + 2) * pk_H pub ^ nat (randB + 2) mod ?P"
    using rnd draw c by (intro commit_response [OF key]) auto
  have t2: "pk_G2 pub ^ nat ((randB + 2 - ?k * c) mod (?P - 1)) * (pk_G2 pub ^ nat ?k) ^ nat c mod ?P =
      pk_G2 pub ^ nat (randB + 2) mod ?P"
    using key rnd draw c by (intro unit_response) (auto simp: good_key_def)
  have z: "0 \<le> z mod (?P - 1)" for z using P by simp
  have fp: "GenerateFormatProof sha pub randA randB v (big_Bytes ?k) = Some
      \<lparr>fp_C = big_Bytes c, fp_Z1 = big_Bytes ((randA + 2 - uint v * c) mod (?P - 1)),
       fp_Z2 = big_Bytes ((randB + 2 - ?k * c) mod (?P - 1))\<rparr>"
    using P draw by (simp add: GenerateFormatProof_def go_defs hash_mod_Some response_eq c_def mod_simps Let_def)
  let ?z1 = "(randA + 2 - uint v * c) mod (?P - 1)" and ?z2 = "(randB + 2 - ?k * c) mod (?P - 1)"
  let ?cm = "pk_G1 pub ^ nat (uint v) * pk_H pub ^ nat ?k mod ?P"
  have "VerifyFormatProof sha \<lparr>ct_C1 = big_Bytes (pk_G2 pub ^ nat ?k mod ?P), ct_C2 = big_Bytes ?cm\<rparr> pub
      \<lparr>fp_C = big_Bytes c, fp_Z1 = big_Bytes ?z1, fp_Z2 = big_Bytes ?z2\<rparr> = Some True"
    using P c z by (simp only: VerifyFormatProof_eq t1 t2 less_trans [OF zero_less_one P]) (simp add: c_def)
  then show ?thesis
    unfolding EncryptValue_eq [of pub draw v, OF key draw v] using fp by simp
qed

theorem VerifyFormatProof_complete_witness:
  "good_key ex_key \<and> (\<exists>C cm fp. EncryptValue ex_key (\<lambda>_. 4) 3 = Some (Inr (C, cm)) \<and>
    GenerateFormatProof (\<lambda>b. b) ex_key 5 6 3 (cm_R cm) = Some fp \<and>
    VerifyFormatProof (\<lambda>b. b) C ex_key fp = Some True)"
proof -
  have "\<exists>C cm fp. EncryptValue ex_key (\<lambda>_. 4) 3 = Some (Inr (C, cm)) \<and>
    GenerateFormatProof (\<lambda>b. b) ex_key 5 6 3 (cm_R cm) = Some fp \<and>
    VerifyFormatProof (\<lambda>b. b) C ex_key fp = Some True"
    by (rule VerifyFormatProof_complete) simp_all
  then show ?thesis by simp
qed

section \<open>Correctness of the balance proof\<close>

lemma is_prime_mod_cancel:
  assumes "is_prime p" and "\<not> p dvd a" and "a * x mod p = a * y mod p"
  shows "x mod p = y mod p"
proof -
  have "p dvd a * (x - y)" using assms(3) by (simp add: mod_eq_dvd_iff right_diff_distrib)
  then have "p dvd x - y" using is_prime_dvd_mult [OF assms(1)] assms(2) by auto
  then show ?thesis by (simp add: mod_eq_dvd_iff)
qed

lemma balance_t_eq:
  assumes "0 < pk_P pub"
  shows "balance_t pub (X mod pk_P pub) c x y =
    Some (pk_G1 pub ^ nat x * pk_H pub ^ nat y * X ^ nat c mod pk_P pub)"
proof -
  have "\<bar>pk_P pub\<bar> = pk_P pub" "pk_P pub \<noteq> 0" using assms by simp_all
  then show ?thesis unfolding balance_t_def Let_def
    by (simp only: big_Mod_def big_Exp_def if_False Option.bind.simps verify_products)
qed

lemma balance_t_unreduced:
  assumes "0 < pk_P pub"
  shows "balance_t pub X c x y = Some (pk_G1 pub ^ nat x * pk_H pub ^ nat y * X ^ nat c mod pk_P pub)"
proof -
  have "balance_t pub X c x y = balance_t pub (X mod pk_P pub) c x y"
    using assms by (simp add: balance_t_def big_Exp_def power_mod)
  with balance_t_eq [OF assms] show ?thesis by simp
qed

lemma exponent_sum:
  assumes key: "good_key pub" and "0 \<le> a" "0 \<le> d" "0 \<le> v" "0 \<le> w" "0 \<le> c" "0 \<le> f" "0 \<le> r"
  defines "P \<equiv> pk_P pub"
  shows "pk_G1 pub ^ nat ((a - v * c) mod (P - 1) + (d - w * c) mod (P - 1)) *
      pk_H pub ^ nat ((f - r * c) mod (P - 1)) * (pk_G1 pub ^ nat (v + w) * pk_H pub ^ nat r) ^ nat c mod P =
    pk_G1 pub ^ nat ((a + d) mod (P - 1)) * pk_H pub ^ nat f mod P"
proof -
  let ?g = "pk_G1 pub"
  have p: "is_prime P" "\<not> P dvd ?g" using key by (simp_all add: good_key_def P_def)
  have P: "0 < P - 1" using is_prime_gt_1 [OF p(1)] by simp
  have nn: "0 \<le> z mod (P - 1)" for z using P by simp
  have e: "((a - v * c) mod (P - 1) + (d - w * c) mod (P - 1)) mod (P - 1) =
      ((a + d - (v + w) * c) mod (P - 1)) mod (P - 1)"
    by (simp only: mod_add_eq mod_mod_trivial) (simp add: algebra_simps)
  have 1: "?g ^ nat ((a - v * c) mod (P - 1) + (d - w * c) mod (P - 1)) mod P =
      ?g ^ nat ((a + d - (v + w) * c) mod (P - 1)) mod P"
    using nn by (intro power_mod_exponent [OF p e]) simp_all
  have 2: "?g ^ nat ((a + d) mod (P - 1)) mod P = ?g ^ nat (a + d) mod P"
    using nn assms(2,3) by (intro power_mod_exponent [OF p]) simp_all
  have 3: "?g ^ nat ((a + d - (v + w) * c) mod (P - 1)) * pk_H pub ^ nat ((f - r * c) mod (P - 1)) *
      (?g ^ nat (v + w) * pk_H pub ^ nat r) ^ nat c mod P = ?g ^ nat (a + d) * pk_H pub ^ nat f mod P"
    unfolding P_def using assms by (intro commit_response [OF key]) simp_all
  show ?thesis
    using mod_mult_cong [OF mod_mult_cong [OF 1 refl] refl] mod_mult_cong [OF 2 refl] 3 by metis
qed

lemma GenerateBalanceProof_eq:
  assumes "4 < pk_P pub"
  obtains a b d e f c where "0 \<le> a" "0 \<le> b" "0 \<le> d" "0 \<le> e" "0 \<le> f" "0 \<le> c"
    and "c = big_SetBytes (sha (
      (big_Bytes (pk_G1 pub ^ nat a * pk_H pub ^ nat b mod pk_P pub) @
       big_Bytes (pk_G1 pub ^ nat d * pk_H pub ^ nat e mod pk_P pub)) @
       big_Bytes (pk_G1 pub ^ nat ((a + d) mod (pk_P pub - 1)) * pk_H pub ^ nat f mod pk_P pub))) mod pk_P pub"
    and "GenerateBalanceProof sha pub mix vR vS vO rR rS rO = Some
      \<lparr>bp_C = big_Bytes c,
       bp_R_v = big_Bytes ((a - uint vR * c) mod (pk_P pub - 1)),
       bp_R_r = big_Bytes ((b - big_SetBytes rR * c) mod (pk_P pub - 1)),
       bp_S_v = big_Bytes ((d - uint vS * c) mod (pk_P pub - 1)),
       bp_S_r = big_Bytes ((e - big_SetBytes rS * c) mod (pk_P pub - 1)),
       bp_S_or = big_Bytes ((f - big_SetBytes rO * c) mod (pk_P pub - 1))\<rparr>"
proof -
  have exps: "\<bar>pk_P pub\<bar> = pk_P pub" "pk_P pub \<noteq> 0" "\<bar>pk_P pub - 4\<bar> = pk_P pub - 4"
    "pk_P pub - 4 \<noteq> 0" "1 < pk_P pub" "0 < pk_P pub" "\<bar>pk_P pub - 1\<bar> = pk_P pub - 1" "pk_P pub - 1 \<noteq> 0"
    using assms by simp_all
  have nn: "0 \<le> z mod (pk_P pub - 4) + 2" for z using assms by (simp add: add_nonneg_nonneg)
  have c: "0 \<le> z mod pk_P pub" for z using assms by simp
  show ?thesis
    by (rule that [OF nn nn nn nn nn c refl])
      (simp only: GenerateBalanceProof_def Let_def big_Mod_def big_Div_def big_Exp_def exps
        if_False Option.bind.simps hash_mod_Some response_eq mod_mult_eq)
qed

text \<open>
  C8: The balance proof of a transfer is accepted for the commitments to the returned amount \<open>vR\<close>,
  the spent amount \<open>vS\<close> and their sum, for every hash function and every random number. The
  original amount \<open>vO\<close> that the prover is given has no influence: the proof is about the sum.
\<close>

theorem VerifyBalanceProof_complete:
  assumes key: "good_key pub" and P: "4 < pk_P pub" and v: "uint vR + uint vS < pk_P pub"
    and cR: "Commit pub (uint vR) rR = Some cR" and cS: "Commit pub (uint vS) rS = Some cS"
    and cO: "Commit pub (uint vR + uint vS) rO = Some cO"
  shows "\<exists>bp. GenerateBalanceProof sha pub mix vR vS vO rR rS rO = Some bp \<and>
    VerifyBalanceProof sha (cm_Commitment cR) (cm_Commitment cS) (cm_Commitment cO) pub bp = Some True"
proof -
  let ?P = "pk_P pub"
  obtain a b d e f c where nn: "0 \<le> a" "0 \<le> b" "0 \<le> d" "0 \<le> e" "0 \<le> f" "0 \<le> c"
    and c: "c = big_SetBytes (sha (
      (big_Bytes (pk_G1 pub ^ nat a * pk_H pub ^ nat b mod ?P) @
       big_Bytes (pk_G1 pub ^ nat d * pk_H pub ^ nat e mod ?P)) @
       big_Bytes (pk_G1 pub ^ nat ((a + d) mod (?P - 1)) * pk_H pub ^ nat f mod ?P))) mod ?P"
    and bp: "GenerateBalanceProof sha pub mix vR vS vO rR rS rO = Some
      \<lparr>bp_C = big_Bytes c,
       bp_R_v = big_Bytes ((a - uint vR * c) mod (?P - 1)),
       bp_R_r = big_Bytes ((b - big_SetBytes rR * c) mod (?P - 1)),
       bp_S_v = big_Bytes ((d - uint vS * c) mod (?P - 1)),
       bp_S_r = big_Bytes ((e - big_SetBytes rS * c) mod (?P - 1)),
       bp_S_or = big_Bytes ((f - big_SetBytes rO * c) mod (?P - 1))\<rparr>"
    by (rule GenerateBalanceProof_eq [OF P])
  have P0: "0 < ?P" using P by simp
  have mods: "\<bar>z mod (?P - 1)\<bar> = z mod (?P - 1)" "\<bar>z mod ?P\<bar> = z mod ?P" "\<bar>c\<bar> = c" for z
    using P nn by simp_all
  have com: "cm = \<lparr>cm_Commitment = big_Bytes (pk_G1 pub ^ nat w * pk_H pub ^ nat (big_SetBytes r) mod ?P),
      cm_R = big_Bytes (int (be_val r))\<rparr>"
    if "Commit pub w r = Some cm" "0 \<le> w" "w < ?P" for w r cm
    using that P0 by (simp add: Commit_eq big_SetBytes_def)
  have t: "pk_G1 pub ^ nat ((x - v * c) mod (?P - 1)) * pk_H pub ^ nat ((y - big_SetBytes r * c) mod (?P - 1)) *
      (pk_G1 pub ^ nat v * pk_H pub ^ nat (big_SetBytes r)) ^ nat c mod ?P =
    pk_G1 pub ^ nat x * pk_H pub ^ nat y mod ?P" if "0 \<le> x" "0 \<le> y" "0 \<le> v" for x y v r
    using that nn by (intro commit_response [OF key]) auto
  have v': "uint vR < ?P" "uint vS < ?P" using v by (smt (verit) uint_nonnegative)+
  have t3: "pk_G1 pub ^ nat ((a - uint vR * c) mod (?P - 1) + (d - uint vS * c) mod (?P - 1)) *
      pk_H pub ^ nat ((f - big_SetBytes rO * c) mod (?P - 1)) *
      (pk_G1 pub ^ nat (uint vR + uint vS) * pk_H pub ^ nat (big_SetBytes rO)) ^ nat c mod ?P =
    pk_G1 pub ^ nat ((a + d) mod (?P - 1)) * pk_H pub ^ nat f mod ?P"
    using nn by (intro exponent_sum [OF key]) auto
  note coms = com [OF cR uint_nonnegative v'(1)] com [OF cS uint_nonnegative v'(2)]
    com [OF cO add_nonneg_nonneg [OF uint_nonnegative uint_nonnegative] v]
  let ?bp = "\<lparr>bp_C = big_Bytes c,
       bp_R_v = big_Bytes ((a - uint vR * c) mod (?P - 1)),
       bp_R_r = big_Bytes ((b - big_SetBytes rR * c) mod (?P - 1)),
       bp_S_v = big_Bytes ((d - uint vS * c) mod (?P - 1)),
       bp_S_r = big_Bytes ((e - big_SetBytes rS * c) mod (?P - 1)),
       bp_S_or = big_Bytes ((f - big_SetBytes rO * c) mod (?P - 1))\<rparr>"
  have "VerifyBalanceProof sha (cm_Commitment cR) (cm_Commitment cS) (cm_Commitment cO) pub ?bp = Some True"
    unfolding VerifyBalanceProof_def balance_ts_def Let_def coms
    by (simp only: Commitment.simps BalanceProof.simps big_SetBytes_Bytes mods balance_t_eq [OF P0]
        Option.bind.simps prod.case hash_mod_Some [OF P0] t nn uint_nonnegative t3 option.inject eqTrueI [OF c])
  then show ?thesis using bp by blast
qed

theorem VerifyBalanceProof_complete_witness:
  "good_key ex_key \<and> (\<exists>cR cS cO bp. Commit ex_key (uint (3 :: u64)) [2] = Some cR \<and>
    Commit ex_key (uint (4 :: u64)) [5] = Some cS \<and>
    Commit ex_key (uint (3 :: u64) + uint (4 :: u64)) [9] = Some cO \<and>
    GenerateBalanceProof (\<lambda>b. b) ex_key 77 3 4 7 [2] [5] [9] = Some bp \<and>
    VerifyBalanceProof (\<lambda>b. b) (cm_Commitment cR) (cm_Commitment cS) (cm_Commitment cO) ex_key bp = Some True)"
proof -
  obtain cR cS cO where c: "Commit ex_key (uint (3 :: u64)) [2] = Some cR"
    "Commit ex_key (uint (4 :: u64)) [5] = Some cS"
    "Commit ex_key (uint (3 :: u64) + uint (4 :: u64)) [9] = Some cO"
    by (simp add: Commit_eq)
  have "\<exists>bp. GenerateBalanceProof (\<lambda>b. b) ex_key 77 3 4 7 [2] [5] [9] = Some bp \<and>
    VerifyBalanceProof (\<lambda>b. b) (cm_Commitment cR) (cm_Commitment cS) (cm_Commitment cO) ex_key bp = Some True"
    by (rule VerifyBalanceProof_complete [OF _ _ _ c]) simp_all
  with c show ?thesis by auto
qed

text \<open>
  C10: Special soundness of the balance proof. If two proofs for the same three commitments lead
  the verifier to the same first messages, then the value parts cancel: the commitments satisfy
  the balance equation up to powers of \<open>H\<close> alone, with exponents read off the two proofs.
\<close>

theorem VerifyBalanceProof_special_sound:
  assumes key: "good_key pub"
    and ts: "balance_ts CM_r CM_s CM_o pub bp = balance_ts CM_r CM_s CM_o pub bp'"
  defines "c \<equiv> nat (big_SetBytes (bp_C bp))" and "c' \<equiv> nat (big_SetBytes (bp_C bp'))"
    and "k \<equiv> (\<lambda>p q. nat (big_SetBytes (bp_R_r p)) + nat (big_SetBytes (bp_S_r p)) + nat (big_SetBytes (bp_S_or q)))"
  shows "(big_SetBytes CM_r * big_SetBytes CM_s) ^ c * big_SetBytes CM_o ^ c' * pk_H pub ^ k bp bp' mod pk_P pub =
         (big_SetBytes CM_r * big_SetBytes CM_s) ^ c' * big_SetBytes CM_o ^ c * pk_H pub ^ k bp' bp mod pk_P pub"
proof -
  let ?P = "pk_P pub" and ?g = "pk_G1 pub" and ?h = "pk_H pub"
  let ?n = "\<lambda>b. nat (big_SetBytes b)"
  have prime: "is_prime ?P" and g: "\<not> ?P dvd ?g" and P: "0 < ?P"
    using key good_key_P [OF key] by (simp_all add: good_key_def)
  have eqs: "?g ^ ?n (bp_R_v bp) * ?h ^ ?n (bp_R_r bp) * big_SetBytes CM_r ^ c mod ?P =
        ?g ^ ?n (bp_R_v bp') * ?h ^ ?n (bp_R_r bp') * big_SetBytes CM_r ^ c' mod ?P"
      "?g ^ ?n (bp_S_v bp) * ?h ^ ?n (bp_S_r bp) * big_SetBytes CM_s ^ c mod ?P =
        ?g ^ ?n (bp_S_v bp') * ?h ^ ?n (bp_S_r bp') * big_SetBytes CM_s ^ c' mod ?P"
      "?g ^ (?n (bp_R_v bp) + ?n (bp_S_v bp)) * ?h ^ ?n (bp_S_or bp) * big_SetBytes CM_o ^ c mod ?P =
        ?g ^ (?n (bp_R_v bp') + ?n (bp_S_v bp')) * ?h ^ ?n (bp_S_or bp') * big_SetBytes CM_o ^ c' mod ?P"
    using ts by (simp_all add: balance_ts_def balance_t_unreduced [OF P] c_def c'_def nat_add_distrib Let_def)
  let ?G = "?g ^ (?n (bp_R_v bp) + ?n (bp_S_v bp)) * ?g ^ (?n (bp_R_v bp') + ?n (bp_S_v bp'))"
  have "?G * ((big_SetBytes CM_r * big_SetBytes CM_s) ^ c * big_SetBytes CM_o ^ c' * ?h ^ k bp bp') mod ?P =
        ?G * ((big_SetBytes CM_r * big_SetBytes CM_s) ^ c' * big_SetBytes CM_o ^ c * ?h ^ k bp' bp) mod ?P"
    using mod_mult_cong [OF mod_mult_cong [OF eqs(1,2)] eqs(3) [symmetric]]
    by (simp add: k_def power_add power_mult_distrib ac_simps)
  moreover have "\<not> ?P dvd ?G"
    using prime g by (intro is_prime_not_dvd_mult is_prime_not_dvd_power)
  ultimately show ?thesis by (rule is_prime_mod_cancel [OF prime, rotated])
qed

theorem VerifyBalanceProof_special_sound_witness:
  "let bp = \<lparr>bp_C = [1], bp_R_v = [], bp_R_r = [], bp_S_v = [], bp_S_r = [], bp_S_or = []\<rparr>;
       bp' = \<lparr>bp_C = [], bp_R_v = [1], bp_R_r = [], bp_S_v = [1], bp_S_r = [], bp_S_or = []\<rparr>
   in balance_ts [5] [5] [2] ex_key bp = balance_ts [5] [5] [2] ex_key bp' \<and>
      (big_SetBytes [5] * big_SetBytes [5]) ^ 1 * big_SetBytes [2] ^ 0 * pk_H ex_key ^ 0 mod pk_P ex_key =
      (big_SetBytes [5] * big_SetBytes [5]) ^ 0 * big_SetBytes [2] ^ 1 * pk_H ex_key ^ 0 mod pk_P ex_key"
proof -
  let ?bp = "\<lparr>bp_C = [1], bp_R_v = [], bp_R_r = [], bp_S_v = [], bp_S_r = [], bp_S_or = []\<rparr> :: BalanceProof"
  let ?bp' = "\<lparr>bp_C = [], bp_R_v = [1], bp_R_r = [], bp_S_v = [1], bp_S_r = [], bp_S_or = []\<rparr> :: BalanceProof"
  have v1: "big_SetBytes [1] = 1" by (simp add: big_SetBytes_def be_val_Cons)
  have ts: "balance_ts [5] [5] [2] ex_key ?bp = balance_ts [5] [5] [2] ex_key ?bp'"
    by (simp add: balance_ts_def balance_t_unreduced Let_def v1) (simp add: big_SetBytes_def be_val_Cons)
  show ?thesis
    using ts VerifyBalanceProof_special_sound [OF ex_good_key ts] by (simp only: Let_def BalanceProof.simps v1) simp
qed

section \<open>Correctness of the linear-equation proof\<close>

text \<open>The digits drawn by \<open>RandomBigInt\<close>.\<close>

lemma RandomBigInt_loop_eq:
  assumes "0 < limit"
  shows "RandomBigInt_loop limit mix n = Some (map (\<lambda>i. mix div limit ^ i mod limit + 2) [0..<n])"
proof (induction n arbitrary: mix)
  case (Suc k)
  have div: "big_Div mix limit = Some (mix div limit)"
    using assms by (simp add: big_Div_def minus_mod_eq_mult_div)
  have shift: "map (\<lambda>i. mix div limit ^ i mod limit + 2) [0..<Suc k] =
      (mix mod limit + 2) # map (\<lambda>i. mix div limit div limit ^ i mod limit + 2) [0..<k]"
    using assms by (simp add: upt_rec [of 0 "Suc k"] map_Suc_upt [symmetric] comp_def
        zdiv_zmult2_eq [symmetric] del: upt_Suc)
  show ?case
    unfolding shift using assms by (cases "k = 0") (simp_all add: big_Mod_def div Suc.IH)
qed simp

lemma RandomBigInt_ok:
  assumes "4 < pk_P pub"
  shows "\<exists>rbi. RandomBigInt n pub mix = Some rbi \<and> length rbi = n \<and> (\<forall>r \<in> set rbi. 0 \<le> r)"
proof -
  have "0 < pk_P pub - 4" using assms by simp
  note eq = RandomBigInt_loop_eq [OF this, of mix n]
  have "0 \<le> mix div (pk_P pub - 4) ^ i mod (pk_P pub - 4) + 2" for i
    using pos_mod_sign [of "pk_P pub - 4" "mix div (pk_P pub - 4) ^ i"] assms by linarith
  then show ?thesis unfolding RandomBigInt_def eq by simp
qed

lemma linear_v_sum:
  assumes P: "1 < P_1" and "\<forall>ai \<in> set a. ai \<noteq> 0 \<longrightarrow> gcd ai P_1 = 1" and "\<forall>r \<in> set rbi. 0 \<le> r"
    and "(if filter (\<lambda>ai. ai \<noteq> 0) a = [] then length a else length a - 1) \<le> length rbi"
  shows "\<exists>v. linear_v P_1 a rbi (length (filter (\<lambda>ai. ai \<noteq> 0) a)) lst = Some v \<and> length v = length a \<and>
    (\<forall>vi \<in> set v. 0 \<le> vi) \<and>
    sum_list (map2 (*) a v) mod P_1 = (if filter (\<lambda>ai. ai \<noteq> 0) a = [] then 0 else lst mod P_1)"
  using assms(2-)
proof (induction a arbitrary: rbi lst)
  case (Cons ai a)
  let ?nz = "filter (\<lambda>ai. ai \<noteq> 0)"
  have IH: "\<exists>v. linear_v P_1 a rbi' (length (?nz a)) lst' = Some v \<and> length v = length a \<and>
      (\<forall>vi \<in> set v. 0 \<le> vi) \<and> sum_list (map2 (*) a v) mod P_1 = (if ?nz a = [] then 0 else lst' mod P_1)"
    if "\<forall>r \<in> set rbi'. 0 \<le> r" "(if ?nz a = [] then length a else length a - 1) \<le> length rbi'" for rbi' lst'
    using Cons.prems(1) that by (intro Cons.IH) auto
  consider (zero) "ai = 0" | (final) "ai \<noteq> 0" "?nz a = []" | (free) "ai \<noteq> 0" "?nz a \<noteq> []" by auto
  then show ?case
  proof cases
    case zero
    then obtain r rbi' where r: "rbi = r # rbi'"
      using Cons.prems(3) by (cases rbi; cases a) (auto split: if_splits)
    have "(if ?nz a = [] then length a else length a - 1) \<le> length rbi'"
      using zero r Cons.prems(3) by (auto split: if_splits)
    moreover have "\<forall>r \<in> set rbi'. 0 \<le> r" using r Cons.prems(2) by simp
    ultimately obtain v where "linear_v P_1 a rbi' (length (?nz a)) lst = Some v" "length v = length a"
        "\<forall>vi \<in> set v. 0 \<le> vi" "sum_list (map2 (*) a v) mod P_1 = (if ?nz a = [] then 0 else lst mod P_1)"
      using IH [of rbi' lst] by blast
    with zero r Cons.prems show ?thesis by (intro exI [of _ "r # v"]) auto
  next
    case final
    have "gcd ai P_1 = 1" using Cons.prems(1) final by simp
    from big_ModInverse_Some [OF this P]
    obtain i where i: "big_ModInverse ai P_1 = Some i" "ai * i mod P_1 = 1" by auto
    have "ai * (lst * i mod P_1) mod P_1 = lst * (ai * i mod P_1) mod P_1"
      by (simp add: mod_simps ac_simps)
    then have "ai * (lst * i mod P_1) mod P_1 = lst mod P_1" using i(2) by simp
    then show ?thesis
      using final i(1) P Cons.prems IH [of rbi lst] by (auto simp: big_Mod_def mod_add_eq [symmetric])
  next
    case free
    then obtain r rbi' where r: "rbi = r # rbi'"
      using Cons.prems(3) by (cases rbi; cases a) auto
    have lst: "(ai * r + (lst - ai * r) mod P_1) mod P_1 = lst mod P_1" by (simp add: mod_simps)
    have "(if ?nz a = [] then length a else length a - 1) \<le> length rbi'"
      using free r Cons.prems(3) by (auto split: if_splits)
    moreover have "\<forall>r \<in> set rbi'. 0 \<le> r" using r Cons.prems(2) by simp
    ultimately obtain v where v: "linear_v P_1 a rbi' (length (?nz a)) ((lst - ai * r) mod P_1) = Some v"
        "length v = length a" "\<forall>vi \<in> set v. 0 \<le> vi" "sum_list (map2 (*) a v) mod P_1 = (lst - ai * r) mod P_1"
      using IH [of rbi' "(lst - ai * r) mod P_1"] free by auto
    have "(ai * r + sum_list (map2 (*) a v)) mod P_1 = lst mod P_1"
      using lst v(4) by (metis mod_add_right_eq)
    with free r P v Cons.prems show ?thesis by (intro exI [of _ "r # v"]) (simp add: big_Mod_def)
  qed
qed simp

lemma linear_vrf_Some: "P_1 \<noteq> 0 \<Longrightarrow> \<exists>x. linear_vrf P_1 va vrf = Some x"
  by (induction P_1 va vrf rule: linear_vrf.induct) (auto simp: big_Mod_def)

lemma linear_t_eq:
  assumes "0 < P" and "0 \<le> t" and "t < P"
  shows "linear_t P gv t = Some (t * prod_list (map (\<lambda>(gi, vi). big_SetBytes gi ^ nat vi) gv) mod P)"
  using assms
proof (induction P gv t rule: linear_t.induct)
  case (2 P gi vi gv t)
  have "linear_t P gv (t * (big_SetBytes gi ^ nat vi mod P) mod P) =
      Some ((t * (big_SetBytes gi ^ nat vi mod P) mod P) * prod_list (map (\<lambda>(gi, vi). big_SetBytes gi ^ nat vi) gv) mod P)"
    using 2(2-) by (intro 2(1)) (simp_all add: go_defs)
  with 2(2-) show ?case by (simp add: big_Mod_def big_Exp_def mod_simps mult.assoc)
qed simp

lemma linear_S_eq:
  "0 < P_1 \<Longrightarrow> linear_S P_1 c vx = Some (map (\<lambda>(vi, xi). big_Bytes ((vi - big_SetBytes xi * c) mod P_1)) vx)"
  by (induction P_1 c vx rule: linear_S.induct) (simp_all add: big_Mod_def mult.commute)

lemma linear_mix_eq:
  "0 < P_1 \<Longrightarrow> 0 \<le> mix \<Longrightarrow> mix < P_1 \<Longrightarrow>
    linear_mix P_1 as mix = Some ((mix + sum_list (map (\<lambda>(ai, Si). ai * big_SetBytes Si) as)) mod P_1)"
  by (induction P_1 as mix rule: linear_mix.induct) (simp_all add: big_Mod_def mod_simps add.assoc)

text \<open>The responses cancel the challenge in the whole product, and in the whole sum.\<close>

lemma linear_response_prod:
  assumes prime: "is_prime P" and c: "0 \<le> c" and "length v = length g" and "length x = length g"
    and "\<forall>gi \<in> set g. \<not> P dvd gi" and "\<forall>vi \<in> set v. 0 \<le> vi" and "\<forall>xi \<in> set x. 0 \<le> xi"
  shows "prod_list (map2 (\<lambda>gi z. gi ^ nat z) g (map2 (\<lambda>vi xi. (vi - xi * c) mod (P - 1)) v x)) *
      prod_list (map2 (\<lambda>gi xi. gi ^ nat xi) g x) ^ nat c mod P =
    prod_list (map2 (\<lambda>gi vi. gi ^ nat vi) g v) mod P"
  using assms(3-)
proof (induction g arbitrary: v x)
  case (Cons gi g)
  then obtain vi v' xi x' where vx: "v = vi # v'" "x = xi # x'" by (auto simp: length_Suc_conv)
  have "gi ^ nat ((vi - xi * c) mod (P - 1)) * (gi ^ nat xi) ^ nat c mod P = gi ^ nat vi mod P"
    using Cons.prems vx c by (intro unit_response [OF prime]) auto
  from mod_mult_cong [OF this Cons.IH [of v' x']] Cons.prems vx show ?case
    by (simp add: power_mult_distrib ac_simps)
qed simp

lemma linear_response_sum:
  fixes c P_1 :: int
  assumes "length v = length a" and "length x = length a"
  shows "sum_list (map2 (*) a (map2 (\<lambda>vi xi. (vi - xi * c) mod P_1) v x)) mod P_1 =
    (sum_list (map2 (*) a v) - sum_list (map2 (*) a x) * c) mod P_1"
  using assms
proof (induction a arbitrary: v x)
  case (Cons ai a)
  then obtain vi v' xi x' where vx: "v = vi # v'" "x = xi # x'" by (auto simp: length_Suc_conv)
  have IH: "sum_list (map2 (*) a (map2 (\<lambda>vi xi. (vi - xi * c) mod P_1) v' x')) mod P_1 =
      (sum_list (map2 (*) a v') - sum_list (map2 (*) a x') * c) mod P_1"
    using Cons.prems vx by (intro Cons.IH) auto
  have "(ai * ((vi - xi * c) mod P_1) + sum_list (map2 (*) a (map2 (\<lambda>vi xi. (vi - xi * c) mod P_1) v' x'))) mod P_1 =
      (ai * (vi - xi * c) + (sum_list (map2 (*) a v') - sum_list (map2 (*) a x') * c)) mod P_1"
    by (rule mod_add_cong [OF mod_mult_right_eq IH])
  then show ?case by (simp add: vx algebra_simps)
qed simp

lemma prod_SetBytes:
  "prod_list (map (\<lambda>(gi, z). big_SetBytes gi ^ nat z) (zip g zs)) =
   prod_list (map2 (\<lambda>gi z. gi ^ nat z) (map big_SetBytes g) zs)"
  by (simp add: zip_map1 case_prod_unfold comp_def)

text \<open>What the verifier computes from the responses \<open>big_Bytes z\<close>.\<close>

lemma VerifyLinearEquationProof_eq:
  assumes P: "1 < pk_P pub" and len: "length zs = length g" "length g = length a" and zs: "\<forall>z \<in> set zs. 0 \<le> z"
    and t: "0 \<le> t" and c: "c = big_SetBytes (sha (concat g @ y @ big_Bytes t)) mod pk_P pub"
  shows "VerifyLinearEquationProof sha \<lparr>lp_S = map big_Bytes zs, lp_T = big_Bytes t\<rparr> y b a g pub =
    Some (big_SetBytes y ^ nat c * prod_list (map2 (\<lambda>gi z. gi ^ nat z) (map big_SetBytes g) zs) mod pk_P pub = t \<and>
      sum_list (map2 (*) a zs) mod (pk_P pub - 1) = - (c * (b mod 2 ^ 64)))"
proof -
  have S: "map (big_SetBytes \<circ> big_Bytes) zs = zs" using zs by (simp add: map_idI)
  have hash: "hash_mod sha pub (concat g @ y @ big_Bytes t) = Some c" using P c by (simp add: hash_mod_Some)
  have sum: "sum_list (map (\<lambda>(ai, Si). ai * big_SetBytes Si) (zip a (map big_Bytes zs))) = sum_list (map2 (*) a zs)"
    using zs by (auto simp: zip_map2 case_prod_unfold comp_def abs_of_nonneg
        intro!: arg_cong [where f = sum_list] dest!: set_zip_rightD)
  have exp: "big_Exp (big_SetBytes y) c (pk_P pub) = big_SetBytes y ^ nat c mod pk_P pub"
    using P by (simp add: big_Exp_def)
  have t': "linear_t (pk_P pub) (zip g zs) (big_SetBytes y ^ nat c mod pk_P pub) =
      Some (big_SetBytes y ^ nat c * prod_list (map2 (\<lambda>gi z. gi ^ nat z) (map big_SetBytes g) zs) mod pk_P pub)"
    using P by (subst linear_t_eq) (simp_all add: prod_SetBytes mod_simps)
  show ?thesis
    using P len t unfolding VerifyLinearEquationProof_def Let_def
    by (simp add: hash S exp t' linear_mix_eq sum)
qed

lemma linear_proof_complete:
  assumes prime: "is_prime (pk_P pub)" and P: "4 < pk_P pub"
    and len: "length x = length g" "length g = length a"
    and units: "\<forall>gi \<in> set g. \<not> pk_P pub dvd big_SetBytes gi"
    and coeffs: "\<forall>ai \<in> set a. ai \<noteq> 0 \<longrightarrow> gcd ai (pk_P pub - 1) = 1"
    and y: "big_SetBytes y mod pk_P pub =
      prod_list (map2 (\<lambda>gi xi. big_SetBytes gi ^ nat (big_SetBytes xi)) g x) mod pk_P pub"
    and eqn: "sum_list (map2 (\<lambda>ai xi. ai * big_SetBytes xi) a x) mod (pk_P pub - 1) = 0"
  shows "\<exists>lp. GenerateLinearEquationProof sha rmix y 0 a x g pub = Some lp \<and>
    VerifyLinearEquationProof sha lp y 0 a g pub = Some True"
proof -
  let ?P = "pk_P pub" and ?nz = "filter (\<lambda>ai. ai \<noteq> 0) a"
  let ?g = "map big_SetBytes g" and ?x = "map big_SetBytes x"
  obtain rbi where rbi: "RandomBigInt (if length ?nz = 0 then length a else length a - 1) pub rmix = Some rbi"
      "length rbi = (if length ?nz = 0 then length a else length a - 1)" "\<forall>r \<in> set rbi. 0 \<le> r"
    using RandomBigInt_ok [OF P] by blast
  have P1: "1 < ?P - 1" using P by simp
  obtain v where v: "linear_v (?P - 1) a rbi (length ?nz) 0 = Some v" "length v = length a"
      "\<forall>vi \<in> set v. 0 \<le> vi" "sum_list (map2 (*) a v) mod (?P - 1) = 0"
    using linear_v_sum [OF P1 coeffs rbi(3), of 0] rbi(2) by auto
  obtain vrf where vrf: "linear_vrf (?P - 1) (zip v a) 0 = Some vrf"
    using linear_vrf_Some [of "?P - 1"] P1 by auto
  define t where "t = prod_list (map2 (\<lambda>gi vi. gi ^ nat vi) ?g v) mod ?P"
  have t: "linear_t ?P (zip g v) 1 = Some t"
    using P by (simp add: linear_t_eq prod_SetBytes t_def)
  define c where "c = big_SetBytes (sha (concat g @ y @ big_Bytes t)) mod ?P"
  define zs where "zs = map2 (\<lambda>vi xi. (vi - xi * c) mod (?P - 1)) v ?x"
  have S: "linear_S (?P - 1) c (zip v x) = Some (map big_Bytes zs)"
    using P by (simp add: linear_S_eq zs_def zip_map2 case_prod_unfold comp_def)
  have gen: "GenerateLinearEquationProof sha rmix y 0 a x g pub = Some \<lparr>lp_S = map big_Bytes zs, lp_T = big_Bytes t\<rparr>"
    using len rbi(1) v(1) vrf t S P by (simp add: GenerateLinearEquationProof_def hash_mod_Some c_def)
  have t0: "0 \<le> t" using P by (simp add: t_def)
  have c0: "0 \<le> c" using P by (simp add: c_def)
  have zs: "length zs = length g" "\<forall>z \<in> set zs. 0 \<le> z" using v(2) len P by (auto simp: zs_def)
  have y': "big_SetBytes y mod ?P = prod_list (map2 (\<lambda>gi xi. gi ^ nat xi) ?g ?x) mod ?P"
    using y by (simp add: zip_map1 zip_map2 case_prod_unfold comp_def)
  have "big_SetBytes y ^ nat c mod ?P = prod_list (map2 (\<lambda>gi xi. gi ^ nat xi) ?g ?x) ^ nat c mod ?P"
    by (subst (1 2) power_mod [symmetric]) (simp only: y')
  note mod_mult_cong [OF refl this, of "prod_list (map2 (\<lambda>gi z. gi ^ nat z) ?g zs)"]
  then have "big_SetBytes y ^ nat c * prod_list (map2 (\<lambda>gi z. gi ^ nat z) ?g zs) mod ?P =
      prod_list (map2 (\<lambda>gi z. gi ^ nat z) ?g zs) * prod_list (map2 (\<lambda>gi xi. gi ^ nat xi) ?g ?x) ^ nat c mod ?P"
    by (simp only: mult.commute)
  also have "\<dots> = t"
    unfolding zs_def t_def using v len units c0 by (intro linear_response_prod [OF prime]) auto
  finally have prod: "big_SetBytes y ^ nat c * prod_list (map2 (\<lambda>gi z. gi ^ nat z) ?g zs) mod ?P = t" .
  have "sum_list (map2 (*) a zs) mod (?P - 1) =
      (sum_list (map2 (*) a v) - sum_list (map2 (*) a ?x) * c) mod (?P - 1)"
    unfolding zs_def using v(2) len by (intro linear_response_sum) auto
  also have "\<dots> = 0"
    using v(4) eqn by (simp add: zip_map2 case_prod_unfold comp_def mod_eq_0_iff_dvd dvd_diff dvd_mult2)
  finally have sum: "sum_list (map2 (*) a zs) mod (?P - 1) = 0" .
  have "VerifyLinearEquationProof sha \<lparr>lp_S = map big_Bytes zs, lp_T = big_Bytes t\<rparr> y 0 a g pub = Some True"
    using P VerifyLinearEquationProof_eq [of pub zs g a t c sha y 0, OF _ zs(1) len(2) zs(2) t0 c_def]
    by (simp add: prod sum)
  with gen show ?thesis by blast
qed

text \<open>
  C35: A linear-equation proof with \<open>b = 0\<close> is accepted: if \<open>y\<close> is the product of the bases to the
  secret exponents \<open>x\<close>, the exponents satisfy \<open>\<Sum> a x = 0\<close> modulo \<open>P - 1\<close> and every non-zero
  coefficient has an inverse there, then \<open>VerifyLinearEquationProof\<close> accepts what
  \<open>GenerateLinearEquationProof\<close> returns; neither panics.
\<close>

theorem VerifyLinearEquationProof_complete:
  assumes prime: "is_prime (pk_P pub)" and P: "4 < pk_P pub"
    and len: "length x = length g" "length g = length a"
    and units: "\<forall>gi \<in> set g. \<not> pk_P pub dvd big_SetBytes gi"
    and coeffs: "\<forall>ai \<in> set a. ai \<noteq> 0 \<longrightarrow> gcd ai (pk_P pub - 1) = 1"
    and y: "big_SetBytes y mod pk_P pub =
      prod_list (map2 (\<lambda>gi xi. big_SetBytes gi ^ nat (big_SetBytes xi)) g x) mod pk_P pub"
    and eqn: "sum_list (map2 (\<lambda>ai xi. ai * big_SetBytes xi) a x) mod (pk_P pub - 1) = 0"
  shows "\<exists>lp. GenerateLinearEquationProof sha rmix y 0 a x g pub = Some lp \<and>
    VerifyLinearEquationProof sha lp y 0 a g pub = Some True"
  by (rule linear_proof_complete [OF assms])

theorem VerifyLinearEquationProof_complete_witness:
  "is_prime (pk_P ex_key) \<and> (\<exists>lp. GenerateLinearEquationProof (\<lambda>b. b) 3 [2] 0 [1, -1] [[1], [1]] [[5], [5]] ex_key = Some lp \<and>
    VerifyLinearEquationProof (\<lambda>b. b) lp [2] 0 [1, -1] [[5], [5]] ex_key = Some True)"
proof -
  have 5: "big_SetBytes [5] = 5" "big_SetBytes [1] = 1" "big_SetBytes [2] = 2"
    by (simp_all add: big_SetBytes_def be_val_Cons)
  have "\<exists>lp. GenerateLinearEquationProof (\<lambda>b. b) 3 [2] 0 [1, -1] [[1], [1]] [[5], [5]] ex_key = Some lp \<and>
    VerifyLinearEquationProof (\<lambda>b. b) lp [2] 0 [1, -1] [[5], [5]] ex_key = Some True"
    by (rule VerifyLinearEquationProof_complete) (simp_all add: 5)
  then show ?thesis by simp
qed

text \<open>
  C36: A linear-equation proof with a right-hand side \<open>b\<close> that is not 0 as a 64-bit number is never
  accepted, unless the challenge happens to be 0: the verifier compares a residue, which is not
  negative, with the unreduced product \<open>- c * b\<close>.
\<close>

theorem VerifyLinearEquationProof_nonzero_b:
  assumes P: "1 < pk_P pub" and b: "b mod 2 ^ 64 \<noteq> 0"
    and acc: "VerifyLinearEquationProof sha lp y b a g pub = Some True"
  shows "pk_P pub dvd big_SetBytes (sha (concat g @ y @ lp_T lp))"
proof -
  define c where "c = big_SetBytes (sha (concat g @ y @ lp_T lp)) mod pk_P pub"
  have "0 < pk_P pub - 1" using P by simp
  note mix = linear_mix_eq [OF this, of 0 "zip a (lp_S lp)"]
  let ?m = "sum_list (map (\<lambda>(ai, Si). ai * big_SetBytes Si) (zip a (lp_S lp))) mod (pk_P pub - 1)"
  have "?m = - (c * (b mod 2 ^ 64))"
    using acc P mix unfolding VerifyLinearEquationProof_def Let_def
    by (auto simp: hash_mod_Some c_def split: if_splits)
  moreover have "0 \<le> ?m" using P by simp
  moreover have "0 < b mod 2 ^ 64" using b by (simp add: order_less_le)
  moreover have "0 \<le> c" using P by (simp add: c_def)
  ultimately have "c = 0" by (smt (verit) mult_pos_pos)
  then show ?thesis by (simp add: c_def dvd_eq_mod_eq_0)
qed

theorem VerifyLinearEquationProof_nonzero_b_witness:
  "VerifyLinearEquationProof (\<lambda>_. []) \<lparr>lp_S = [[]], lp_T = [1]\<rparr> [1] 7 [1] [[5]] ex_key = Some True \<and>
   (7 :: int) mod 2 ^ 64 \<noteq> 0 \<and> pk_P ex_key dvd big_SetBytes []"
proof -
  have "VerifyLinearEquationProof (\<lambda>_. []) \<lparr>lp_S = [[]], lp_T = [1]\<rparr> [1] 7 [1] [[5]] ex_key = Some True"
    by (simp add: VerifyLinearEquationProof_def hash_mod_def go_defs big_SetBytes_def be_val_Cons)
  with VerifyLinearEquationProof_nonzero_b [OF _ _ this] show ?thesis by simp
qed

text \<open>
  C37: \<open>RandomBigInt\<close> returns one exponent per index, the base-\<open>limit\<close> digit of \<open>mix\<close> plus two; since
  \<open>mix\<close> is drawn below \<open>limit**5\<close>, every exponent from the sixth on is the constant 2.
\<close>

theorem RandomBigInt_digits:
  assumes "4 < pk_P pub" and "0 \<le> mix" and "mix < (pk_P pub - 4) ^ 5"
  shows "\<exists>rbi. RandomBigInt n pub mix = Some rbi \<and> length rbi = n \<and>
    (\<forall>i < n. rbi ! i = mix div (pk_P pub - 4) ^ i mod (pk_P pub - 4) + 2) \<and>
    (\<forall>i < n. 5 \<le> i \<longrightarrow> rbi ! i = 2)"
proof -
  have zero: "mix div (pk_P pub - 4) ^ i = 0" if "5 \<le> i" for i
  proof (rule div_pos_pos_trivial [OF assms(2)])
    show "mix < (pk_P pub - 4) ^ i"
      using assms(1,3) that power_increasing [of 5 i "pk_P pub - 4"] by simp
  qed
  show ?thesis
    using assms(1) by (simp add: RandomBigInt_def RandomBigInt_loop_eq zero)
qed

theorem RandomBigInt_digits_witness:
  "\<exists>rbi. RandomBigInt 6 ex_key 20 = Some rbi \<and> length rbi = 6 \<and> rbi ! 0 = 3 \<and> rbi ! 5 = 2"
  using RandomBigInt_digits [of ex_key 20 6] by auto

section \<open>Correctness of the equality proof\<close>

text \<open>
  C25: Two ciphertexts of the same value under two keys over the same prime pass
  \<open>VerifyEqualityProof\<close> with the proof of \<open>GenerateEqualityProof\<close> made from the commitments and
  their randomness.
\<close>

theorem VerifyEqualityProof_complete:
  assumes keys: "good_key pub1" "good_key pub2" "pk_P pub1 = pk_P pub2" and P: "4 < pk_P pub1"
    and pos: "0 \<le> pk_G1 pub1" "0 \<le> pk_G1 pub2" "0 \<le> pk_H pub1" "0 \<le> pk_H pub2"
    and draws: "0 \<le> draw1 0" "draw1 0 < pk_P pub1 - 4" "0 \<le> draw2 0" "draw2 0 < pk_P pub1 - 4"
    and v: "v \<le> 262144" "uint v < pk_P pub1"
  shows "\<exists>C1 cm1 C2 cm2 ep. EncryptValue pub1 draw1 v = Some (Inr (C1, cm1)) \<and>
    EncryptValue pub2 draw2 v = Some (Inr (C2, cm2)) \<and>
    GenerateEqualityProof sha rmix pub1 pub2 cm1 cm2 v = Some ep \<and>
    VerifyEqualityProof sha pub1 pub2 C1 C2 ep = Some True"
proof -
  let ?P = "pk_P pub1" and ?k1 = "draw1 0 + 2" and ?k2 = "draw2 0 + 2"
  let ?c1 = "pk_G1 pub1 ^ nat (uint v) * pk_H pub1 ^ nat ?k1"
  let ?c2 = "pk_G1 pub2 ^ nat (uint v) * pk_H pub2 ^ nat ?k2"
  let ?g = "[big_Bytes (pk_G1 pub1), big_Bytes (pk_G1 pub2), big_Bytes (pk_H pub1), big_Bytes (pk_H pub2)]"
  let ?x = "[big_Bytes (uint v), big_Bytes (uint v), big_Bytes ?k1, big_Bytes ?k2]"
  let ?y = "big_Bytes (?c1 * ?c2 mod ?P)"
  have prime: "is_prime ?P" using keys(1) by (simp add: good_key_def)
  have "uint v \<le> uint (262144 :: u64)" using v(1) by (simp only: word_le_def)
  then have sv: "sint v = uint v"
    by (simp add: sint_uint signed_take_bit_int_eq_self order_trans [of _ 0])
  obtain lp where lp: "GenerateLinearEquationProof sha rmix ?y 0 [1, -1, 0, 0] ?x ?g pub1 = Some lp"
      "VerifyLinearEquationProof sha lp ?y 0 [1, -1, 0, 0] ?g pub1 = Some True"
    using linear_proof_complete [OF prime P, of ?x ?g "[1, -1, 0, 0]" ?y sha rmix]
      keys P pos draws by (auto simp: good_key_def ac_simps)
  show ?thesis
    using lp P draws v keys
    by (simp add: EncryptValue_eq GenerateEqualityProof_def VerifyEqualityProof_def equality_proof_def sv
        big_Mod_def Let_def mod_simps)
qed

theorem VerifyEqualityProof_complete_witness:
  "let pub2 = ex_key\<lparr>pk_G1 := 7, pk_H := 2\<rparr> in
   good_key ex_key \<and> good_key pub2 \<and>
   (\<exists>C1 cm1 C2 cm2 ep. EncryptValue ex_key (\<lambda>_. 4) 3 = Some (Inr (C1, cm1)) \<and>
    EncryptValue pub2 (\<lambda>_. 9) 3 = Some (Inr (C2, cm2)) \<and>
    GenerateEqualityProof (\<lambda>b. b) 8 ex_key pub2 cm1 cm2 3 = Some ep \<and>
    VerifyEqualityProof (\<lambda>b. b) ex_key pub2 C1 C2 ep = Some True)"
proof -
  let ?pub2 = "ex_key\<lparr>pk_G1 := 7, pk_H := 2\<rparr>"
  have key2: "good_key ?pub2" by (simp add: good_key_def)
  have "\<exists>C1 cm1 C2 cm2 ep. EncryptValue ex_key (\<lambda>_. 4) 3 = Some (Inr (C1, cm1)) \<and>
    EncryptValue ?pub2 (\<lambda>_. 9) 3 = Some (Inr (C2, cm2)) \<and>
    GenerateEqualityProof (\<lambda>b. b) 8 ex_key ?pub2 cm1 cm2 3 = Some ep \<and>
    VerifyEqualityProof (\<lambda>b. b) ex_key ?pub2 C1 C2 ep = Some True"
    by (rule VerifyEqualityProof_complete [OF ex_good_key key2]) simp_all
  with key2 show ?thesis by simp
qed

end
