(* ===== verification/Rlp_Encode.thy ===== *)
theory Rlp_Encode
  imports Go_Big
begin

text \<open>
  The encoder of \<open>rlp/encode.go\<close>. \<open>rlp_val\<close> is a Go value together with the writer that
  \<open>makeWriter\<close> selects for its type; \<open>encbuf\<close> collects the string data and, apart from it, the
  list headers, whose sizes are known only when a list is closed; \<open>toBytes\<close> and \<open>toWriter\<close> merge
  the two. The theory shows that the result is the textbook recursive encoding \<open>rlp_enc\<close>, and that
  the buffer allocated by \<open>toBytes\<close> has exactly the right size. \<open>None\<close> is a run-time panic. Types
  with their own \<open>EncodeRLP\<close> method are not covered. Go's \<open>len\<close> is \<open>length\<close>; sizes are \<open>int\<close>.
\<close>

section \<open>Headers\<close>

text \<open>\<open>putint\<close>: the bytes it stores, whose number it returns.\<close>

definition putint :: "u64 \<Rightarrow> bytes" where
  "putint i =
     (if i < 2 ^ 8 then [ucast i]
      else if i < 2 ^ 16 then [ucast (drop_bit 8 i), ucast i]
      else if i < 2 ^ 24 then [ucast (drop_bit 16 i), ucast (drop_bit 8 i), ucast i]
      else if i < 2 ^ 32 then
        [ucast (drop_bit 24 i), ucast (drop_bit 16 i), ucast (drop_bit 8 i), ucast i]
      else if i < 2 ^ 40 then
        [ucast (drop_bit 32 i), ucast (drop_bit 24 i), ucast (drop_bit 16 i), ucast (drop_bit 8 i),
         ucast i]
      else if i < 2 ^ 48 then
        [ucast (drop_bit 40 i), ucast (drop_bit 32 i), ucast (drop_bit 24 i), ucast (drop_bit 16 i),
         ucast (drop_bit 8 i), ucast i]
      else if i < 2 ^ 56 then
        [ucast (drop_bit 48 i), ucast (drop_bit 40 i), ucast (drop_bit 32 i), ucast (drop_bit 24 i),
         ucast (drop_bit 16 i), ucast (drop_bit 8 i), ucast i]
      else
        [ucast (drop_bit 56 i), ucast (drop_bit 48 i), ucast (drop_bit 40 i), ucast (drop_bit 32 i),
         ucast (drop_bit 24 i), ucast (drop_bit 16 i), ucast (drop_bit 8 i), ucast i])"

function intsize :: "u64 \<Rightarrow> nat" where
  "intsize i = (if drop_bit 8 i = 0 then 1 else Suc (intsize (drop_bit 8 i)))"
  by pat_completeness auto
termination
proof (relation "measure unat")
  fix i :: u64
  assume "drop_bit 8 i \<noteq> 0"
  then have "unat i \<noteq> 0" by (auto simp: unat_eq_zero)
  then show "(drop_bit 8 i, i) \<in> measure unat" by (simp add: unat_drop_bit_eq) (simp add: drop_bit_eq_div)
qed simp

declare intsize.simps [simp del]

definition headsize :: "u64 \<Rightarrow> nat" where
  "headsize sz = (if sz < 56 then 1 else 1 + intsize sz)"

text \<open>\<open>puthead\<close> stores a header at the front of a slice, and panics when the slice is too short.\<close>

definition puthead :: "bytes \<Rightarrow> u8 \<Rightarrow> u8 \<Rightarrow> u64 \<Rightarrow> (bytes \<times> nat) option" where
  "puthead buf smalltag largetag sz =
     (if sz < 56 then
        (if buf = [] then None else Some (buf[0 := smalltag + ucast sz], 1))
      else
        let s = putint sz in
        if length buf < Suc (length s) then None
        else Some ((largetag + of_nat (length s)) # s @ drop (Suc (length s)) buf, Suc (length s)))"

section \<open>The buffer\<close>

record listhead =
  lh_offset :: nat
  lh_size :: int

record encbuf =
  eb_str :: bytes
  eb_lheads :: "listhead list"
  eb_lhsize :: int

definition encbuf_reset :: "encbuf \<Rightarrow> encbuf" where
  "encbuf_reset w = w\<lparr>eb_lhsize := 0, eb_str := [], eb_lheads := []\<rparr>"

definition encbuf_Write :: "bytes \<Rightarrow> encbuf \<Rightarrow> encbuf" where
  "encbuf_Write b w = w\<lparr>eb_str := eb_str w @ b\<rparr>"

definition encodeStringHeader :: "nat \<Rightarrow> encbuf \<Rightarrow> encbuf" where
  "encodeStringHeader sz w =
     (if sz < 56 then encbuf_Write [0x80 + of_nat sz] w
      else let s = putint (of_nat sz) in encbuf_Write ((0xB7 + of_nat (length s)) # s) w)"

definition encodeString :: "bytes \<Rightarrow> encbuf \<Rightarrow> encbuf" where
  "encodeString b w =
     (if length b = 1 \<and> b ! 0 \<le> 0x7F then encbuf_Write [b ! 0] w
      else encbuf_Write b (encodeStringHeader (length b) w))"

definition encbuf_size :: "encbuf \<Rightarrow> int" where
  "encbuf_size w = int (length (eb_str w)) + eb_lhsize w"

text \<open>\<open>list\<close> returns a pointer to the new header: its index in \<open>lheads\<close>.\<close>

definition list_start :: "encbuf \<Rightarrow> nat \<times> encbuf" where
  "list_start w =
     (length (eb_lheads w),
      w\<lparr>eb_lheads := eb_lheads w @ [\<lparr>lh_offset = length (eb_str w), lh_size = eb_lhsize w\<rparr>]\<rparr>)"

definition listEnd :: "nat \<Rightarrow> encbuf \<Rightarrow> encbuf" where
  "listEnd p w =
     (let lh = eb_lheads w ! p;
          sz = encbuf_size w - int (lh_offset lh) - lh_size lh;
          w1 = w\<lparr>eb_lheads := (eb_lheads w)[p := lh\<lparr>lh_size := sz\<rparr>]\<rparr>
      in if sz < 56 then w1\<lparr>eb_lhsize := eb_lhsize w + 1\<rparr>
         else w1\<lparr>eb_lhsize := eb_lhsize w + (1 + int (intsize (word_of_int sz)))\<rparr>)"

section \<open>Writers\<close>

datatype Kind = Byte | String | List

datatype rlp_error =
  ErrExpectedString | ErrExpectedList | ErrCanonInt | ErrCanonSize | ErrElemTooLarge
| ErrValueTooLarge | ErrMoreThanOneValue | errNotInList | errNotAtEOL | errUintOverflow
| EOL | EOF | ErrUnexpectedEOF | ErrNegativeBigInt | ErrInvalidBool | ErrStringTooLong
| ErrStringTooShort | ErrTooFewElements | ErrWrongKindOfEmpty

text \<open>
  One constructor per writer: \<open>writeRawValue\<close>, \<open>writeUint\<close>, \<open>writeBool\<close>, \<open>writeBigIntPtr\<close> and
  \<open>writeBigIntNoPtr\<close>, \<open>writeBytes\<close>, \<open>writeByteArray\<close>, \<open>writeString\<close>, \<open>writeInterface\<close>, the
  writers of slices (with the \<open>tail\<close> tag), structs and pointers (with the kind of a nil).
\<close>

datatype rlp_val =
  VRaw bytes
| VUint u64
| VBool bool
| VBigPtr "int option"
| VBig int
| VBytes bytes
| VByteArray bytes
| VString bytes
| VInterface "rlp_val option"
| VSlice bool "rlp_val list"
| VStruct "rlp_val list"
| VPtr Kind "rlp_val option"

definition writeRawValue :: "bytes \<Rightarrow> encbuf \<Rightarrow> encbuf" where
  "writeRawValue b w = encbuf_Write b w"

definition writeUint :: "u64 \<Rightarrow> encbuf \<Rightarrow> encbuf" where
  "writeUint i w =
     (if i = 0 then encbuf_Write [0x80] w
      else if i < 128 then encbuf_Write [ucast i] w
      else let s = putint i in encbuf_Write ((0x80 + of_nat (length s)) # s) w)"

definition writeBool :: "bool \<Rightarrow> encbuf \<Rightarrow> encbuf" where
  "writeBool b w = (if b then encbuf_Write [0x01] w else encbuf_Write [0x80] w)"

definition writeBigInt :: "int \<Rightarrow> encbuf \<Rightarrow> rlp_error + encbuf" where
  "writeBigInt i w =
     (if i < 0 then Inl ErrNegativeBigInt
      else if i = 0 then Inr (encbuf_Write [0x80] w)
      else Inr (encodeString (big_Bytes i) w))"

definition writeBigIntPtr :: "int option \<Rightarrow> encbuf \<Rightarrow> rlp_error + encbuf" where
  "writeBigIntPtr p w =
     (case p of None \<Rightarrow> Inr (encbuf_Write [0x80] w) | Some i \<Rightarrow> writeBigInt i w)"

definition writeString :: "bytes \<Rightarrow> encbuf \<Rightarrow> encbuf" where
  "writeString s w =
     (if length s = 1 \<and> s ! 0 \<le> 0x7F then encbuf_Write [s ! 0] w
      else encbuf_Write s (encodeStringHeader (length s) w))"

fun write_val :: "rlp_val \<Rightarrow> encbuf \<Rightarrow> rlp_error + encbuf"
  and write_all :: "rlp_val list \<Rightarrow> encbuf \<Rightarrow> rlp_error + encbuf" where
  "write_val (VRaw b) w = Inr (writeRawValue b w)"
| "write_val (VUint i) w = Inr (writeUint i w)"
| "write_val (VBool b) w = Inr (writeBool b w)"
| "write_val (VBigPtr p) w = writeBigIntPtr p w"
| "write_val (VBig i) w = writeBigInt i w"
| "write_val (VBytes b) w = Inr (encodeString b w)"
| "write_val (VByteArray b) w = Inr (encodeString b w)"
| "write_val (VString s) w = Inr (writeString s w)"
| "write_val (VInterface None) w = Inr (encbuf_Write [0xC0] w)"
| "write_val (VInterface (Some v)) w = write_val v w"
| "write_val (VSlice tail vs) w =
     (if tail then write_all vs w
      else let (p, w1) = list_start w in
        (case write_all vs w1 of Inl e \<Rightarrow> Inl e | Inr w2 \<Rightarrow> Inr (listEnd p w2)))"
| "write_val (VStruct vs) w =
     (let (p, w1) = list_start w in
        (case write_all vs w1 of Inl e \<Rightarrow> Inl e | Inr w2 \<Rightarrow> Inr (listEnd p w2)))"
| "write_val (VPtr nilKind None) w =
     (if nilKind = String then Inr (encbuf_Write [0x80] w)
      else let (p, w1) = list_start w in Inr (listEnd p w1))"
| "write_val (VPtr nilKind (Some v)) w = write_val v w"
| "write_all [] w = Inr w"
| "write_all (v # vs) w = (case write_val v w of Inl e \<Rightarrow> Inl e | Inr w1 \<Rightarrow> write_all vs w1)"

section \<open>Output\<close>

text \<open>\<^verbatim>\<open>copy(out[pos:], src)\<close>: the new \<open>out\<close> and the number of bytes copied.\<close>

definition copy_at :: "bytes \<Rightarrow> nat \<Rightarrow> bytes \<Rightarrow> bytes \<times> nat" where
  "copy_at out pos src =
     (let n = min (length src) (length out - pos) in (take pos out @ take n src @ drop (pos + n) out, n))"

fun toBytes_loop :: "bytes \<Rightarrow> listhead list \<Rightarrow> bytes \<Rightarrow> nat \<Rightarrow> nat \<Rightarrow> bytes option" where
  "toBytes_loop str [] out pos strpos =
     (if length out < pos \<or> length str < strpos then None
      else Some (fst (copy_at out pos (drop strpos str))))"
| "toBytes_loop str (head # heads) out pos strpos =
     (if length out < pos \<or> lh_offset head < strpos \<or> length str < lh_offset head then None
      else
        let (out1, n) = copy_at out pos (take (lh_offset head - strpos) (drop strpos str)) in
        (case puthead (drop (pos + n) out1) 0xC0 0xF7 (word_of_int (lh_size head)) of
           None \<Rightarrow> None
         | Some (buf, k) \<Rightarrow>
             toBytes_loop str heads (take (pos + n) out1 @ buf) (pos + n + k) (strpos + n)))"

definition toBytes :: "encbuf \<Rightarrow> bytes option" where
  "toBytes w =
     (if encbuf_size w < 0 then None
      else toBytes_loop (eb_str w) (eb_lheads w) (replicate (nat (encbuf_size w)) 0) 0 0)"

text \<open>
  \<open>toWriter\<close> over a writer \<open>wr\<close> that reports the number of bytes taken, an error and its new
  state. The header is encoded into the 9-byte \<open>sizebuf\<close>.
\<close>

fun toWriter_loop ::
  "(bytes \<Rightarrow> 's \<Rightarrow> nat \<times> 'e option \<times> 's) \<Rightarrow> bytes \<Rightarrow> listhead list \<Rightarrow> nat \<Rightarrow> 's \<Rightarrow> ('e option \<times> 's) option" where
  "toWriter_loop wr str [] strpos s =
     (if strpos < length str then (let (_, err, s') = wr (drop strpos str) s in Some (err, s'))
      else Some (None, s))"
| "toWriter_loop wr str (head # heads) strpos s =
     (let (strpos1, err, s1) =
        (if strpos < lh_offset head then
           (let (n, err, s') = wr (take (lh_offset head - strpos) (drop strpos str)) s
            in (strpos + n, err, s'))
         else (strpos, None, s)) in
      case err of Some e \<Rightarrow> Some (Some e, s1)
      | None \<Rightarrow>
          (case puthead (replicate 9 0) 0xC0 0xF7 (word_of_int (lh_size head)) of
             None \<Rightarrow> None
           | Some (buf, k) \<Rightarrow>
               (let (_, err2, s2) = wr (take k buf) s1 in
                case err2 of Some e \<Rightarrow> Some (Some e, s2)
                | None \<Rightarrow> toWriter_loop wr str heads strpos1 s2)))"

definition toWriter :: "(bytes \<Rightarrow> 's \<Rightarrow> nat \<times> 'e option \<times> 's) \<Rightarrow> encbuf \<Rightarrow> 's \<Rightarrow> ('e option \<times> 's) option" where
  "toWriter wr w s = toWriter_loop wr (eb_str w) (eb_lheads w) 0 s"

definition EncodeToBytes :: "rlp_val \<Rightarrow> (rlp_error + bytes) option" where
  "EncodeToBytes v =
     (case write_val v \<lparr>eb_str = [], eb_lheads = [], eb_lhsize = 0\<rparr> of
        Inl e \<Rightarrow> Some (Inl e)
      | Inr w \<Rightarrow> map_option Inr (toBytes w))"

section \<open>Reference encoding\<close>

definition rlp_head :: "u8 \<Rightarrow> u8 \<Rightarrow> nat \<Rightarrow> bytes" where
  "rlp_head smalltag largetag n =
     (if n < 56 then [smalltag + of_nat n]
      else (largetag + of_nat (length (be_bytes n))) # be_bytes n)"

definition enc_string :: "bytes \<Rightarrow> bytes" where
  "enc_string b = (if length b = 1 \<and> hd b \<le> 0x7F then b else rlp_head 0x80 0xB7 (length b) @ b)"

definition enc_list :: "bytes \<Rightarrow> bytes" where
  "enc_list payload = rlp_head 0xC0 0xF7 (length payload) @ payload"

text \<open>Integers are the strings of their shortest big-endian representation.\<close>

fun rlp_enc :: "rlp_val \<Rightarrow> bytes" where
  "rlp_enc (VRaw b) = b"
| "rlp_enc (VUint i) = enc_string (be_bytes (unat i))"
| "rlp_enc (VBool b) = enc_string (if b then [1] else [])"
| "rlp_enc (VBigPtr p) = enc_string (case p of None \<Rightarrow> [] | Some i \<Rightarrow> be_bytes (nat i))"
| "rlp_enc (VBig i) = enc_string (be_bytes (nat i))"
| "rlp_enc (VBytes b) = enc_string b"
| "rlp_enc (VByteArray b) = enc_string b"
| "rlp_enc (VString b) = enc_string b"
| "rlp_enc (VInterface None) = enc_list []"
| "rlp_enc (VInterface (Some v)) = rlp_enc v"
| "rlp_enc (VSlice tail vs) = (if tail then id else enc_list) (concat (map rlp_enc vs))"
| "rlp_enc (VStruct vs) = enc_list (concat (map rlp_enc vs))"
| "rlp_enc (VPtr nilKind None) = (if nilKind = String then enc_string [] else enc_list [])"
| "rlp_enc (VPtr nilKind (Some v)) = rlp_enc v"

text \<open>The only values that the writers refuse contain a negative \<open>big.Int\<close>.\<close>

fun encodable :: "rlp_val \<Rightarrow> bool" where
  "encodable (VBigPtr (Some i)) \<longleftrightarrow> 0 \<le> i"
| "encodable (VBig i) \<longleftrightarrow> 0 \<le> i"
| "encodable (VInterface (Some v)) \<longleftrightarrow> encodable v"
| "encodable (VSlice tail vs) \<longleftrightarrow> list_all encodable vs"
| "encodable (VStruct vs) \<longleftrightarrow> list_all encodable vs"
| "encodable (VPtr nilKind (Some v)) \<longleftrightarrow> encodable v"
| "encodable _ \<longleftrightarrow> True"

section \<open>Headers are the reference headers\<close>

lemma be_val_shifts:
  "be_val (map (\<lambda>j. ucast (drop_bit (8 * j) i)) (rev [0..<k])) = unat (i :: u64) mod 256 ^ k"
proof (induction k)
  case (Suc k)
  have "unat (ucast (drop_bit (8 * k) i) :: u8) = unat i div 256 ^ k mod 256"
    by (simp add: unsigned_ucast_eq unat_drop_bit_eq) (simp add: take_bit_eq_mod drop_bit_eq_div power_mult)
  moreover have "unat i mod 256 ^ Suc k = 256 ^ k * (unat i div 256 ^ k mod 256) + unat i mod 256 ^ k"
    by (simp only: power_Suc2 mod_mult2_eq)
  ultimately show ?case
    using Suc by (simp add: be_val_Cons)
qed (simp add: be_val_def)

lemma putint_cases:
  obtains k where "putint i = map (\<lambda>j. ucast (drop_bit (8 * j) i)) (rev [0..<Suc k])"
    and "unat i < 256 ^ Suc k" and "k = 0 \<or> 256 ^ k \<le> unat i"
proof -
  have lt: "i < 2 ^ m \<longleftrightarrow> unat i < 2 ^ m" if "m < 64" for m
    using that unat_of_nat [of "2 ^ m", where ?'a = 64] power_strict_increasing [of m 64 "2 :: nat"]
    by (simp add: word_less_nat_alt)
  note lts = lt [of 8, simplified] lt [of 16, simplified] lt [of 24, simplified] lt [of 32, simplified]
    lt [of 40, simplified] lt [of 48, simplified] lt [of 56, simplified]
  have r: "rev [0..<Suc 0] = [0]" "rev [0..<Suc 1] = [1, 0]" "rev [0..<Suc 2] = [2, 1, 0]"
    "rev [0..<Suc 3] = [3, 2, 1, 0]" "rev [0..<Suc 4] = [4, 3, 2, 1, 0]" "rev [0..<Suc 5] = [5, 4, 3, 2, 1, 0]"
    "rev [0..<Suc 6] = [6, 5, 4, 3, 2, 1, 0]" "rev [0..<Suc 7] = [7, 6, 5, 4, 3, 2, 1, 0]"
    by (simp_all add: upt_rec)
  have top: "unat i < 256 ^ Suc 7"
    using unsigned_less [of i, where ?'a = nat] by simp
  consider "unat i < 2 ^ 8" | "2 ^ 8 \<le> unat i" "unat i < 2 ^ 16" | "2 ^ 16 \<le> unat i" "unat i < 2 ^ 24"
    | "2 ^ 24 \<le> unat i" "unat i < 2 ^ 32" | "2 ^ 32 \<le> unat i" "unat i < 2 ^ 40"
    | "2 ^ 40 \<le> unat i" "unat i < 2 ^ 48" | "2 ^ 48 \<le> unat i" "unat i < 2 ^ 56" | "2 ^ 56 \<le> unat i"
    by linarith
  then show ?thesis
  proof cases
    case 1 then show ?thesis by (intro that [of 0]) (simp_all add: putint_def lts)
  next
    case 2 then show ?thesis by (intro that [of 1]) (simp_all only: r, simp_all add: putint_def lts)
  next
    case 3 then show ?thesis by (intro that [of 2]) (simp_all only: r, simp_all add: putint_def lts)
  next
    case 4 then show ?thesis by (intro that [of 3]) (simp_all only: r, simp_all add: putint_def lts)
  next
    case 5 then show ?thesis by (intro that [of 4]) (simp_all only: r, simp_all add: putint_def lts)
  next
    case 6 then show ?thesis by (intro that [of 5]) (simp_all only: r, simp_all add: putint_def lts)
  next
    case 7 then show ?thesis by (intro that [of 6]) (simp_all only: r, simp_all add: putint_def lts)
  next
    case 8 then show ?thesis using top by (intro that [of 7]) (simp_all only: r, simp_all add: putint_def lts)
  qed
qed

lemma putint_eq: "putint i = (if i = 0 then [0] else be_bytes (unat i))"
proof -
  obtain k where k: "putint i = map (\<lambda>j. ucast (drop_bit (8 * j) i)) (rev [0..<Suc k])"
    "unat i < 256 ^ Suc k" "k = 0 \<or> 256 ^ k \<le> unat i" by (rule putint_cases)
  have val: "be_val (putint i) = unat i" using k by (simp add: be_val_shifts del: upt_Suc)
  show ?thesis
  proof (cases "i = 0")
    case False
    have "hd (putint i) \<noteq> 0"
    proof
      assume 0: "hd (putint i) = 0"
      obtain b bs where bs: "putint i = b # bs" "length bs = k" using k(1) by simp
      with 0 have "unat i < 256 ^ k" using val be_val_lt [of bs] by (simp add: be_val_Cons)
      with k(3) False show False by (auto simp: unat_eq_zero)
    qed
    then have "be_bytes (be_val (putint i)) = putint i" by (intro be_bytes_be_val_id) simp
    with val False show ?thesis by simp
  qed (simp add: putint_def)
qed

lemma length_be_bytes_div: "0 < n \<Longrightarrow> length (be_bytes n) = Suc (length (be_bytes (n div 256)))"
  by (simp add: be_bytes_pos)

lemma intsize_eq: "intsize i = (if i = 0 then 1 else length (be_bytes (unat i)))"
proof (induction i rule: intsize.induct)
  case (1 i)
  have d: "unat (drop_bit 8 i) = unat i div 256"
    by (simp add: unat_drop_bit_eq) (simp add: drop_bit_eq_div)
  show ?case
  proof (cases "drop_bit 8 i = 0")
    case True
    then have "unat i div 256 = 0" using d by simp
    with True show ?thesis
      by (subst intsize.simps) (simp add: length_be_bytes_div unat_gt_0)
  next
    case False
    with 1 have "intsize (drop_bit 8 i) = length (be_bytes (unat i div 256))" by (simp add: d)
    moreover from False have "i \<noteq> 0" by auto
    ultimately show ?thesis
      using False by (subst intsize.simps) (simp add: length_be_bytes_div unat_gt_0)
  qed
qed

lemma length_putint: "length (putint i) = intsize i"
  by (simp add: putint_eq intsize_eq)

lemma of_nat_u64_zero: "n < 2 ^ 64 \<Longrightarrow> (of_nat n :: u64) = 0 \<longleftrightarrow> n = 0"
  using unat_of_nat [of n, where ?'a = 64] by (auto simp: word_unat_eq_iff)

lemma unat_of_nat_u64: "n < 2 ^ 64 \<Longrightarrow> unat (of_nat n :: u64) = n"
  by (simp add: unat_of_nat)

lemma of_nat_u64_less: "n < 2 ^ 64 \<Longrightarrow> m < 2 ^ 64 \<Longrightarrow> (of_nat n :: u64) < of_nat m \<longleftrightarrow> n < m"
  by (simp add: word_less_nat_alt unat_of_nat)

lemma putint_of_nat: "0 < n \<Longrightarrow> n < 2 ^ 64 \<Longrightarrow> putint (of_nat n) = be_bytes n"
  by (simp add: putint_eq of_nat_u64_zero unat_of_nat_u64)

lemma intsize_of_nat: "0 < n \<Longrightarrow> n < 2 ^ 64 \<Longrightarrow> intsize (of_nat n) = length (be_bytes n)"
  by (simp add: intsize_eq of_nat_u64_zero unat_of_nat_u64)

lemma length_rlp_head:
  "length (rlp_head s l n) = (if n < 56 then 1 else Suc (length (be_bytes n)))"
  by (simp add: rlp_head_def)

lemma length_rlp_head_le: "n < 2 ^ 64 \<Longrightarrow> length (rlp_head s l n) \<le> 9"
  by (simp add: rlp_head_def length_be_bytes_le)

lemma headsize_eq: "n < 2 ^ 64 \<Longrightarrow> headsize (of_nat n) = length (rlp_head s l n)"
  using of_nat_u64_less [of n 56] by (simp add: headsize_def length_rlp_head intsize_of_nat)

lemma ucast_of_nat_u8: "n < 2 ^ 64 \<Longrightarrow> (ucast (of_nat n :: u64) :: u8) = of_nat n"
  by (simp add: word_unat_eq_iff unsigned_ucast_eq unat_of_nat take_bit_eq_mod)

text \<open>\<open>puthead\<close> stores the reference header, when there is room for it.\<close>

lemma puthead_eq:
  assumes "n < 2 ^ 64" and "length (rlp_head s l n) \<le> length buf"
  shows "puthead buf s l (of_nat n) =
    Some (rlp_head s l n @ drop (length (rlp_head s l n)) buf, length (rlp_head s l n))"
proof (cases "n < 56")
  case True
  then have "buf \<noteq> []" using assms(2) by (auto simp: length_rlp_head)
  then show ?thesis
    using True assms(1) of_nat_u64_less [of n 56]
    by (cases buf) (auto simp: puthead_def rlp_head_def ucast_of_nat_u8)
next
  case False
  then show ?thesis
    using assms of_nat_u64_less [of n 56] putint_of_nat [of n]
    by (simp add: puthead_def rlp_head_def Let_def)
qed

section \<open>Merging strings and headers\<close>

abbreviation head_bytes :: "listhead \<Rightarrow> bytes" where
  "head_bytes h \<equiv> rlp_head 0xC0 0xF7 (nat (lh_size h))"

text \<open>What a buffer stands for, from position \<open>p\<close> of its string data on.\<close>

fun render :: "bytes \<Rightarrow> listhead list \<Rightarrow> nat \<Rightarrow> bytes" where
  "render str [] p = drop p str"
| "render str (h # hs) p = take (lh_offset h - p) (drop p str) @ head_bytes h @ render str hs (lh_offset h)"

fun heads_ok :: "nat \<Rightarrow> listhead list \<Rightarrow> nat \<Rightarrow> bool" where
  "heads_ok n [] p \<longleftrightarrow> p \<le> n"
| "heads_ok n (h # hs) p \<longleftrightarrow>
     p \<le> lh_offset h \<and> 0 \<le> lh_size h \<and> lh_size h < 2 ^ 64 \<and> heads_ok n hs (lh_offset h)"

lemma heads_ok_le: "heads_ok n hs p \<Longrightarrow> p \<le> n"
  by (induction hs arbitrary: p) force+

lemma length_render:
  "heads_ok (length str) hs p \<Longrightarrow>
    length (render str hs p) = length str - p + sum_list (map (length \<circ> head_bytes) hs)"
proof (induction hs arbitrary: p)
  case (Cons h hs)
  then have "lh_offset h \<le> length str" using heads_ok_le by auto
  with Cons show ?case by simp
qed simp

lemma copy_at_fits:
  assumes "length pre = pos" and "length src \<le> length rest"
  shows "copy_at (pre @ rest) pos src = (pre @ src @ drop (length src) rest, length src)"
  using assms by (simp add: copy_at_def Let_def min_def)

lemma word_of_int_nat: "0 \<le> z \<Longrightarrow> (word_of_int z :: 'a :: len word) = of_nat (nat z)"
  by simp

lemma toBytes_loop_eq:
  assumes "heads_ok (length str) hs p" and "length pre = pos" and "length rest = length (render str hs p)"
  shows "toBytes_loop str hs (pre @ rest) pos p = Some (pre @ render str hs p)"
  using assms
proof (induction hs arbitrary: pre rest pos p)
  case Nil
  then show ?case by (simp add: copy_at_fits)
next
  case (Cons h hs)
  let ?s = "take (lh_offset h - p) (drop p str)" and ?h = "head_bytes h"
  have off: "p \<le> lh_offset h" "lh_offset h \<le> length str" using Cons.prems(1) heads_ok_le by auto
  then have ls: "length ?s = lh_offset h - p" by simp
  have lr: "length rest = length ?s + length ?h + length (render str hs (lh_offset h))"
    using Cons.prems(3) by simp
  have copy: "copy_at (pre @ rest) pos ?s = (pre @ ?s @ drop (length ?s) rest, length ?s)"
    using Cons.prems(2) lr by (intro copy_at_fits) simp_all
  have "(word_of_int (lh_size h) :: u64) = of_nat (nat (lh_size h))" and "nat (lh_size h) < 2 ^ 64"
    using Cons.prems(1) by (simp_all add: nat_less_iff)
  then have head: "puthead (drop (length ?s) rest) 0xC0 0xF7 (word_of_int (lh_size h)) =
      Some (?h @ drop (length ?h) (drop (length ?s) rest), length ?h)"
    using lr by (simp only:) (rule puthead_eq, simp_all)
  have "toBytes_loop str hs ((pre @ ?s @ ?h) @ drop (length ?h) (drop (length ?s) rest))
      (pos + length ?s + length ?h) (lh_offset h) =
    Some ((pre @ ?s @ ?h) @ render str hs (lh_offset h))"
    using Cons.prems lr by (intro Cons.IH) simp_all
  then show ?case
    using off Cons.prems(2) head by (simp add: copy ls)
qed

subsection \<open>Writers append encodings\<close>

definition shift :: "nat \<Rightarrow> listhead \<Rightarrow> listhead" where
  "shift k h = h\<lparr>lh_offset := k + lh_offset h\<rparr>"

lemma shift_simps [simp]: "lh_offset (shift k h) = k + lh_offset h" "lh_size (shift k h) = lh_size h"
  "shift k (shift m h) = shift (k + m) h"
  by (simp_all add: shift_def)

lemma shift_comp [simp]: "shift k \<circ> shift m = shift (k + m)"
  by (rule ext) simp

lemma render_shift:
  "render (s1 @ s2) (map (shift (length s1)) hs) (length s1 + q) = render s2 hs q"
  by (induction hs arbitrary: q) simp_all

lemma heads_ok_shift: "heads_ok (k + n) (map (shift k) hs) (k + q) = heads_ok n hs q"
  by (induction hs arbitrary: q) simp_all

lemma heads_ok_mono: "heads_ok n hs q \<Longrightarrow> p \<le> q \<Longrightarrow> heads_ok n hs p"
  by (cases hs) auto

lemma render_append:
  "heads_ok (length s1) hs1 p \<Longrightarrow> render (s1 @ s2) (hs1 @ map (shift (length s1)) hs2) p =
    render s1 hs1 p @ render s2 hs2 0"
proof (induction hs1 arbitrary: p)
  case Nil
  then have p: "p \<le> length s1" by simp
  show ?case
  proof (cases hs2)
    case (Cons h hs)
    have "take (length s1 + lh_offset h - p) (drop p (s1 @ s2)) = drop p s1 @ take (lh_offset h) s2"
      using p by simp
    then show ?thesis
      using render_shift [of s1 s2 hs "lh_offset h"] by (simp add: Cons)
  qed (use p in simp)
next
  case (Cons h hs1)
  then have "lh_offset h \<le> length s1" using heads_ok_le by auto
  with Cons show ?case by simp
qed

lemma heads_ok_append:
  assumes "heads_ok (length s1) hs1 p" and "heads_ok (length s2) hs2 0"
  shows "heads_ok (length (s1 @ s2)) (hs1 @ map (shift (length s1)) hs2) p"
  using assms(1)
proof (induction hs1 arbitrary: p)
  case Nil
  have "heads_ok (length (s1 @ s2)) (map (shift (length s1)) hs2) (length s1)"
    using heads_ok_shift [of "length s1" "length s2" hs2 0] assms(2) by simp
  with Nil show ?case using heads_ok_mono by auto
qed simp

definition appends :: "encbuf \<Rightarrow> encbuf \<Rightarrow> bytes \<Rightarrow> bool" where
  "appends w w' out \<longleftrightarrow> (\<exists>s hs. eb_str w' = eb_str w @ s \<and>
     eb_lheads w' = eb_lheads w @ map (shift (length (eb_str w))) hs \<and>
     eb_lhsize w' = eb_lhsize w + int (sum_list (map (length \<circ> head_bytes) hs)) \<and>
     heads_ok (length s) hs 0 \<and> render s hs 0 = out)"

lemma appends_refl: "appends w w []"
  unfolding appends_def by (intro exI [of _ "[]"]) simp

lemma appends_Write: "appends w (encbuf_Write b w) b"
  unfolding appends_def encbuf_Write_def by (intro exI [of _ b] exI [of _ "[]"]) simp

lemma appends_trans:
  assumes "appends w w1 a" and "appends w1 w2 b"
  shows "appends w w2 (a @ b)"
proof -
  obtain s hs where 1: "eb_str w1 = eb_str w @ s" "eb_lheads w1 = eb_lheads w @ map (shift (length (eb_str w))) hs"
    "eb_lhsize w1 = eb_lhsize w + int (sum_list (map (length \<circ> head_bytes) hs))"
    "heads_ok (length s) hs 0" "render s hs 0 = a" using assms(1) by (auto simp: appends_def)
  obtain s' hs' where 2: "eb_str w2 = eb_str w1 @ s'" "eb_lheads w2 = eb_lheads w1 @ map (shift (length (eb_str w1))) hs'"
    "eb_lhsize w2 = eb_lhsize w1 + int (sum_list (map (length \<circ> head_bytes) hs'))"
    "heads_ok (length s') hs' 0" "render s' hs' 0 = b" using assms(2) by (auto simp: appends_def)
  have [simp]: "(length \<circ> head_bytes) \<circ> shift k = length \<circ> head_bytes" for k by auto
  show ?thesis
    unfolding appends_def
    using 1 2 render_append [OF 1(4), of s' hs'] heads_ok_append [OF 1(4) 2(4)]
    by (intro exI [of _ "s @ s'"] exI [of _ "hs @ map (shift (length s)) hs'"]) simp
qed

lemma appends_list:
  assumes "appends (snd (list_start w)) w2 out" and "length out < 2 ^ 64"
  shows "appends w (listEnd (fst (list_start w)) w2) (enc_list out)"
proof -
  let ?h0 = "\<lparr>lh_offset = length (eb_str w), lh_size = eb_lhsize w\<rparr>"
  obtain s hs where w2: "eb_str w2 = eb_str w @ s"
      "eb_lheads w2 = eb_lheads w @ ?h0 # map (shift (length (eb_str w))) hs"
      "eb_lhsize w2 = eb_lhsize w + int (sum_list (map (length \<circ> head_bytes) hs))"
      and ok: "heads_ok (length s) hs 0" and out: "render s hs 0 = out"
    using assms(1) by (auto simp: appends_def list_start_def)
  let ?n = "int (length out)" and ?h = "\<lparr>lh_offset = 0, lh_size = int (length out)\<rparr>"
  have size: "encbuf_size w2 - int (length (eb_str w)) - eb_lhsize w = ?n"
    using length_render [OF ok] w2 out by (simp add: encbuf_size_def)
  have heads: "eb_lheads (listEnd (length (eb_lheads w)) w2) =
      eb_lheads w @ map (shift (length (eb_str w))) (?h # hs)"
    by (simp add: listEnd_def Let_def w2 nth_append list_update_append size shift_def)
  have isz: "intsize (of_nat (length out)) = length (be_bytes (length out))" if "\<not> length out < 56"
    using assms(2) that by (intro intsize_of_nat) auto
  have lhs: "eb_lhsize (listEnd (length (eb_lheads w)) w2) =
      eb_lhsize w + int (sum_list (map (length \<circ> head_bytes) (?h # hs)))"
    using isz by (simp add: listEnd_def Let_def w2 nth_append size length_rlp_head)
  have str: "eb_str (listEnd (length (eb_lheads w)) w2) = eb_str w @ s"
    by (simp add: listEnd_def Let_def w2)
  have "heads_ok (length s) (?h # hs) 0" using ok assms(2) by simp
  moreover have "render s (?h # hs) 0 = enc_list out" by (simp add: enc_list_def out)
  ultimately show ?thesis
    unfolding appends_def list_start_def fst_conv using str heads lhs by blast
qed

lemma appends_string_header:
  "n < 2 ^ 64 \<Longrightarrow> appends w (encodeStringHeader n w) (rlp_head 0x80 0xB7 n)"
  using appends_Write putint_of_nat [of n] by (auto simp: encodeStringHeader_def rlp_head_def Let_def)

lemma appends_string: "length b < 2 ^ 64 \<Longrightarrow> appends w (encodeString b w) (enc_string b)"
  using appends_Write [of w b] appends_trans [OF appends_string_header appends_Write, of "length b" w b]
  by (cases b) (auto simp: encodeString_def enc_string_def)

lemma encode_lemma_string: "writeString = encodeString"
  by (intro ext) (simp add: writeString_def encodeString_def)

lemma appends_uint: "appends w (writeUint i w) (enc_string (be_bytes (unat i)))"
proof -
  consider "i = 0" | "i \<noteq> 0" "i < 128" | "\<not> i < 128" by auto
  then show ?thesis
  proof cases
    case 1
    then show ?thesis using appends_Write by (simp add: writeUint_def enc_string_def rlp_head_def)
  next
    case 2
    then have lt: "unat i < 128" "0 < unat i" by (simp_all add: word_less_nat_alt unat_gt_0)
    then have "be_bytes (unat i) = [ucast i]"
      by (subst be_bytes_pos) (simp_all add: word_unat_eq_iff unsigned_ucast_eq unat_of_nat take_bit_eq_mod)
    moreover have "(ucast i :: u8) \<le> 0x7F"
      using lt by (simp add: word_le_nat_alt unsigned_ucast_eq take_bit_eq_mod)
    ultimately show ?thesis using 2 appends_Write by (simp add: writeUint_def enc_string_def)
  next
    case 3
    then have ge: "128 \<le> unat i" by (simp add: word_less_nat_alt)
    then have i: "i \<noteq> 0" "0 < unat i" by auto
    have len: "length (be_bytes (unat i)) \<le> 8"
      using unsigned_less [of i, where ?'a = nat] by (simp add: length_be_bytes_le)
    have "\<not> (length (be_bytes (unat i)) = 1 \<and> hd (be_bytes (unat i)) \<le> 0x7F)"
    proof
      assume 1: "length (be_bytes (unat i)) = 1 \<and> hd (be_bytes (unat i)) \<le> 0x7F"
      then obtain b where b: "be_bytes (unat i) = [b]" "b \<le> 0x7F" by (cases "be_bytes (unat i)") auto
      then have "unat i = unat b" using be_val_be_bytes [of "unat i"] by simp
      with ge b(2) show False by (simp add: word_le_nat_alt)
    qed
    then have "enc_string (be_bytes (unat i)) = (0x80 + of_nat (length (be_bytes (unat i)))) # be_bytes (unat i)"
      using len by (simp add: enc_string_def rlp_head_def)
    then show ?thesis
      using 3 i appends_Write by (simp add: writeUint_def putint_eq Let_def)
  qed
qed

lemma appends_bool: "appends w (writeBool b w) (enc_string (if b then [1] else []))"
  using appends_Write by (simp add: writeBool_def enc_string_def rlp_head_def)

lemma be_bytes_length_lt: "length (enc_string b) < n \<Longrightarrow> length b < n"
  by (auto simp: enc_string_def split: if_splits)

lemma appends_BigInt:
  "writeBigInt i w = Inr w' \<Longrightarrow> length (enc_string (be_bytes (nat i))) < 2 ^ 64 \<Longrightarrow>
    appends w w' (enc_string (be_bytes (nat i)))"
  using appends_Write appends_string [of "be_bytes (nat i)"] be_bytes_length_lt [of "be_bytes (nat i)" "2 ^ 64"]
  by (auto simp: writeBigInt_def big_Bytes_def enc_string_def rlp_head_def split: if_splits)

lemma enc_list_length: "length (enc_list b) < n \<Longrightarrow> length b < n"
  by (simp add: enc_list_def)

text \<open>Every writer appends the reference encoding of its value.\<close>

lemma write_appends:
  "write_val v w = Inr w' \<Longrightarrow> length (rlp_enc v) < 2 ^ 64 \<Longrightarrow> appends w w' (rlp_enc v)"
  "write_all vs w = Inr w' \<Longrightarrow> length (concat (map rlp_enc vs)) < 2 ^ 64 \<Longrightarrow>
    appends w w' (concat (map rlp_enc vs))"
proof (induction v w and vs w arbitrary: w' and w' rule: write_val_write_all.induct)
  case (4 p w)
  show ?case
  proof (cases p)
    case None
    with 4 appends_Write [of w "[0x80]"] show ?thesis
      by (auto simp: writeBigIntPtr_def enc_string_def rlp_head_def)
  next
    case (Some i)
    with 4 appends_BigInt show ?thesis by (simp add: writeBigIntPtr_def)
  qed
next
  case (11 tail vs w)
  show ?case
  proof (cases tail)
    case False
    obtain w2 where w2: "write_all vs (snd (list_start w)) = Inr w2" "w' = listEnd (fst (list_start w)) w2"
      using 11(3) False by (auto simp: case_prod_unfold Let_def split: sum.splits)
    have len: "length (concat (map rlp_enc vs)) < 2 ^ 64"
      using 11(4) False by (auto dest: enc_list_length)
    have "appends (snd (list_start w)) w2 (concat (map rlp_enc vs))"
      using 11(2) [OF False _ _ w2(1) len] by (metis prod.collapse)
    from appends_list [OF this len] False w2(2) show ?thesis by simp
  qed (use 11 in auto)
next
  case (12 vs w)
  obtain w2 where w2: "write_all vs (snd (list_start w)) = Inr w2" "w' = listEnd (fst (list_start w)) w2"
    using 12(2) by (auto simp: case_prod_unfold Let_def split: sum.splits)
  have len: "length (concat (map rlp_enc vs)) < 2 ^ 64"
    using 12(3) by (auto dest: enc_list_length)
  have "appends (snd (list_start w)) w2 (concat (map rlp_enc vs))"
    using 12(1) [OF _ _ w2(1) len] by (metis prod.collapse)
  from appends_list [OF this len] w2(2) show ?case by simp
next
  case (13 nilKind w)
  have "appends w (listEnd (fst (list_start w)) (snd (list_start w))) (enc_list [])"
    by (rule appends_list [OF appends_refl]) simp
  then show ?case
    using 13 appends_Write [of w "[0x80]"]
    by (auto simp: case_prod_unfold Let_def enc_string_def rlp_head_def split: if_splits)
next
  case (16 v vs w)
  then obtain w1 where w1: "write_val v w = Inr w1" "write_all vs w1 = Inr w'" by (auto split: sum.splits)
  have "appends w w1 (rlp_enc v)" using 16(1,4) w1 by auto
  moreover have "appends w1 w' (concat (map rlp_enc vs))" using 16(2,4) w1 by auto
  ultimately show ?case using appends_trans by simp
qed (auto simp: writeRawValue_def encode_lemma_string enc_list_def rlp_head_def
    intro: appends_Write appends_uint appends_bool [of _ True, simplified] appends_bool [of _ False, simplified]
      appends_BigInt appends_string [OF be_bytes_length_lt, simplified] appends_refl)

lemma write_Inl:
  "write_val v w = Inl e \<Longrightarrow> e = ErrNegativeBigInt \<and> \<not> encodable v"
  "write_all vs w = Inl e \<Longrightarrow> e = ErrNegativeBigInt \<and> \<not> list_all encodable vs"
  by (induction v w and vs w arbitrary: e and e rule: write_val_write_all.induct)
    (auto simp: writeBigIntPtr_def writeBigInt_def Let_def list_start_def
      split: sum.splits if_splits option.splits)

lemma write_Inr:
  "write_val v w = Inr w' \<Longrightarrow> encodable v"
  "write_all vs w = Inr w' \<Longrightarrow> list_all encodable vs"
  by (induction v w and vs w arbitrary: w' and w' rule: write_val_write_all.induct)
    (auto simp: writeBigIntPtr_def writeBigInt_def Let_def list_start_def
      split: sum.splits if_splits option.splits)

lemma appends_empty:
  assumes "appends \<lparr>eb_str = [], eb_lheads = [], eb_lhsize = 0\<rparr> w out"
  shows "toBytes w = Some out"
proof -
  obtain s hs where w: "eb_str w = s" "eb_lheads w = hs"
    "eb_lhsize w = int (sum_list (map (length \<circ> head_bytes) hs))"
    and ok: "heads_ok (length s) hs 0" and out: "render s hs 0 = out"
    using assms by (auto simp: appends_def shift_def cong: map_cong)
  have "encbuf_size w = int (length out)"
    using length_render [OF ok] w out by (simp add: encbuf_size_def)
  then show ?thesis
    using toBytes_loop_eq [OF ok, of "[]" 0 "replicate (length out) 0"] w out by (simp add: toBytes_def)
qed

lemma EncodeToBytes_rlp_enc:
  assumes "length (rlp_enc v) < 2 ^ 64"
  shows "EncodeToBytes v = Some (if encodable v then Inr (rlp_enc v) else Inl ErrNegativeBigInt)"
proof (cases "write_val v \<lparr>eb_str = [], eb_lheads = [], eb_lhsize = 0\<rparr>")
  case (Inl e)
  with write_Inl(1) [OF Inl] show ?thesis by (simp add: EncodeToBytes_def)
next
  case (Inr w)
  from write_Inr(1) [OF Inr] appends_empty [OF write_appends(1) [OF Inr assms]] Inr show ?thesis
    by (simp add: EncodeToBytes_def)
qed

text \<open>
  C15: The encoder computes the textbook RLP encoding. For every value without a negative
  \<open>big.Int\<close> whose encoding is shorter than \<open>2**64\<close> bytes, \<open>EncodeToBytes\<close> returns \<open>rlp_enc\<close> of it: the
  sizes of all list headers are right and the output buffer is filled exactly. Every other value is
  refused with the negative-integer error.
\<close>

theorem EncodeToBytes_eq:
  assumes "length (rlp_enc v) < 2 ^ 64"
  shows "EncodeToBytes v = Some (if encodable v then Inr (rlp_enc v) else Inl ErrNegativeBigInt)"
  using assms by (rule EncodeToBytes_rlp_enc)

theorem EncodeToBytes_eq_witness:
  "EncodeToBytes (VStruct [VUint 1024, VSlice False [VBytes [9], VBool False]]) =
    Some (Inr [0xC6, 0x82, 4, 0, 0xC2, 9, 0x80])"
proof -
  have "rlp_enc (VStruct [VUint 1024, VSlice False [VBytes [9], VBool False]]) =
      [0xC6, 0x82, 4, 0, 0xC2, 9, 0x80]"
    by (simp add: enc_list_def enc_string_def rlp_head_def be_bytes.simps)
  then show ?thesis
    using EncodeToBytes_eq [of "VStruct [VUint 1024, VSlice False [VBytes [9], VBool False]]"] by simp
qed

text \<open>The same bytes reach a writer that takes everything it is given.\<close>

lemma toWriter_loop_eq:
  assumes "heads_ok (length str) hs p" and wr: "\<And>b s. wr b s = (length b, None, s @ b)"
  shows "toWriter_loop wr str hs p s = Some (None, s @ render str hs p)"
  using assms(1)
proof (induction hs arbitrary: p s)
  case Nil
  then show ?case by (simp add: wr)
next
  case (Cons h hs)
  have off: "p \<le> lh_offset h" "lh_offset h \<le> length str" using Cons.prems heads_ok_le by auto
  have n: "nat (lh_size h) < 2 ^ 64" "(word_of_int (lh_size h) :: u64) = of_nat (nat (lh_size h))"
    using Cons.prems by (simp_all add: nat_less_iff)
  have "length (be_bytes (nat (lh_size h))) \<le> 8"
    using n(1) by (simp add: length_be_bytes_le)
  then have "length (head_bytes h) \<le> 9" by (simp add: length_rlp_head)
  then have head: "puthead (replicate 9 0) 0xC0 0xF7 (word_of_int (lh_size h)) =
      Some (head_bytes h @ drop (length (head_bytes h)) (replicate 9 0), length (head_bytes h))"
    unfolding n(2) by (intro puthead_eq [OF n(1)]) simp
  show ?case
    using off Cons.IH [of "lh_offset h"] Cons.prems
    by (auto simp: wr head Let_def simp del: drop_replicate)
qed

text \<open>
  C32: \<open>toWriter\<close> and \<open>toBytes\<close> agree: what a writer that accepts all bytes receives, piece by piece,
  is the string that \<open>toBytes\<close> builds in one buffer.
\<close>

theorem toWriter_toBytes:
  assumes "write_val v \<lparr>eb_str = [], eb_lheads = [], eb_lhsize = 0\<rparr> = Inr w"
    and "length (rlp_enc v) < 2 ^ 64" and "\<And>b s. wr b s = (length b, None, s @ b)"
  shows "toWriter wr w [] = map_option (\<lambda>out. (None, out)) (toBytes w)"
proof -
  have a: "appends \<lparr>eb_str = [], eb_lheads = [], eb_lhsize = 0\<rparr> w (rlp_enc v)"
    by (rule write_appends(1) [OF assms(1,2)])
  then obtain s hs where "eb_str w = s" "eb_lheads w = hs" "heads_ok (length s) hs 0" "render s hs 0 = rlp_enc v"
    by (auto simp: appends_def shift_def cong: map_cong)
  with appends_empty [OF a] show ?thesis
    by (simp add: toWriter_def toWriter_loop_eq [OF _ assms(3)])
qed

theorem toWriter_toBytes_witness:
  "\<exists>w. write_val (VSlice False [VBytes [9]]) \<lparr>eb_str = [], eb_lheads = [], eb_lhsize = 0\<rparr> = Inr w \<and>
    toWriter (\<lambda>b s. (length b, None, s @ b)) w [] = Some (None :: unit option, [0xC1, 9])"
proof -
  obtain w where w: "write_val (VSlice False [VBytes [9]]) \<lparr>eb_str = [], eb_lheads = [], eb_lhsize = 0\<rparr> = Inr w"
    by (simp add: Let_def case_prod_unfold)
  have enc: "rlp_enc (VSlice False [VBytes [9]]) = [0xC1, 9]"
    by (simp add: enc_list_def enc_string_def rlp_head_def)
  then have "appends \<lparr>eb_str = [], eb_lheads = [], eb_lhsize = 0\<rparr> w [0xC1, 9]"
    using write_appends(1) [OF w] by simp
  from appends_empty [OF this] w enc
    toWriter_toBytes [OF w, of "\<lambda>b s. (length b, None :: unit option, s @ b)"] show ?thesis by auto
qed

end
