(* ===== verification/Codec.thy ===== *)
theory Codec
  imports Prelude
begin

text \<open>
  The interface of a canonical, self-delimiting byte encoding: a decoder that splits the first
  value off a byte string. \<open>fits\<close> bounds the strings the code can hold in memory. Clients get
  injectivity and unique parsing of sequences from the two laws.
\<close>

locale canonical_codec =
  fixes enc :: "'a \<Rightarrow> bytes"
    and dec :: "bytes \<Rightarrow> ('a \<times> bytes) option"
    and ok :: "'a \<Rightarrow> bool"
    and fits :: "bytes \<Rightarrow> bool"
  assumes dec_enc: "ok x \<Longrightarrow> fits (enc x @ r) \<Longrightarrow> dec (enc x @ r) = Some (x, r)"
    and enc_dec: "fits b \<Longrightarrow> dec b = Some (x, r) \<Longrightarrow> ok x \<and> b = enc x @ r"
    and enc_ne: "enc x \<noteq> []"
    and fits_suffix: "fits (a @ b) \<Longrightarrow> fits b"
begin

lemma enc_prefix_unique:
  assumes "ok x" and "ok y" and "fits (enc x @ r)" and "enc x @ r = enc y @ s"
  shows "x = y \<and> r = s"
  using dec_enc [OF assms(1,3)] dec_enc [OF assms(2), of s] assms(3,4) by simp

lemma dec_shorter: "fits b \<Longrightarrow> dec b = Some (x, r) \<Longrightarrow> length r < length b"
  using enc_dec [of b x r] enc_ne [of x] by (cases "enc x") auto

lemma enc_concat_unique:
  "list_all ok xs \<Longrightarrow> list_all ok ys \<Longrightarrow> fits (concat (map enc xs)) \<Longrightarrow>
    concat (map enc xs) = concat (map enc ys) \<Longrightarrow> xs = ys"
proof (induction xs arbitrary: ys)
  case Nil
  then show ?case using enc_ne by (cases ys) auto
next
  case (Cons x xs)
  then obtain y ys' where ys: "ys = y # ys'" using enc_ne by (cases ys) auto
  have "x = y \<and> concat (map enc xs) = concat (map enc ys')"
    using Cons.prems ys by (intro enc_prefix_unique) auto
  moreover have "fits (concat (map enc xs))" using Cons.prems(3) fits_suffix by auto
  ultimately show ?case using Cons ys by auto
qed

end

end
