(* ===== verification/Rlp_Raw.thy ===== *)
theory Rlp_Raw
  imports Rlp_Encode Codec
begin

text \<open>
  \<open>rlp/raw.go\<close>: splitting encoded values without decoding them. \<open>Split\<close> and the reference
  encoding form a canonical codec: every string that \<open>Split\<close> accepts is the reference encoding of
  what it returns, and it accepts every encoding. Lengths of slices are below \<open>2**64\<close>.
\<close>

section \<open>Operations\<close>

definition ListSize :: "u64 \<Rightarrow> u64" where
  "ListSize contentSize = of_nat (headsize contentSize) + contentSize"

text \<open>
  \<open>readSize\<close>: the eight cases of the source are the first \<open>slen\<close> bytes, each shifted in from the
  right.
\<close>

definition readSize :: "bytes \<Rightarrow> u8 \<Rightarrow> rlp_error + u64" where
  "readSize b slen =
     (if length b < unat slen then Inl ErrUnexpectedEOF
      else
        let s = foldl (\<lambda>s x. push_bit 8 s OR ucast x) (0 :: u64) (take (unat slen) b) in
        if s < 56 \<or> b ! 0 = 0 then Inl ErrCanonSize else Inr s)"

definition readKind :: "bytes \<Rightarrow> rlp_error + Kind \<times> u64 \<times> u64" where
  "readKind buf =
     (if buf = [] then Inl ErrUnexpectedEOF
      else
        let b = buf ! 0;
            r = (if b < 0x80 then Inr (Byte, 0, 1)
                 else if b < 0xB8 then
                   (let contentsize = ucast (b - 0x80) :: u64 in
                    if contentsize = 1 \<and> 1 < length buf \<and> buf ! 1 < 128 then Inl ErrCanonSize
                    else Inr (String, 1, contentsize))
                 else if b < 0xC0 then
                   map_sum id (\<lambda>s. (String, ucast (b - 0xB7) + 1, s)) (readSize (drop 1 buf) (b - 0xB7))
                 else if b < 0xF8 then Inr (List, 1, ucast (b - 0xC0))
                 else
                   map_sum id (\<lambda>s. (List, ucast (b - 0xF7) + 1, s)) (readSize (drop 1 buf) (b - 0xF7)))
        in case r of
             Inl e \<Rightarrow> Inl e
           | Inr (k, tagsize, contentsize) \<Rightarrow>
               if of_nat (length buf) - tagsize < contentsize then Inl ErrValueTooLarge
               else Inr (k, tagsize, contentsize))"

definition Split :: "bytes \<Rightarrow> rlp_error + Kind \<times> bytes \<times> bytes" where
  "Split b =
     (case readKind b of
        Inl e \<Rightarrow> Inl e
      | Inr (k, ts, cs) \<Rightarrow> Inr (k, take (unat cs) (drop (unat ts) b), drop (unat ts + unat cs) b))"

definition SplitString :: "bytes \<Rightarrow> rlp_error + bytes \<times> bytes" where
  "SplitString b =
     (case Split b of
        Inl e \<Rightarrow> Inl e
      | Inr (k, content, rest) \<Rightarrow> if k = List then Inl ErrExpectedString else Inr (content, rest))"

definition SplitList :: "bytes \<Rightarrow> rlp_error + bytes \<times> bytes" where
  "SplitList b =
     (case Split b of
        Inl e \<Rightarrow> Inl e
      | Inr (k, content, rest) \<Rightarrow> if k \<noteq> List then Inl ErrExpectedList else Inr (content, rest))"

lemma ucast_Suc_neq_0: "(ucast (x :: u8) + 1 :: u64) \<noteq> 0"
proof
  assume "(ucast x + 1 :: u64) = 0"
  then have "unat (ucast x + 1 :: u64) = 0" by simp
  moreover have "unat (ucast x :: u64) < 256"
    by (simp add: unsigned_ucast_eq take_bit_eq_mod less_trans [OF unat_u8_lt])
  ultimately show False by (simp add: unat_word_ariths)
qed

lemma readKind_progress: "readKind b = Inr (k, ts, cs) \<Longrightarrow> 0 < unat ts + unat cs"
  using ucast_Suc_neq_0 by (auto simp: readKind_def Let_def unat_gt_0 split: if_splits sum.splits)

function CountValues_loop :: "bytes \<Rightarrow> nat \<Rightarrow> rlp_error + nat" where
  "CountValues_loop b i =
     (if b = [] then Inr i
      else case readKind b of
        Inl e \<Rightarrow> Inl e
      | Inr (_, tagsize, sz) \<Rightarrow> CountValues_loop (drop (unat tagsize + unat sz) b) (Suc i))"
  by pat_completeness auto
termination
proof (relation "measure (length \<circ> fst)", simp, goal_cases)
  case (1 b i x k ts cs)
  then show ?case using readKind_progress [of b] by (cases b) auto
qed

declare CountValues_loop.simps [simp del]

definition CountValues :: "bytes \<Rightarrow> rlp_error + nat" where
  "CountValues b = CountValues_loop b 0"

section \<open>Sizes\<close>

lemma unat_push_or:
  fixes s :: u64 and x :: u8
  assumes "unat s < 2 ^ 56"
  shows "unat (push_bit 8 s OR ucast x) = unat s * 256 + unat x"
proof -
  have "push_bit 8 s AND ucast x = (0 :: u64)"
    by (rule bit_word_eqI) (auto simp: bit_and_iff bit_push_bit_iff bit_ucast_iff dest: bit_imp_le_length)
  then have or: "push_bit 8 s OR ucast x = push_bit 8 s + (ucast x :: u64)"
    by (simp add: disjunctive_add_eq_or)
  have p: "unat (push_bit 8 s) = unat s * 256"
    using assms by (simp add: push_bit_eq_mult unat_word_ariths)
  have u: "unat (ucast x :: u64) = unat x"
    by (simp add: unsigned_ucast_eq take_bit_eq_mod less_trans [OF unat_u8_lt])
  have "unat s * 256 + unat x < 2 ^ 64"
  proof -
    have "unat s \<le> 72057594037927935" using assms by simp
    then have "unat s * 256 \<le> 18446744073709551360" by linarith
    then show ?thesis using unat_u8_lt [of x] by (simp del: unat_u8_lt)
  qed
  then show ?thesis unfolding or by (simp add: unat_word_ariths p u)
qed

lemma unat_size_fold:
  "length bs \<le> 8 \<Longrightarrow> unat (foldl (\<lambda>s x. push_bit 8 s OR ucast x) (0 :: u64) bs) = be_val bs"
proof (induction bs rule: rev_induct)
  case (snoc x bs)
  have "be_val bs < 256 ^ 7"
    using be_val_lt [of bs] snoc.prems power_increasing [of "length bs" 7 "256 :: nat"] by simp
  then show ?case using snoc by (simp add: unat_push_or)
qed simp

lemma readSize_eq:
  assumes "k \<le> 8" and "0 < k"
  shows "readSize b (of_nat k) =
    (if length b < k then Inl ErrUnexpectedEOF
     else if be_val (take k b) < 56 \<or> hd b = 0 then Inl ErrCanonSize
     else Inr (of_nat (be_val (take k b))))"
proof -
  have k: "unat (of_nat k :: u8) = k" using assms by (simp add: unat_of_nat)
  let ?s = "foldl (\<lambda>s x. push_bit 8 s OR ucast x) (0 :: u64) (take k b)"
  have s: "unat ?s = be_val (take k b)" using assms by (intro unat_size_fold) simp
  then have "?s = of_nat (be_val (take k b))" by (simp flip: s)
  then show ?thesis
    using s assms by (cases b) (auto simp: readSize_def k word_less_nat_alt Let_def)
qed

section \<open>Kinds of the reference encodings\<close>

lemma unat_tag [simp]:
  "n < 56 \<Longrightarrow> unat (0x80 + of_nat n :: u8) = 128 + n"
  "n < 56 \<Longrightarrow> unat (0xC0 + of_nat n :: u8) = 192 + n"
  "k \<le> 8 \<Longrightarrow> unat (0xB7 + of_nat k :: u8) = 183 + k"
  "k \<le> 8 \<Longrightarrow> unat (0xF7 + of_nat k :: u8) = 247 + k"
  by (simp_all add: unat_word_ariths unat_of_nat)

lemma ucast_of_nat_up: "n < 256 \<Longrightarrow> (ucast (of_nat n :: u8) :: u64) = of_nat n"
  by (simp add: word_unat_eq_iff unsigned_ucast_eq unat_of_nat take_bit_eq_mod)

lemma of_nat_diff_less:
  assumes "t \<le> n" and "n < 2 ^ 64" and "c < 2 ^ 64"
  shows "(of_nat n - of_nat t :: u64) < of_nat c \<longleftrightarrow> n - t < c"
proof -
  have "(of_nat n - of_nat t :: u64) = of_nat (n - t)" using assms(1) by (simp add: of_nat_diff)
  then show ?thesis using assms of_nat_u64_less [of "n - t" c] by simp
qed

lemma readKind_short:
  assumes "n < 56" and "length c = n" and "length (t # c @ r) < 2 ^ 64"
  shows "t = 0x80 + of_nat n \<Longrightarrow> \<not> (length c = 1 \<and> hd c \<le> 0x7F) \<Longrightarrow>
      readKind (t # c @ r) = Inr (String, 1, of_nat n)"
    and "t = 0xC0 + of_nat n \<Longrightarrow> readKind (t # c @ r) = Inr (List, 1, of_nat n)"
proof -
  have sub: "(0x80 + of_nat n :: u8) - 0x80 = of_nat n" "(0xC0 + of_nat n :: u8) - 0xC0 = of_nat n" by simp_all
  have fit: "\<not> (of_nat (length (t # c @ r)) - 1 :: u64) < of_nat n"
    using of_nat_diff_less [of 1 "length (t # c @ r)" n] assms by simp
  have one: "(of_nat n :: u64) = 1 \<longleftrightarrow> n = 1"
    using assms(1) unat_of_nat_u64 [of n] by (auto simp: word_unat_eq_iff)
  show "readKind (t # c @ r) = Inr (List, 1, of_nat n)" if "t = 0xC0 + of_nat n"
    using that assms fit
    by (simp add: readKind_def word_less_nat_alt sub ucast_of_nat_up Let_def)
  show "readKind (t # c @ r) = Inr (String, 1, of_nat n)"
    if "t = 0x80 + of_nat n" "\<not> (length c = 1 \<and> hd c \<le> 0x7F)"
  proof -
    have "\<not> (n = 1 \<and> (c @ r) ! 0 < 128)"
      using that(2) assms(2) by (cases c) (auto simp: word_less_nat_alt word_le_nat_alt)
    then show ?thesis
      using that assms fit one
      by (auto simp: readKind_def word_less_nat_alt sub ucast_of_nat_up Let_def)
  qed
qed

lemma readKind_long:
  assumes "56 \<le> n" and "length c = n" and "length (t # be_bytes n @ c @ r) < 2 ^ 64"
  defines "k \<equiv> length (be_bytes n)"
  shows "t = 0xB7 + of_nat k \<Longrightarrow> readKind (t # be_bytes n @ c @ r) = Inr (String, of_nat (Suc k), of_nat n)"
    and "t = 0xF7 + of_nat k \<Longrightarrow> readKind (t # be_bytes n @ c @ r) = Inr (List, of_nat (Suc k), of_nat n)"
proof -
  have n64: "n < 2 ^ 64" using assms(2,3) by simp
  then have k: "k \<le> 8" "0 < k" using assms(1) by (auto simp: k_def length_be_bytes_le)
  have sub: "(0xB7 + of_nat k :: u8) - 0xB7 = of_nat k" "(0xF7 + of_nat k :: u8) - 0xF7 = of_nat k" by simp_all
  have sz: "readSize (be_bytes n @ c @ r) (of_nat k) = Inr (of_nat n)"
    using k assms(1) hd_be_bytes [of n] by (simp add: readSize_eq k_def)
  have tag: "(ucast (of_nat k :: u8) + 1 :: u64) = of_nat (Suc k)" using k by (simp add: ucast_of_nat_up)
  have fit: "\<not> (of_nat (length (t # be_bytes n @ c @ r)) - of_nat (Suc k) :: u64) < of_nat n"
    using of_nat_diff_less [of "Suc k" "length (t # be_bytes n @ c @ r)" n] assms n64 by (simp add: k_def)
  show "readKind (t # be_bytes n @ c @ r) = Inr (String, of_nat (Suc k), of_nat n)" if "t = 0xB7 + of_nat k"
    using k fit unfolding that
    by (simp add: readKind_def word_less_nat_alt sub tag sz Let_def del: of_nat_Suc)
  show "readKind (t # be_bytes n @ c @ r) = Inr (List, of_nat (Suc k), of_nat n)" if "t = 0xF7 + of_nat k"
    using k fit unfolding that
    by (simp add: readKind_def word_less_nat_alt sub tag sz Let_def del: of_nat_Suc)
qed

section \<open>Split and the reference encoding\<close>

lemma length_be_bytes_u64: "n < 2 ^ 64 \<Longrightarrow> Suc (length (be_bytes n)) < 18446744073709551616"
  using length_be_bytes_le [of n 8] by simp

lemma Split_string:
  assumes "length (enc_string c @ r) < 2 ^ 64"
  shows "Split (enc_string c @ r) = Inr (if length c = 1 \<and> hd c \<le> 0x7F then Byte else String, c, r)"
proof (cases "length c = 1 \<and> hd c \<le> 0x7F")
  case True
  then obtain t where c: "c = [t]" "t \<le> 0x7F" by (cases c) auto
  then have "readKind (t # r) = Inr (Byte, 0, 1)"
    using of_nat_diff_less [of 0 "Suc (length r)" 1] assms
    by (simp add: readKind_def word_less_nat_alt word_le_nat_alt enc_string_def Let_def)
  with c show ?thesis by (simp add: Split_def enc_string_def)
next
  case False
  let ?n = "length c"
  have n: "?n < 2 ^ 64" using be_bytes_length_lt [of c "2 ^ 64"] assms by simp
  have enc: "enc_string c @ r = rlp_head 0x80 0xB7 ?n @ c @ r"
    unfolding enc_string_def if_not_P [OF False] by simp
  show ?thesis
  proof (cases "?n < 56")
    case True
    have "readKind ((0x80 + of_nat ?n) # c @ r) = Inr (String, 1, of_nat ?n)"
      using assms True by (intro readKind_short(1) [OF True refl _ refl False]) (simp add: enc rlp_head_def)
    then show ?thesis
      using True n unat_of_nat_u64 [OF n] unfolding enc if_not_P [OF False] by (simp add: Split_def rlp_head_def)
  next
    case large: False
    let ?k = "length (be_bytes ?n)"
    have k: "unat (of_nat (Suc ?k) :: u64) = Suc ?k"
      using length_be_bytes_u64 [OF n] by (intro unat_of_nat_u64) simp
    have "readKind ((0xB7 + of_nat ?k) # be_bytes ?n @ c @ r) = Inr (String, of_nat (Suc ?k), of_nat ?n)"
      using assms large by (intro readKind_long(1) [OF _ refl _ refl]) (simp_all add: enc rlp_head_def)
    then show ?thesis
      using large n k unat_of_nat_u64 [OF n] unfolding enc if_not_P [OF False]
      by (simp add: Split_def rlp_head_def del: of_nat_Suc)
  qed
qed

lemma Split_list:
  assumes "length (enc_list c @ r) < 2 ^ 64"
  shows "Split (enc_list c @ r) = Inr (List, c, r)"
proof -
  let ?n = "length c"
  have n: "?n < 2 ^ 64" using assms by (simp add: enc_list_def)
  have enc: "enc_list c @ r = rlp_head 0xC0 0xF7 ?n @ c @ r" by (simp add: enc_list_def)
  show ?thesis
  proof (cases "?n < 56")
    case True
    have "readKind ((0xC0 + of_nat ?n) # c @ r) = Inr (List, 1, of_nat ?n)"
      using assms True by (intro readKind_short(2) [OF True refl _ refl]) (simp add: enc rlp_head_def)
    then show ?thesis
      using True n unat_of_nat_u64 [OF n] unfolding enc by (simp add: Split_def rlp_head_def)
  next
    case large: False
    let ?k = "length (be_bytes ?n)"
    have k: "unat (of_nat (Suc ?k) :: u64) = Suc ?k"
      using length_be_bytes_u64 [OF n] by (intro unat_of_nat_u64) simp
    have "readKind ((0xF7 + of_nat ?k) # be_bytes ?n @ c @ r) = Inr (List, of_nat (Suc ?k), of_nat ?n)"
      using assms large by (intro readKind_long(2) [OF _ refl _ refl]) (simp_all add: enc rlp_head_def)
    then show ?thesis
      using large n k unat_of_nat_u64 [OF n] unfolding enc
      by (simp add: Split_def rlp_head_def del: of_nat_Suc)
  qed
qed

text \<open>The value at the front of a string, by its kind.\<close>

definition enc_kind :: "Kind \<times> bytes \<Rightarrow> bytes" where
  "enc_kind kc = (if fst kc = List then enc_list (snd kc) else enc_string (snd kc))"

definition kind_ok :: "Kind \<times> bytes \<Rightarrow> bool" where
  "kind_ok kc \<longleftrightarrow> fst kc = List \<or> (fst kc = Byte) = (length (snd kc) = 1 \<and> hd (snd kc) \<le> 0x7F)"

lemma u8_tag:
  "\<not> t < 0x80 \<Longrightarrow> t < 0xB8 \<Longrightarrow> \<exists>n < 56. t = (0x80 + of_nat n :: u8)"
  "\<not> t < 0xB8 \<Longrightarrow> t < 0xC0 \<Longrightarrow> \<exists>k. 0 < k \<and> k \<le> 8 \<and> t = (0xB7 + of_nat k :: u8)"
  "\<not> t < 0xC0 \<Longrightarrow> t < 0xF8 \<Longrightarrow> \<exists>n < 56. t = (0xC0 + of_nat n :: u8)"
  "\<not> t < 0xF8 \<Longrightarrow> \<exists>k. 0 < k \<and> k \<le> 8 \<and> t = (0xF7 + of_nat k :: u8)"
proof -
  have split: "t = a + of_nat (unat t - unat a)" if "unat a \<le> unat t" for t a :: u8
    using that by (simp add: of_nat_diff word_unat_eq_iff unat_word_ariths)
  show "\<not> t < 0x80 \<Longrightarrow> t < 0xB8 \<Longrightarrow> \<exists>n < 56. t = (0x80 + of_nat n :: u8)"
    using split [of "0x80" t] by (intro exI [of _ "unat t - 128"]) (simp add: word_less_nat_alt)
  show "\<not> t < 0xB8 \<Longrightarrow> t < 0xC0 \<Longrightarrow> \<exists>k. 0 < k \<and> k \<le> 8 \<and> t = (0xB7 + of_nat k :: u8)"
    using split [of "0xB7" t] by (intro exI [of _ "unat t - 183"]) (simp add: word_less_nat_alt)
  show "\<not> t < 0xC0 \<Longrightarrow> t < 0xF8 \<Longrightarrow> \<exists>n < 56. t = (0xC0 + of_nat n :: u8)"
    using split [of "0xC0" t] by (intro exI [of _ "unat t - 192"]) (simp add: word_less_nat_alt)
  show "\<not> t < 0xF8 \<Longrightarrow> \<exists>k. 0 < k \<and> k \<le> 8 \<and> t = (0xF7 + of_nat k :: u8)"
    using split [of "0xF7" t] unat_u8_lt [of t]
    by (intro exI [of _ "unat t - 247"]) (simp add: word_less_nat_alt del: unat_u8_lt)
qed

lemma readSize_inv:
  assumes "readSize bs (of_nat k) = Inr s" and "0 < k" and "k \<le> 8"
  obtains n where "s = of_nat n" "n < 2 ^ 64" "56 \<le> n" "k \<le> length bs" "be_bytes n = take k bs"
proof -
  let ?n = "be_val (take k bs)"
  have r: "k \<le> length bs" "56 \<le> ?n" "hd bs \<noteq> 0" "s = of_nat ?n"
    using assms by (auto simp: readSize_eq split: if_splits)
  have "?n < 256 ^ k" using be_val_lt [of "take k bs"] r(1) by simp
  also have "\<dots> \<le> 256 ^ 8" using assms(3) by (intro power_increasing) simp_all
  finally have "?n < 2 ^ 64" by simp
  moreover have "be_bytes ?n = take k bs"
    using r(1,3) assms(2) by (intro be_bytes_be_val_id) (cases bs; cases k; auto)
  ultimately show ?thesis using that r by blast
qed

lemma take_drop_eq: "n \<le> length bs \<Longrightarrow> \<exists>c r. bs = c @ r \<and> length c = n"
  by (metis append_take_drop_id length_take min.absorb2)

text \<open>The bytes after a long tag: the size, the content, the rest.\<close>

lemma readKind_tail:
  assumes rs: "readSize bs (of_nat j) = Inr cs" and j: "0 < j" "j \<le> 8"
    and lt: "\<not> of_nat (length (t # bs)) - (ucast (of_nat j :: u8) + 1) < cs" and len: "length (t # bs) < 2 ^ 64"
  shows "\<exists>n c r. cs = of_nat n \<and> 56 \<le> n \<and> n < 2 ^ 64 \<and> bs = be_bytes n @ c @ r \<and> length c = n \<and>
    length (be_bytes n) = j"
proof -
  obtain n where n: "cs = of_nat n" "n < 2 ^ 64" "56 \<le> n" "j \<le> length bs" "be_bytes n = take j bs"
    by (rule readSize_inv [OF rs j])
  have "(ucast (of_nat j :: u8) + 1 :: u64) = of_nat (Suc j)" using j by (simp add: ucast_of_nat_up)
  then have "n \<le> length bs - j"
    using lt of_nat_diff_less [of "Suc j" "length (t # bs)" n] len n(1,2,4) by (simp del: of_nat_Suc)
  then obtain c r where "drop j bs = c @ r" "length c = n" using take_drop_eq [of n "drop j bs"] by auto
  then have "bs = be_bytes n @ c @ r" using n(5) by (metis append_take_drop_id)
  moreover have "length (be_bytes n) = j" using n(4,5) by simp
  ultimately show ?thesis using n(1-3) \<open>length c = n\<close> by blast
qed

lemma readKind_inv:
  assumes rk: "readKind (t # bs) = Inr (k, ts, cs)" and len: "length (t # bs) < 2 ^ 64"
  shows "\<exists>c r. t # bs = enc_kind (k, c) @ r \<and> kind_ok (k, c) \<and>
    unat ts + unat cs = length (enc_kind (k, c)) \<and> unat cs = length c"
proof -
  consider "t < 0x80" | "\<not> t < 0x80" "t < 0xB8" | "\<not> t < 0xB8" "t < 0xC0"
    | "\<not> t < 0xC0" "t < 0xF8" | "\<not> t < 0xF8" by blast
  then show ?thesis
  proof cases
    case 1
    with rk have "k = Byte" "ts = 0" "cs = 1"
      by (auto simp: readKind_def Let_def split: if_splits)
    with 1 show ?thesis
      by (intro exI [of _ "[t]"] exI [of _ bs])
        (simp add: enc_kind_def kind_ok_def enc_string_def word_less_nat_alt word_le_nat_alt)
  next
    case 2
    then obtain n where n: "n < 56" "t = 0x80 + of_nat n" using u8_tag(1) by blast
    have u: "(ucast (t - 0x80) :: u64) = of_nat n" using n by (simp add: ucast_of_nat_up)
    from rk 2 have k: "k = String" "ts = 1" "cs = of_nat n"
      and lt: "\<not> of_nat (length (t # bs)) - 1 < (of_nat n :: u64)"
      and single: "\<not> ((of_nat n :: u64) = 1 \<and> 0 < length bs \<and> bs ! 0 < 128)"
      by (auto simp: readKind_def Let_def u split: if_splits)
    have "n \<le> length bs" using lt of_nat_diff_less [of 1 "length (t # bs)" n] len n(1) by simp
    then obtain c r where bs: "bs = c @ r" "length c = n" using take_drop_eq by blast
    have "\<not> (length c = 1 \<and> hd c \<le> 0x7F)"
      using single bs by (cases c) (auto simp: word_less_nat_alt word_le_nat_alt)
    then show ?thesis
      using k n bs by (intro exI [of _ c] exI [of _ r])
        (auto simp: enc_kind_def kind_ok_def enc_string_def rlp_head_def unat_of_nat)
  next
    case 3
    then obtain j where j: "0 < j" "j \<le> 8" "t = 0xB7 + of_nat j" using u8_tag(2) by blast
    have "\<not> t < 0x80" using 3 by (simp add: word_less_nat_alt)
    with rk 3 j have rs: "readSize bs (of_nat j) = Inr cs" and k: "k = String" "ts = ucast (of_nat j :: u8) + 1"
      and lt: "\<not> of_nat (length (t # bs)) - (ucast (of_nat j :: u8) + 1) < cs"
      by (auto simp: readKind_def Let_def split: if_splits sum.splits)
    from readKind_tail [OF rs j(1,2) lt len] obtain n c r where n: "cs = of_nat n" "56 \<le> n" "n < 2 ^ 64"
      "bs = be_bytes n @ c @ r" "length c = n" "length (be_bytes n) = j" by blast
    have "unat ts = Suc j" using j(2) unfolding k(2) by (simp add: ucast_of_nat_up unat_word_ariths unat_of_nat)
    then show ?thesis
      using n j k(1) unat_of_nat_u64 [OF n(3)] by (intro exI [of _ c] exI [of _ r])
        (auto simp: enc_kind_def kind_ok_def enc_string_def rlp_head_def)
  next
    case 4
    then obtain n where n: "n < 56" "t = 0xC0 + of_nat n" using u8_tag(3) by blast
    have u: "(ucast (t - 0xC0) :: u64) = of_nat n" using n by (simp add: ucast_of_nat_up)
    have "\<not> t < 0x80" "\<not> t < 0xB8" using 4 by (simp_all add: word_less_nat_alt)
    with rk 4 have k: "k = List" "ts = 1" "cs = of_nat n"
      and lt: "\<not> of_nat (length (t # bs)) - 1 < (of_nat n :: u64)"
      by (auto simp: readKind_def Let_def u split: if_splits)
    have "n \<le> length bs" using lt of_nat_diff_less [of 1 "length (t # bs)" n] len n(1) by simp
    then obtain c r where bs: "bs = c @ r" "length c = n" using take_drop_eq by blast
    then show ?thesis
      using k n by (intro exI [of _ c] exI [of _ r])
        (auto simp: enc_kind_def kind_ok_def enc_list_def rlp_head_def unat_of_nat)
  next
    case 5
    then obtain j where j: "0 < j" "j \<le> 8" "t = 0xF7 + of_nat j" using u8_tag(4) by blast
    have "\<not> t < 0x80" "\<not> t < 0xB8" "\<not> t < 0xC0" using 5 by (simp_all add: word_less_nat_alt)
    with rk 5 j have rs: "readSize bs (of_nat j) = Inr cs" and k: "k = List" "ts = ucast (of_nat j :: u8) + 1"
      and lt: "\<not> of_nat (length (t # bs)) - (ucast (of_nat j :: u8) + 1) < cs"
      by (auto simp: readKind_def Let_def split: if_splits sum.splits)
    from readKind_tail [OF rs j(1,2) lt len] obtain n c r where n: "cs = of_nat n" "56 \<le> n" "n < 2 ^ 64"
      "bs = be_bytes n @ c @ r" "length c = n" "length (be_bytes n) = j" by blast
    have "unat ts = Suc j" using j(2) unfolding k(2) by (simp add: ucast_of_nat_up unat_word_ariths unat_of_nat)
    then show ?thesis
      using n j k(1) unat_of_nat_u64 [OF n(3)] by (intro exI [of _ c] exI [of _ r])
        (auto simp: enc_kind_def kind_ok_def enc_list_def rlp_head_def)
  qed
qed

lemma Split_inv:
  assumes "Split b = Inr (k, c, r)" and "length b < 2 ^ 64"
  shows "kind_ok (k, c) \<and> b = enc_kind (k, c) @ r"
proof -
  obtain ts cs where rk: "readKind b = Inr (k, ts, cs)" and c: "c = take (unat cs) (drop (unat ts) b)"
    and r: "r = drop (unat ts + unat cs) b"
    using assms(1) by (auto simp: Split_def split: sum.splits)
  obtain t bs where b: "b = t # bs" using rk by (cases b) (auto simp: readKind_def)
  obtain c' r' where e: "b = enc_kind (k, c') @ r'" "kind_ok (k, c')"
      "unat ts + unat cs = length (enc_kind (k, c'))" "unat cs = length c'"
    using readKind_inv rk assms(2) unfolding b by blast
  have "Split b = Inr (k, c', r')"
    using Split_string [of c' r'] Split_list [of c' r'] e(1,2) assms(2)
    by (auto simp: enc_kind_def kind_ok_def split: if_splits) (metis Kind.exhaust)+
  with assms(1) e show ?thesis by simp
qed

definition Split_value :: "bytes \<Rightarrow> ((Kind \<times> bytes) \<times> bytes) option" where
  "Split_value b = (case Split b of Inl _ \<Rightarrow> None | Inr (k, c, r) \<Rightarrow> Some ((k, c), r))"

interpretation raw: canonical_codec enc_kind Split_value kind_ok "\<lambda>b. length b < 2 ^ 64"
proof unfold_locales
  fix x r
  assume ok: "kind_ok x" and len: "length (enc_kind x @ r) < 2 ^ 64"
  show "Split_value (enc_kind x @ r) = Some (x, r)"
    using Split_string [of "snd x" r] Split_list [of "snd x" r] ok len
    by (cases x; cases "fst x") (auto simp: Split_value_def enc_kind_def kind_ok_def split: if_splits)
next
  fix b x r
  assume "length b < 2 ^ 64" and "Split_value b = Some (x, r)"
  then show "kind_ok x \<and> b = enc_kind x @ r"
    using Split_inv [of b "fst x" "snd x" r] by (auto simp: Split_value_def split: sum.splits)
next
  show "enc_kind x \<noteq> []" for x
    by (auto simp: enc_kind_def enc_list_def enc_string_def rlp_head_def)
qed simp

lemma CountValues_loop_step:
  "CountValues_loop b i =
     (if b = [] then Inr i
      else case Split b of Inl e \<Rightarrow> Inl e | Inr (k, c, r) \<Rightarrow> CountValues_loop r (Suc i))"
  by (subst CountValues_loop.simps) (auto simp: Split_def split: sum.splits)

lemma CountValues_loop_concat:
  "list_all kind_ok xs \<Longrightarrow> length (concat (map enc_kind xs)) < 2 ^ 64 \<Longrightarrow>
    CountValues_loop (concat (map enc_kind xs)) i = Inr (i + length xs)"
proof (induction xs arbitrary: i)
  case Nil
  then show ?case by (simp add: CountValues_loop_step)
next
  case (Cons x xs)
  then have "Split_value (enc_kind x @ concat (map enc_kind xs)) = Some (x, concat (map enc_kind xs))"
    by (intro raw.dec_enc) auto
  then have "Split (enc_kind x @ concat (map enc_kind xs)) = Inr (fst x, snd x, concat (map enc_kind xs))"
    by (auto simp: Split_value_def split: sum.splits)
  with Cons raw.enc_ne [of x] show ?case by (subst CountValues_loop_step) simp
qed

lemma CountValues_loop_inv:
  "CountValues_loop b i = Inr n \<Longrightarrow> length b < 2 ^ 64 \<Longrightarrow>
    \<exists>xs. list_all kind_ok xs \<and> n = i + length xs \<and> b = concat (map enc_kind xs)"
proof (induction b arbitrary: i rule: length_induct)
  case (1 b)
  show ?case
  proof (cases "b = []")
    case True
    with 1 show ?thesis by (intro exI [of _ "[]"]) (simp add: CountValues_loop_step)
  next
    case False
    then obtain k c r where s: "Split b = Inr (k, c, r)" "CountValues_loop r (Suc i) = Inr n"
      using 1(2) by (subst (asm) CountValues_loop_step) (auto split: sum.splits)
    have e: "kind_ok (k, c)" "b = enc_kind (k, c) @ r" using Split_inv [OF s(1) 1(3)] by simp_all
    have "length r < length b" using e(2) raw.enc_ne [of "(k, c)"] by (cases "enc_kind (k, c)") auto
    with 1 s(2) obtain xs where "list_all kind_ok xs" "n = Suc i + length xs" "r = concat (map enc_kind xs)"
      by (metis less_trans)
    with e show ?thesis by (intro exI [of _ "(k, c) # xs"]) simp
  qed
qed

text \<open>
  C17: \<open>Split\<close> accepts exactly the canonical encodings: it returns a kind, a content and a rest if and
  only if the input is the reference encoding of that content as a byte, string or list, followed
  by the rest. Over-long headers and strings that should be single bytes are refused.
\<close>

theorem Split_iff:
  assumes "length b < 2 ^ 64"
  shows "Split b = Inr (k, c, r) \<longleftrightarrow> kind_ok (k, c) \<and> b = enc_kind (k, c) @ r"
proof
  assume "kind_ok (k, c) \<and> b = enc_kind (k, c) @ r"
  with raw.dec_enc [of "(k, c)" r] assms show "Split b = Inr (k, c, r)"
    by (auto simp: Split_value_def split: sum.splits)
qed (use Split_inv assms in blast)

theorem Split_iff_witness:
  "Split [0x82, 1, 2, 7] = Inr (String, [1, 2], [7]) \<and> Split [0x81, 5] \<noteq> Inr (String, [5], [])"
  using Split_iff [of "[0x82, 1, 2, 7]" String "[1, 2]" "[7]"] Split_iff [of "[0x81, 5]" String "[5]" "[]"]
  by (simp add: kind_ok_def enc_kind_def enc_string_def rlp_head_def)

text \<open>
  C34: \<open>CountValues\<close> always returns, and returns \<open>n\<close> exactly for the strings that are a sequence of
  \<open>n\<close> canonical encodings; the sequence is unique.
\<close>

theorem CountValues_iff:
  assumes "length b < 2 ^ 64"
  shows "CountValues b = Inr n \<longleftrightarrow>
    (\<exists>!xs. list_all kind_ok xs \<and> length xs = n \<and> b = concat (map enc_kind xs))"
proof
  assume "CountValues b = Inr n"
  then obtain xs where xs: "list_all kind_ok xs" "n = length xs" "b = concat (map enc_kind xs)"
    using CountValues_loop_inv [of b 0 n] assms by (auto simp: CountValues_def)
  then show "\<exists>!xs. list_all kind_ok xs \<and> length xs = n \<and> b = concat (map enc_kind xs)"
    using raw.enc_concat_unique assms by (intro ex1I [of _ xs]) auto
next
  assume "\<exists>!xs. list_all kind_ok xs \<and> length xs = n \<and> b = concat (map enc_kind xs)"
  then show "CountValues b = Inr n"
    using CountValues_loop_concat [of _ 0] assms by (auto simp: CountValues_def)
qed

theorem CountValues_iff_witness:
  "(\<exists>!xs. list_all kind_ok xs \<and> length xs = 2 \<and> [5, 0x82, 1, 2] = concat (map enc_kind xs)) \<and>
   CountValues [5, 0x82, 1, 2] = Inr 2"
proof -
  have s: "Split [5, 0x82, 1, 2] = Inr (Byte, [5], [0x82, 1, 2])" "Split [0x82, 1, 2] = Inr (String, [1, 2], [])"
    by (simp_all add: Split_def readKind_def)
  have "CountValues [5, 0x82, 1, 2] = Inr 2"
    unfolding CountValues_def by (subst CountValues_loop_step, simp add: s)+
  then show ?thesis using CountValues_iff [of "[5, 0x82, 1, 2]" 2] by simp
qed

end
