(* ===== verification/Rlp_Stream.thy ===== *)
theory Rlp_Stream
  imports Rlp_Raw
begin

text \<open>
  The streaming decoder of \<open>rlp/decode.go\<close> over a byte slice. A \<open>Stream\<close> remembers the header of
  the value ahead (\<open>st_kind\<close> is \<open>None\<close> where the code has \<open>-1\<close>), the bytes it may still read and
  the stack of open lists, innermost first, each with position and size. \<open>rlp_typ\<close> is a Go type
  together with the decoder that \<open>makeDecoder\<close> selects for it. Errors keep the value they have
  before \<open>wrapStreamError\<close> adds the type's name.
\<close>

section \<open>Streams\<close>

record stream =
  st_in :: bytes
  st_remaining :: u64
  st_limited :: bool
  st_kind :: "Kind option"
  st_size :: u64
  st_byteval :: u8
  st_kinderr :: "rlp_error option"
  st_stack :: "(u64 \<times> u64) list"

type_synonym 'a sres = "(rlp_error + 'a) \<times> stream"

definition sbind :: "'a sres \<Rightarrow> ('a \<Rightarrow> stream \<Rightarrow> 'b sres) \<Rightarrow> 'b sres" where
  "sbind m f = (case m of (Inl e, s) \<Rightarrow> (Inl e, s) | (Inr x, s) \<Rightarrow> f x s)"

definition willRead :: "u64 \<Rightarrow> stream \<Rightarrow> unit sres" where
  "willRead n s =
     (let s0 = s\<lparr>st_kind := None\<rparr>;
          (overflow, s1) =
            (case st_stack s0 of
               [] \<Rightarrow> (False, s0)
             | (pos, sz) # stack \<Rightarrow>
                 if sz - pos < n then (True, s0) else (False, s0\<lparr>st_stack := (pos + n, sz) # stack\<rparr>))
      in if overflow then (Inl ErrElemTooLarge, s1)
         else if st_limited s1 then
           (if st_remaining s1 < n then (Inl ErrValueTooLarge, s1)
            else (Inr (), s1\<lparr>st_remaining := st_remaining s1 - n\<rparr>))
         else (Inr (), s1))"

definition readByte :: "stream \<Rightarrow> u8 sres" where
  "readByte s = sbind (willRead 1 s) (\<lambda>_ s1.
     case st_in s1 of [] \<Rightarrow> (Inl ErrUnexpectedEOF, s1) | b # bs \<Rightarrow> (Inr b, s1\<lparr>st_in := bs\<rparr>))"

text \<open>\<open>readFull\<close> into a buffer of \<open>n\<close> bytes.\<close>

definition readFull :: "nat \<Rightarrow> stream \<Rightarrow> bytes sres" where
  "readFull n s = sbind (willRead (of_nat n) s) (\<lambda>_ s1.
     if length (st_in s1) < n then (Inl ErrUnexpectedEOF, s1\<lparr>st_in := []\<rparr>)
     else (Inr (take n (st_in s1)), s1\<lparr>st_in := drop n (st_in s1)\<rparr>))"

definition readUint :: "nat \<Rightarrow> stream \<Rightarrow> u64 sres" where
  "readUint sz s =
     (if sz = 0 then (Inr 0, s\<lparr>st_kind := None\<rparr>)
      else if sz = 1 then sbind (readByte s) (\<lambda>b s1. (Inr (ucast b), s1))
      else sbind (readFull sz s) (\<lambda>buf s1.
        if buf ! 0 = 0 then (Inl ErrCanonSize, s1) else (Inr (of_nat (be_val buf)), s1)))"

text \<open>
  \<open>readKind\<close> returns kind and size together with an error; the error of a missing byte is
  \<open>io.EOF\<close> outside every list.
\<close>

definition readLong :: "Kind \<Rightarrow> nat \<Rightarrow> stream \<Rightarrow> (Kind \<times> u64 \<times> rlp_error option) \<times> stream" where
  "readLong k n s =
     (case readUint n s of
        (Inl e, s1) \<Rightarrow> ((k, 0, Some e), s1)
      | (Inr sz, s1) \<Rightarrow> ((k, sz, if sz < 56 then Some ErrCanonSize else None), s1))"

definition stream_readKind :: "stream \<Rightarrow> (Kind \<times> u64 \<times> rlp_error option) \<times> stream" where
  "stream_readKind s =
     (case readByte s of
        (Inl e, s1) \<Rightarrow>
          ((Byte, 0, Some (if st_stack s1 = [] \<and> (e = ErrUnexpectedEOF \<or> e = ErrValueTooLarge) then EOF else e)), s1)
      | (Inr b, s1) \<Rightarrow>
          (let s2 = s1\<lparr>st_byteval := 0\<rparr> in
           if b < 0x80 then ((Byte, 0, None), s2\<lparr>st_byteval := b\<rparr>)
           else if b < 0xB8 then ((String, ucast (b - 0x80), None), s2)
           else if b < 0xC0 then readLong String (unat (b - 0xB7)) s2
           else if b < 0xF8 then ((List, ucast (b - 0xC0), None), s2)
           else readLong List (unat (b - 0xF7)) s2))"

definition stream_Kind :: "stream \<Rightarrow> (Kind \<times> u64) sres" where
  "stream_Kind s =
     (let (eol, s1) =
        (if st_kind s = None then
           (let s0 = s\<lparr>st_kinderr := None\<rparr> in
            if (case st_stack s0 of [] \<Rightarrow> False | (pos, sz) # _ \<Rightarrow> pos = sz) then (True, s0)
            else
              let ((k, sz, err), s1) = stream_readKind s0;
                  s2 = s1\<lparr>st_kind := Some k, st_size := sz, st_kinderr := err\<rparr>;
                  tooLarge = (case st_stack s2 of
                      [] \<Rightarrow> if st_limited s2 \<and> st_remaining s2 < sz then Some ErrValueTooLarge else None
                    | (pos, tsz) # _ \<Rightarrow> if tsz - pos < sz then Some ErrElemTooLarge else None)
              in (False, if err = None then s2\<lparr>st_kinderr := tooLarge\<rparr> else s2))
         else (False, s))
      in if eol then (Inl EOL, s1)
         else case st_kinderr s1 of
           Some e \<Rightarrow> (Inl e, s1)
         | None \<Rightarrow> (Inr (the (st_kind s1), st_size s1), s1))"

section \<open>Reading values\<close>

definition stream_Bytes :: "stream \<Rightarrow> bytes sres" where
  "stream_Bytes s = sbind (stream_Kind s) (\<lambda>(k, sz) s1.
     case k of
       Byte \<Rightarrow> (Inr [st_byteval s1], s1\<lparr>st_kind := None\<rparr>)
     | String \<Rightarrow> sbind (readFull (unat sz) s1) (\<lambda>b s2.
         if sz = 1 \<and> b ! 0 < 128 then (Inl ErrCanonSize, s2) else (Inr b, s2))
     | List \<Rightarrow> (Inl ErrExpectedString, s1))"

definition stream_Raw :: "stream \<Rightarrow> bytes sres" where
  "stream_Raw s = sbind (stream_Kind s) (\<lambda>(k, sz) s1.
     if k = Byte then (Inr [st_byteval s1], s1\<lparr>st_kind := None\<rparr>)
     else sbind (readFull (unat sz) s1) (\<lambda>b s2.
       case puthead (replicate (headsize sz) 0 @ b)
              (if k = String then 0x80 else 0xC0) (if k = String then 0xB7 else 0xF7) sz of
         Some (buf, _) \<Rightarrow> (Inr buf, s2)
       | None \<Rightarrow> (Inr b, s2)))"

definition stream_uint :: "nat \<Rightarrow> stream \<Rightarrow> u64 sres" where
  "stream_uint maxbits s = sbind (stream_Kind s) (\<lambda>(k, sz) s1.
     case k of
       Byte \<Rightarrow>
         if st_byteval s1 = 0 then (Inl ErrCanonInt, s1)
         else (Inr (ucast (st_byteval s1)), s1\<lparr>st_kind := None\<rparr>)
     | String \<Rightarrow>
         if of_nat (maxbits div 8) < sz then (Inl errUintOverflow, s1)
         else (case readUint (unat (ucast sz :: u8)) s1 of
             (Inl e, s2) \<Rightarrow> (Inl (if e = ErrCanonSize then ErrCanonInt else e), s2)
           | (Inr v, s2) \<Rightarrow> if 0 < sz \<and> v < 128 then (Inl ErrCanonSize, s2) else (Inr v, s2))
     | List \<Rightarrow> (Inl ErrExpectedString, s1))"

definition stream_Bool :: "stream \<Rightarrow> bool sres" where
  "stream_Bool s = sbind (stream_uint 8 s) (\<lambda>num s1.
     if num = 0 then (Inr False, s1) else if num = 1 then (Inr True, s1) else (Inl ErrInvalidBool, s1))"

definition stream_List :: "stream \<Rightarrow> u64 sres" where
  "stream_List s = sbind (stream_Kind s) (\<lambda>(k, sz) s1.
     if k \<noteq> List then (Inl ErrExpectedList, s1)
     else (Inr sz, s1\<lparr>st_stack := (0, sz) # st_stack s1, st_kind := None, st_size := 0\<rparr>))"

definition stream_ListEnd :: "stream \<Rightarrow> unit sres" where
  "stream_ListEnd s =
     (case st_stack s of
        [] \<Rightarrow> (Inl errNotInList, s)
      | (pos, sz) # stack \<Rightarrow>
          if pos \<noteq> sz then (Inl errNotAtEOL, s)
          else
            (Inr (), s\<lparr>st_stack := (case stack of [] \<Rightarrow> [] | (p, z) # st \<Rightarrow> (p + sz, z) # st),
               st_kind := None, st_size := 0\<rparr>))"

text \<open>\<open>Reset\<close> on a \<open>bytes.Reader\<close>: the limit is given, or discovered.\<close>

definition stream_Reset :: "bytes \<Rightarrow> u64 \<Rightarrow> stream" where
  "stream_Reset r inputLimit =
     \<lparr>st_in = r, st_remaining = (if 0 < inputLimit then inputLimit else of_nat (length r)),
      st_limited = True, st_kind = None, st_size = 0, st_byteval = 0, st_kinderr = None, st_stack = []\<rparr>"

section \<open>Decoders\<close>

datatype rlp_typ =
  TRaw
| TUint nat
| TBool
| TBigPtr
| TBig
| TBytes
| TByteArray nat
| TString
| TInterface
| TSlice bool rlp_typ
| TArray nat rlp_typ
| TStruct "rlp_typ list"
| TPtr Kind rlp_typ
| TNilPtr Kind rlp_typ

definition decodeBigInt :: "stream \<Rightarrow> int sres" where
  "decodeBigInt s = sbind (stream_Bytes s) (\<lambda>b s1.
     if b \<noteq> [] \<and> b ! 0 = 0 then (Inl ErrCanonInt, s1) else (Inr (big_SetBytes b), s1))"

text \<open>
  \<open>decodeByteArray\<close>. In the single-byte case the error of \<open>s.Uint()\<close> is dropped, and with it
  the fact that the byte was not consumed.
\<close>

definition decodeByteArray :: "nat \<Rightarrow> stream \<Rightarrow> bytes sres" where
  "decodeByteArray vlen s = sbind (stream_Kind s) (\<lambda>(k, sz) s1.
     case k of
       Byte \<Rightarrow>
         if vlen = 0 then (Inl ErrStringTooLong, s1)
         else if 1 < vlen then (Inl ErrStringTooShort, s1)
         else (case stream_uint 64 s1 of
             (Inl _, s2) \<Rightarrow> (Inr [0], s2)
           | (Inr bv, s2) \<Rightarrow> (Inr [ucast bv], s2))
     | String \<Rightarrow>
         if of_nat vlen < sz then (Inl ErrStringTooLong, s1)
         else if sz < of_nat vlen then (Inl ErrStringTooShort, s1)
         else sbind (readFull vlen s1) (\<lambda>b s2.
           if sz = 1 \<and> b ! 0 < 128 then (Inl ErrCanonSize, s2) else (Inr b, s2))
     | List \<Rightarrow> (Inl ErrExpectedString, s1))"

text \<open>
  The decoders, with a bound on the number of nested and repeated calls; \<open>None\<close> means the bound
  was too small.
\<close>

definition dbind :: "'a sres option \<Rightarrow> ('a \<Rightarrow> stream \<Rightarrow> 'b sres option) \<Rightarrow> 'b sres option" where
  "dbind m f = (case m of None \<Rightarrow> None | Some (Inl e, s) \<Rightarrow> Some (Inl e, s) | Some (Inr x, s) \<Rightarrow> f x s)"

fun decode :: "nat \<Rightarrow> rlp_typ \<Rightarrow> stream \<Rightarrow> rlp_val sres option"
  and decodeListSlice :: "nat \<Rightarrow> rlp_typ \<Rightarrow> stream \<Rightarrow> rlp_val list sres option"
  and decodeSliceElems :: "nat \<Rightarrow> rlp_typ \<Rightarrow> stream \<Rightarrow> rlp_val list sres option"
  and decodeArrayElems :: "nat \<Rightarrow> nat \<Rightarrow> rlp_typ \<Rightarrow> stream \<Rightarrow> rlp_val list sres option"
  and decodeFields :: "nat \<Rightarrow> rlp_typ list \<Rightarrow> stream \<Rightarrow> rlp_val list sres option" where
  "decode 0 t s = None"
| "decode (Suc n) TRaw s = Some (sbind (stream_Raw s) (\<lambda>b s1. (Inr (VRaw b), s1)))"
| "decode (Suc n) (TUint bits) s = Some (sbind (stream_uint bits s) (\<lambda>i s1. (Inr (VUint i), s1)))"
| "decode (Suc n) TBool s = Some (sbind (stream_Bool s) (\<lambda>b s1. (Inr (VBool b), s1)))"
| "decode (Suc n) TBigPtr s = Some (sbind (decodeBigInt s) (\<lambda>i s1. (Inr (VBigPtr (Some i)), s1)))"
| "decode (Suc n) TBig s = Some (sbind (decodeBigInt s) (\<lambda>i s1. (Inr (VBig i), s1)))"
| "decode (Suc n) TBytes s = Some (sbind (stream_Bytes s) (\<lambda>b s1. (Inr (VBytes b), s1)))"
| "decode (Suc n) (TByteArray len) s =
     Some (sbind (decodeByteArray len s) (\<lambda>b s1. (Inr (VByteArray b), s1)))"
| "decode (Suc n) TString s = Some (sbind (stream_Bytes s) (\<lambda>b s1. (Inr (VString b), s1)))"
| "decode (Suc n) TInterface s = dbind (Some (stream_Kind s)) (\<lambda>(k, _) s1.
     if k = List then
       dbind (decodeListSlice n TInterface s1) (\<lambda>vs s2. Some (Inr (VInterface (Some (VSlice False vs))), s2))
     else dbind (Some (stream_Bytes s1)) (\<lambda>b s2. Some (Inr (VInterface (Some (VBytes b))), s2)))"
| "decode (Suc n) (TSlice tail t) s =
     dbind (if tail then decodeSliceElems n t s else decodeListSlice n t s)
       (\<lambda>vs s1. Some (Inr (VSlice tail vs), s1))"
| "decode (Suc n) (TArray len t) s = dbind (Some (stream_List s)) (\<lambda>_ s1.
     dbind (decodeArrayElems n len t s1) (\<lambda>vs s2.
     dbind (Some (stream_ListEnd s2)) (\<lambda>_ s3. Some (Inr (VSlice False vs), s3))))"
| "decode (Suc n) (TStruct ts) s = dbind (Some (stream_List s)) (\<lambda>_ s1.
     dbind (decodeFields n ts s1) (\<lambda>vs s2.
     dbind (Some (stream_ListEnd s2)) (\<lambda>_ s3. Some (Inr (VStruct vs), s3))))"
| "decode (Suc n) (TPtr nilKind t) s = dbind (decode n t s) (\<lambda>v s1. Some (Inr (VPtr nilKind (Some v)), s1))"
| "decode (Suc n) (TNilPtr nilKind t) s = dbind (Some (stream_Kind s)) (\<lambda>(k, sz) s1.
     if k \<noteq> Byte \<and> sz = 0 then
       (if k \<noteq> nilKind then Some (Inl ErrWrongKindOfEmpty, s1)
        else Some (Inr (VPtr nilKind None), s1\<lparr>st_kind := None\<rparr>))
     else dbind (decode n t s1) (\<lambda>v s2. Some (Inr (VPtr nilKind (Some v)), s2)))"
| "decodeListSlice 0 t s = None"
| "decodeListSlice (Suc n) t s = dbind (Some (stream_List s)) (\<lambda>sz s1.
     if sz = 0 then dbind (Some (stream_ListEnd s1)) (\<lambda>_ s2. Some (Inr [], s2))
     else dbind (decodeSliceElems n t s1) (\<lambda>vs s2.
       dbind (Some (stream_ListEnd s2)) (\<lambda>_ s3. Some (Inr vs, s3))))"
| "decodeSliceElems 0 t s = None"
| "decodeSliceElems (Suc n) t s =
     (case decode n t s of
        None \<Rightarrow> None
      | Some (Inl e, s1) \<Rightarrow> if e = EOL then Some (Inr [], s1) else Some (Inl e, s1)
      | Some (Inr v, s1) \<Rightarrow> dbind (decodeSliceElems n t s1) (\<lambda>vs s2. Some (Inr (v # vs), s2)))"
| "decodeArrayElems 0 len t s = None"
| "decodeArrayElems (Suc n) len t s =
     (if len = 0 then Some (Inr [], s)
      else
        (case decode n t s of
           None \<Rightarrow> None
         | Some (Inl e, s1) \<Rightarrow> Some (Inl (if e = EOL then ErrTooFewElements else e), s1)
         | Some (Inr v, s1) \<Rightarrow>
             dbind (decodeArrayElems n (len - 1) t s1) (\<lambda>vs s2. Some (Inr (v # vs), s2))))"
| "decodeFields 0 ts s = None"
| "decodeFields (Suc n) [] s = Some (Inr [], s)"
| "decodeFields (Suc n) (t # ts) s =
     (case decode n t s of
        None \<Rightarrow> None
      | Some (Inl e, s1) \<Rightarrow> Some (Inl (if e = EOL then ErrTooFewElements else e), s1)
      | Some (Inr v, s1) \<Rightarrow> dbind (decodeFields n ts s1) (\<lambda>vs s2. Some (Inr (v # vs), s2)))"

text \<open>\<open>Decode\<close> and \<open>DecodeBytes\<close>: the latter refuses trailing bytes.\<close>

definition Decode :: "nat \<Rightarrow> bytes \<Rightarrow> rlp_typ \<Rightarrow> (rlp_error + rlp_val) option" where
  "Decode n r t = map_option fst (decode n t (stream_Reset r 0))"

definition DecodeBytes :: "nat \<Rightarrow> bytes \<Rightarrow> rlp_typ \<Rightarrow> (rlp_error + rlp_val) option" where
  "DecodeBytes n b t =
     (case decode n t (stream_Reset b (of_nat (length b))) of
        None \<Rightarrow> None
      | Some (Inl e, s) \<Rightarrow> Some (Inl e)
      | Some (Inr v, s) \<Rightarrow> if st_in s \<noteq> [] then Some (Inl ErrMoreThanOneValue) else Some (Inr v))"

end
