(* ===== verification/Rlp_Moves.thy ===== *)
theory Rlp_Moves
  imports Rlp_Stream
begin

text \<open>
  How the operations of \<open>rlp/decode.go\<close> move a stream: every accepted header is the canonical one,
  and each read consumes exactly the bytes of the value it returns.
\<close>

section \<open>How a stream moves\<close>

text \<open>
  A well-formed stream over a byte slice, the room left in the innermost list, and the effect of
  reading \<open>n\<close> bytes.
\<close>

fun stack_ok :: "nat \<Rightarrow> (u64 \<times> u64) list \<Rightarrow> bool" where
  "stack_ok n [] \<longleftrightarrow> True"
| "stack_ok n ((pos, sz) # st) \<longleftrightarrow> unat pos \<le> unat sz \<and> unat sz - unat pos \<le> n \<and>
     (case st of [] \<Rightarrow> True | (p, z) # _ \<Rightarrow> unat sz \<le> unat z - unat p) \<and> stack_ok (n + unat pos) st"

definition stream_ok :: "stream \<Rightarrow> bool" where
  "stream_ok s \<longleftrightarrow> st_limited s \<and> st_remaining s = of_nat (length (st_in s)) \<and> length (st_in s) < 2 ^ 64 \<and>
     stack_ok (length (st_in s)) (st_stack s)"

definition room :: "stream \<Rightarrow> nat" where
  "room s = (case st_stack s of [] \<Rightarrow> length (st_in s) | (pos, sz) # _ \<Rightarrow> unat sz - unat pos)"

definition bump :: "nat \<Rightarrow> (u64 \<times> u64) list \<Rightarrow> (u64 \<times> u64) list" where
  "bump n stack = (case stack of [] \<Rightarrow> [] | (pos, sz) # st \<Rightarrow> (pos + of_nat n, sz) # st)"

definition moved :: "nat \<Rightarrow> stream \<Rightarrow> stream \<Rightarrow> bool" where
  "moved n s s' \<longleftrightarrow> n \<le> room s \<and> st_in s' = drop n (st_in s) \<and> st_limited s' \<and>
     st_remaining s' = of_nat (length (st_in s) - n) \<and> st_stack s' = bump n (st_stack s)"

lemma room_update [simp]:
  "room (s\<lparr>st_kinderr := a\<rparr>) = room s" "room (s\<lparr>st_kind := b\<rparr>) = room s" "room (s\<lparr>st_size := c\<rparr>) = room s"
  "room (s\<lparr>st_byteval := d\<rparr>) = room s" "room (s\<lparr>st_remaining := e\<rparr>) = room s"
  by (simp_all add: room_def split: list.split)

lemma unat_add_le:
  fixes pos sz :: u64
  assumes "n \<le> unat sz - unat pos" and "unat pos \<le> unat sz"
  shows "unat (pos + of_nat n) = unat pos + n"
proof -
  have "unat pos + n < 2 ^ 64"
    using assms unsigned_less [of sz, where ?'a = nat] by simp
  then show ?thesis by (simp add: unat_word_ariths unat_of_nat)
qed

lemma bump_add: "bump m (bump n st) = bump (n + m) st"
  by (simp add: bump_def split: list.splits prod.splits)

lemma bump_Nil [simp]: "bump n [] = []"
  by (simp add: bump_def)

lemma bump_eq_Nil [simp]: "bump n st = [] \<longleftrightarrow> st = []"
  by (simp add: bump_def split: list.splits prod.splits)

lemma stack_ok_bump:
  "stack_ok n ((pos, sz) # st) \<Longrightarrow> m \<le> unat sz - unat pos \<Longrightarrow> stack_ok (n - m) (bump m ((pos, sz) # st))"
  using unat_add_le [of m sz pos] by (auto simp: bump_def)

lemma room_le: "stream_ok s \<Longrightarrow> room s \<le> length (st_in s)"
  by (auto simp: stream_ok_def room_def split: list.splits)

lemma moved_ok:
  assumes "moved n s s'" and "stream_ok s"
  shows "stream_ok s'" and "room s' = room s - n"
proof -
  have n: "n \<le> length (st_in s)" using assms room_le [of s] by (simp add: moved_def)
  have r: "room s = unat sz - unat pos" if "st_stack s = (pos, sz) # st" for pos sz st
    using that by (simp add: room_def)
  show "stream_ok s'"
    using assms n r stack_ok_bump [of "length (st_in s)" _ _ _ n]
    by (cases "st_stack s") (auto simp: moved_def stream_ok_def)
  show "room s' = room s - n"
  proof (cases "st_stack s")
    case (Cons p st)
    obtain pos sz where p: "p = (pos, sz)" by (cases p)
    have "unat (pos + of_nat n) = unat pos + n"
      using assms Cons p by (intro unat_add_le [of n sz]) (auto simp: moved_def room_def stream_ok_def)
    then show ?thesis
      using assms Cons p by (simp add: moved_def room_def bump_def)
  qed (use assms in \<open>simp add: moved_def room_def bump_def\<close>)
qed

lemma moved_trans:
  assumes "moved n s s1" and "moved m s1 s2" and "stream_ok s"
  shows "moved (n + m) s s2"
  using assms moved_ok [OF assms(1,3)] by (auto simp: moved_def bump_add add.commute)

lemma moved_0: "stream_ok s \<Longrightarrow> moved 0 s s"
  by (auto simp: moved_def stream_ok_def bump_def split: list.splits)

lemma moved_same_view:
  "moved n s s' \<Longrightarrow> st_in t = st_in s' \<Longrightarrow> st_limited t = st_limited s' \<Longrightarrow>
    st_remaining t = st_remaining s' \<Longrightarrow> st_stack t = st_stack s' \<Longrightarrow> moved n s t"
  by (simp add: moved_def)

section \<open>Reading bytes\<close>

definition read_state :: "nat \<Rightarrow> stream \<Rightarrow> stream" where
  "read_state n s = s\<lparr>st_kind := None, st_stack := bump n (st_stack s),
     st_remaining := of_nat (length (st_in s) - n)\<rparr>"

lemma of_nat_u64_le_iff: "n < 2 ^ 64 \<Longrightarrow> (x :: u64) < of_nat n \<longleftrightarrow> unat x < n"
  by (simp add: word_less_nat_alt unat_of_nat)

lemma willRead_iff:
  assumes "stream_ok s" and "n < 2 ^ 64"
  shows "willRead (of_nat n) s =
    (if n \<le> room s then (Inr (), read_state n s)
     else if st_stack s \<noteq> [] then (Inl ErrElemTooLarge, s\<lparr>st_kind := None\<rparr>)
     else (Inl ErrValueTooLarge, s\<lparr>st_kind := None\<rparr>))"
proof -
  have sub: "unat (sz - pos) = unat sz - unat pos" if "unat pos \<le> unat sz" for sz pos :: u64
    using that by (simp add: unat_sub word_le_nat_alt)
  have rem: "(of_nat (length (st_in s)) - of_nat n :: u64) = of_nat (length (st_in s) - n)" if "n \<le> length (st_in s)"
    using that by (simp add: of_nat_diff)
  have lt: "st_remaining s < (of_nat n :: u64) \<longleftrightarrow> length (st_in s) < n"
    using assms by (simp add: stream_ok_def of_nat_u64_less)
  show ?thesis
  proof (cases "st_stack s")
    case Nil
    then show ?thesis
      using assms(1) lt rem by (simp add: willRead_def stream_ok_def room_def bump_def read_state_def not_less)
  next
    case (Cons p st)
    obtain pos sz where p: "p = (pos, sz)" by (cases p)
    have "sz - pos < of_nat n \<longleftrightarrow> unat sz - unat pos < n"
      using assms Cons p sub [of pos sz] by (simp add: stream_ok_def of_nat_u64_le_iff)
    then show ?thesis
      using assms(1) lt rem Cons p room_le [OF assms(1)]
      by (simp add: willRead_def stream_ok_def room_def bump_def read_state_def not_less)
  qed
qed

lemma moved_read_state:
  "stream_ok s \<Longrightarrow> n \<le> room s \<Longrightarrow>
    moved n s ((read_state n s)\<lparr>st_in := drop n (st_in s)\<rparr>)"
  by (auto simp: moved_def stream_ok_def read_state_def)

lemma readFull_iff:
  assumes "stream_ok s" and "n < 2 ^ 64"
  shows "fst (readFull n s) = Inr b \<longleftrightarrow> n \<le> room s \<and> b = take n (st_in s)"
    and "n \<le> room s \<Longrightarrow>
      readFull n s = (Inr (take n (st_in s)), (read_state n s)\<lparr>st_in := drop n (st_in s)\<rparr>)"
  using assms room_le [OF assms(1)] by (auto simp: readFull_def willRead_iff sbind_def read_state_def)

lemma readByte_iff:
  assumes "stream_ok s"
  shows "fst (readByte s) = Inr b \<longleftrightarrow> 1 \<le> room s \<and> (\<exists>bs. st_in s = b # bs)"
    and "1 \<le> room s \<Longrightarrow> st_in s = b # bs \<Longrightarrow> readByte s = (Inr b, (read_state 1 s)\<lparr>st_in := bs\<rparr>)"
  using willRead_iff [OF assms, of 1]
  by (auto simp: readByte_def sbind_def read_state_def split: list.splits)

lemma ucast_u8_u64: "(ucast (b :: u8) :: u64) = of_nat (unat b)"
  by (simp add: word_unat_eq_iff unsigned_ucast_eq unat_of_nat take_bit_eq_mod)

lemma readUint_ok:
  assumes "stream_ok s" and "0 < k" and "k \<le> 8" and "k \<le> room s" and "k = 1 \<or> hd (st_in s) \<noteq> 0"
  shows "readUint k s = (Inr (of_nat (be_val (take k (st_in s)))), (read_state k s)\<lparr>st_in := drop k (st_in s)\<rparr>)"
proof -
  have len: "k \<le> length (st_in s)" using assms room_le [of s] by simp
  show ?thesis
  proof (cases "k = 1")
    case True
    then obtain b bs where "st_in s = b # bs" using len by (cases "st_in s") auto
    with True assms readByte_iff(2) [of s b bs] show ?thesis
      by (simp add: readUint_def sbind_def)
  next
    case False
    then obtain b bs where "st_in s = b # bs" using len assms(2) by (cases "st_in s") auto
    with False assms readFull_iff(2) [of s k] show ?thesis
      by (cases k) (auto simp: readUint_def sbind_def)
  qed
qed

lemma readUint_inv:
  assumes "stream_ok s" and "0 < k" and "k \<le> 8" and "fst (readUint k s) = Inr v"
  shows "k \<le> room s \<and> (k = 1 \<or> hd (st_in s) \<noteq> 0)"
proof (cases "k = 1")
  case True
  with assms(4) have "\<exists>b. fst (readByte s) = Inr b"
    by (auto simp: readUint_def sbind_def split: sum.splits prod.splits)
  with True assms(1) show ?thesis by (auto simp: readByte_iff(1))
next
  case False
  with assms(2,4) have r: "\<exists>b. fst (readFull k s) = Inr b \<and> b ! 0 \<noteq> 0"
    by (auto simp: readUint_def sbind_def split: sum.splits prod.splits if_splits)
  then have "k \<le> room s \<and> take k (st_in s) ! 0 \<noteq> 0"
    using assms(1,3) by (auto simp: readFull_iff(1))
  moreover from this have "st_in s \<noteq> []" using room_le [OF assms(1)] assms(2) by auto
  ultimately show ?thesis using assms(2) by (simp add: hd_conv_nth)
qed

section \<open>The value ahead\<close>

definition head_of :: "Kind \<Rightarrow> nat \<Rightarrow> bytes" where
  "head_of k n = (if k = List then rlp_head 0xC0 0xF7 n else rlp_head 0x80 0xB7 n)"

lemma enc_kind_head: "kind_ok (k, c) \<Longrightarrow> enc_kind (k, c) = (if k = Byte then c else head_of k (length c) @ c)"
  by (cases k) (auto simp: enc_kind_def kind_ok_def head_of_def enc_list_def enc_string_def)

text \<open>A header was read: what the stream remembers.\<close>

definition headed :: "stream \<Rightarrow> Kind \<Rightarrow> u64 \<Rightarrow> stream \<Rightarrow> bool" where
  "headed s k sz s1 \<longleftrightarrow> st_kind s1 = Some k \<and> st_kinderr s1 = None \<and> st_size s1 = sz \<and>
     (if k = Byte then sz = 0 \<and> (\<exists>bs. st_in s = st_byteval s1 # bs) \<and> st_byteval s1 < 0x80 \<and> moved 1 s s1
      else (\<exists>bs. st_in s = head_of k (unat sz) @ bs) \<and> moved (length (head_of k (unat sz))) s s1 \<and>
        unat sz \<le> room s1)"

lemma head_of_cases:
  assumes "k \<noteq> Byte"
  obtains "n < 56" "head_of k n = [(if k = List then 0xC0 else 0x80) + of_nat n]"
  | "56 \<le> n" "head_of k n = ((if k = List then 0xF7 else 0xB7) + of_nat (length (be_bytes n))) # be_bytes n"
  using that by (cases "n < 56") (auto simp: head_of_def rlp_head_def)

text \<open>The first byte of a header decides the kind.\<close>

lemma stream_readKind_ok:
  assumes ok: "stream_ok s" and k: "k \<noteq> Byte" and s: "st_in s = head_of k n @ bs" and n: "n < 2 ^ 64"
    and room: "length (head_of k n) \<le> room s"
  shows "\<exists>s1. stream_readKind s = ((k, of_nat n, None), s1) \<and> moved (length (head_of k n)) s s1"
proof (cases rule: head_of_cases [OF k, of n])
  case 1
  let ?t = "(if k = List then 0xC0 else 0x80) + of_nat n :: u8"
  have rb: "readByte s = (Inr ?t, (read_state 1 s)\<lparr>st_in := bs\<rparr>)"
    using readByte_iff(2) [OF ok, of ?t bs] 1 s room by simp
  have mv: "moved 1 s ((read_state 1 s)\<lparr>st_in := drop 1 (st_in s)\<rparr>)"
    using 1 room by (intro moved_read_state [OF ok]) simp
  have sub: "(0x80 + of_nat n :: u8) - 0x80 = of_nat n" "(0xC0 + of_nat n :: u8) - 0xC0 = of_nat n" by simp_all
  show ?thesis
    using k 1 mv unat_tag(1,2) [OF 1(1)] s
    by (cases k) (auto simp: stream_readKind_def rb word_less_nat_alt sub ucast_of_nat_up Let_def intro: moved_same_view)
next
  case 2
  let ?j = "length (be_bytes n)" and ?t = "(if k = List then 0xF7 else 0xB7) + of_nat (length (be_bytes n)) :: u8"
  have j: "0 < ?j" "?j \<le> 8" using 2(1) n by (auto simp: length_be_bytes_le)
  let ?s1 = "(read_state 1 s)\<lparr>st_in := be_bytes n @ bs, st_byteval := 0\<rparr>"
  have rb: "readByte s = (Inr ?t, (read_state 1 s)\<lparr>st_in := be_bytes n @ bs\<rparr>)"
    using readByte_iff(2) [OF ok, of ?t "be_bytes n @ bs"] 2 s room by simp
  have "moved 1 s ((read_state 1 s)\<lparr>st_in := drop 1 (st_in s)\<rparr>)"
    using 2 room by (intro moved_read_state [OF ok]) simp
  then have mv: "moved 1 s ?s1" using 2 s by (auto intro: moved_same_view)
  have ok1: "stream_ok ?s1" and room1: "?j \<le> room ?s1"
    using moved_ok [OF mv ok] room 2 by simp_all
  have ru: "readUint ?j ?s1 = (Inr (of_nat n), (read_state ?j ?s1)\<lparr>st_in := drop ?j (st_in ?s1)\<rparr>)"
    using readUint_ok [OF ok1 j room1] hd_be_bytes [of n] 2(1) by simp
  have mv2: "moved ?j ?s1 ((read_state ?j ?s1)\<lparr>st_in := drop ?j (st_in ?s1)\<rparr>)"
    by (rule moved_read_state [OF ok1 room1])
  have lt: "\<not> unat (of_nat n :: u64) < 56" using 2(1) unat_of_nat_u64 [OF n] by simp
  have sub: "unat (of_nat ?j :: u8) = ?j" using j by (simp add: unat_of_nat)
  have "stream_readKind s = ((k, of_nat n, None), (read_state ?j ?s1)\<lparr>st_in := drop ?j (st_in ?s1)\<rparr>)"
    using k unat_tag(3,4) [OF j(2)] j
    by (cases k) (simp_all add: stream_readKind_def rb word_less_nat_alt sub readLong_def ru [simplified] lt Let_def)
  then show ?thesis using moved_trans [OF mv mv2 ok] 2(2) by auto
qed

lemma room_pos_not_eol:
  "stream_ok s \<Longrightarrow> 0 < room s \<Longrightarrow> \<not> (case st_stack s of [] \<Rightarrow> False | (pos, sz) # _ \<Rightarrow> pos = sz)"
  by (auto simp: room_def split: list.splits)

lemma moved_stack_check:
  assumes "moved n s s1" and "stream_ok s" and "m < 2 ^ 64"
  shows "(case st_stack s1 of
      [] \<Rightarrow> if st_limited s1 \<and> st_remaining s1 < of_nat m then Some ErrValueTooLarge else None
    | (pos, tsz) # _ \<Rightarrow> if tsz - pos < of_nat m then Some ErrElemTooLarge else None) = None \<longleftrightarrow> m \<le> room s1"
proof -
  have ok: "stream_ok s1" using moved_ok [OF assms(1,2)] by simp
  show ?thesis
  proof (cases "st_stack s1")
    case Nil
    then show ?thesis
      using ok assms(3) by (auto simp: stream_ok_def room_def of_nat_u64_less split: if_splits)
  next
    case (Cons p st)
    obtain pos sz where p: "p = (pos, sz)" by (cases p)
    have "unat pos \<le> unat sz" using ok Cons p by (simp add: stream_ok_def)
    then have "unat (sz - pos) = unat sz - unat pos" by (simp add: unat_sub word_le_nat_alt)
    then show ?thesis
      using Cons p assms(3) by (auto simp: room_def of_nat_u64_le_iff split: if_splits)
  qed
qed

lemma stream_Kind_head:
  assumes ok: "stream_ok s" and fresh: "st_kind s = None" and k: "k \<noteq> Byte"
    and s: "st_in s = head_of k n @ bs" and n: "n < 2 ^ 64" and room: "length (head_of k n) + n \<le> room s"
  shows "\<exists>s1. stream_Kind s = (Inr (k, of_nat n), s1) \<and> headed s k (of_nat n) s1"
proof -
  let ?s0 = "s\<lparr>st_kinderr := None\<rparr>"
  have ok0: "stream_ok ?s0" and room0: "room ?s0 = room s" using ok by (simp_all add: stream_ok_def)
  have h: "0 < length (head_of k n)" by (simp add: head_of_def rlp_head_def)
  obtain s1 where rk: "stream_readKind ?s0 = ((k, of_nat n, None), s1)" "moved (length (head_of k n)) ?s0 s1"
    using stream_readKind_ok [OF ok0 k, of n bs] s n room room0 by auto
  let ?s2 = "s1\<lparr>st_kind := Some k, st_size := of_nat n, st_kinderr := None\<rparr>"
  have mv: "moved (length (head_of k n)) s ?s2" using rk(2) by (simp add: moved_def)
  have r1: "n \<le> room ?s2" using moved_ok(2) [OF mv ok] room by simp
  note chk = moved_stack_check [OF mv ok n]
  have "stream_Kind s = (Inr (k, of_nat n), ?s2)"
    using fresh room_pos_not_eol [OF ok0] room0 h room rk(1) chk r1
    by (simp add: stream_Kind_def Let_def)
  moreover have "headed s k (of_nat n) ?s2"
    using k mv r1 s unat_of_nat_u64 [OF n] by (simp add: headed_def)
  ultimately show ?thesis by blast
qed

lemma stream_Kind_byte:
  assumes ok: "stream_ok s" and fresh: "st_kind s = None" and s: "st_in s = b # bs" "b < 0x80" and room: "1 \<le> room s"
  shows "\<exists>s1. stream_Kind s = (Inr (Byte, 0), s1) \<and> headed s Byte 0 s1 \<and> st_byteval s1 = b"
proof -
  let ?s0 = "s\<lparr>st_kinderr := None\<rparr>"
  have ok0: "stream_ok ?s0" and room0: "room ?s0 = room s" using ok by (simp_all add: stream_ok_def)
  let ?s1 = "(read_state 1 ?s0)\<lparr>st_in := bs, st_byteval := b\<rparr>"
  have rk: "stream_readKind ?s0 = ((Byte, 0, None), ?s1)"
    using readByte_iff(2) [OF ok0, of b bs] s room room0 by (simp add: stream_readKind_def Let_def)
  let ?s2 = "?s1\<lparr>st_kind := Some Byte, st_size := 0, st_kinderr := None\<rparr>"
  have "moved 1 s ((read_state 1 s)\<lparr>st_in := drop 1 (st_in s)\<rparr>)"
    by (rule moved_read_state [OF ok room])
  then have mv: "moved 1 s ?s2" using s by (simp add: moved_def read_state_def)
  have chk: "(case st of [] \<Rightarrow> None | (pos, tsz) # _ \<Rightarrow> if tsz - pos < (0 :: u64) then Some ErrElemTooLarge else None) = None" for st
    by (simp split: list.split)
  have "stream_Kind s = (Inr (Byte, 0), ?s2)"
    using fresh room_pos_not_eol [OF ok0] room0 room rk
    by (simp add: stream_Kind_def Let_def chk)
  moreover have "headed s Byte 0 ?s2" using mv s by (simp add: headed_def)
  ultimately show ?thesis by auto
qed

lemma stream_Kind_cached: "headed s k sz s1 \<Longrightarrow> stream_Kind s1 = (Inr (k, sz), s1)"
  by (simp add: headed_def stream_Kind_def)

text \<open>Conversely, whatever header the stream accepts is the canonical one.\<close>

lemma long_head_inv:
  assumes ok: "stream_ok s" and s: "st_in s = ((if k = List then 0xF7 else 0xB7) + of_nat j) # bs"
    and k: "k \<noteq> Byte" and j: "0 < j" "j \<le> 8" and room: "1 \<le> room s"
    and ru: "fst (readUint j ((read_state 1 s)\<lparr>st_in := bs, st_byteval := 0\<rparr>)) = Inr sz" and sz: "\<not> sz < 56"
  shows "\<exists>n rest. st_in s = head_of k n @ rest \<and> n < 2 ^ 64 \<and> length (head_of k n) \<le> room s"
proof -
  let ?s1 = "(read_state 1 s)\<lparr>st_in := bs, st_byteval := 0\<rparr>"
  have "moved 1 s ((read_state 1 s)\<lparr>st_in := drop 1 (st_in s)\<rparr>)"
    by (rule moved_read_state [OF ok room])
  then have mv: "moved 1 s ?s1" using s by (auto intro: moved_same_view)
  have ok1: "stream_ok ?s1" and room1: "room ?s1 = room s - 1" using moved_ok [OF mv ok] by simp_all
  have inv: "j \<le> room ?s1" "j = 1 \<or> hd bs \<noteq> 0" using readUint_inv [OF ok1 j ru] by simp_all
  have len: "j \<le> length bs" using inv(1) room_le [OF ok1] by simp
  let ?n = "be_val (take j bs)"
  have "sz = of_nat ?n" using readUint_ok [OF ok1 j inv(1)] inv(2) ru by simp
  moreover have lt: "?n < 2 ^ 64"
    using be_val_lt [of "take j bs"] j(2) len power_increasing [of j 8 "256 :: nat"] by simp
  ultimately have n: "56 \<le> ?n" using sz of_nat_u64_less [of ?n 56] by simp
  have "hd bs \<noteq> 0"
  proof
    assume 0: "hd bs = 0"
    with inv(2) j(1) len have "take j bs = [0]" by (cases bs; cases j) auto
    with n show False by simp
  qed
  then have be: "be_bytes ?n = take j bs"
    using len j(1) by (intro be_bytes_be_val_id) (cases bs; cases j; auto)
  have head: "head_of k ?n = ((if k = List then 0xF7 else 0xB7) + of_nat j) # take j bs"
    using n be len by (simp add: head_of_def rlp_head_def)
  show ?thesis
    using head s lt len inv(1) room1 room by (intro exI [of _ ?n] exI [of _ "drop j bs"]) simp
qed

lemma stream_readKind_inv:
  assumes ok: "stream_ok s" and rk: "stream_readKind s = ((k, sz, None), s1)"
  shows "(\<exists>b bs. st_in s = b # bs \<and> b < 0x80 \<and> 1 \<le> room s) \<or>
    (\<exists>k n bs. k \<noteq> Byte \<and> st_in s = head_of k n @ bs \<and> n < 2 ^ 64 \<and> length (head_of k n) \<le> room s)"
proof -
  obtain b bs where s: "st_in s = b # bs" "1 \<le> room s"
    using rk readByte_iff(1) [OF ok] by (cases "readByte s") (auto simp: stream_readKind_def split: sum.splits)
  have rb: "readByte s = (Inr b, (read_state 1 s)\<lparr>st_in := bs\<rparr>)"
    by (rule readByte_iff(2) [OF ok s(2,1)])
  let ?s1 = "(read_state 1 s)\<lparr>st_in := bs, st_byteval := 0\<rparr>"
  consider "b < 0x80" | "\<not> b < 0x80" "b < 0xB8" | "\<not> b < 0xB8" "b < 0xC0"
    | "\<not> b < 0xC0" "b < 0xF8" | "\<not> b < 0xF8" by blast
  then show ?thesis
  proof cases
    case 1
    with s show ?thesis by auto
  next
    case 2
    then obtain n where "n < 56" "b = 0x80 + of_nat n" using u8_tag(1) by blast
    with s have "st_in s = head_of String n @ bs" "n < 2 ^ 64" "length (head_of String n) \<le> room s"
      by (simp_all add: head_of_def rlp_head_def)
    then show ?thesis by (metis Kind.distinct(1))
  next
    case 3
    then obtain j where j: "0 < j" "j \<le> 8" "b = 0xB7 + of_nat j" using u8_tag(2) by blast
    have nb: "\<not> b < 0x80" using 3 by (simp add: word_less_nat_alt)
    have "unat (b - 0xB7) = j" using j by (simp add: unat_of_nat)
    with rk 3 nb have "\<exists>sz. fst (readUint j ?s1) = Inr sz \<and> \<not> sz < 56"
      by (auto simp: stream_readKind_def rb readLong_def Let_def split: sum.splits prod.splits if_splits)
    then show ?thesis
      using long_head_inv [OF ok, of String j bs] s j by (auto intro: exI [of _ String])
  next
    case 4
    then obtain n where "n < 56" "b = 0xC0 + of_nat n" using u8_tag(3) by blast
    with s have "st_in s = head_of List n @ bs" "n < 2 ^ 64" "length (head_of List n) \<le> room s"
      by (simp_all add: head_of_def rlp_head_def)
    then show ?thesis by (metis Kind.distinct(3))
  next
    case 5
    then obtain j where j: "0 < j" "j \<le> 8" "b = 0xF7 + of_nat j" using u8_tag(4) by blast
    have nb: "\<not> b < 0x80" "\<not> b < 0xB8" "\<not> b < 0xC0" using 5 by (simp_all add: word_less_nat_alt)
    have "unat (b - 0xF7) = j" using j by (simp add: unat_of_nat)
    with rk 5 nb have "\<exists>sz. fst (readUint j ?s1) = Inr sz \<and> \<not> sz < 56"
      by (auto simp: stream_readKind_def rb readLong_def Let_def split: sum.splits prod.splits if_splits)
    then show ?thesis
      using long_head_inv [OF ok, of List j bs] s j by (auto intro: exI [of _ List])
  qed
qed

lemma stream_Kind_inv:
  assumes ok: "stream_ok s" and fresh: "st_kind s = None" and kd: "stream_Kind s = (Inr (k, sz), s1)"
  shows "headed s k sz s1"
proof -
  let ?s0 = "s\<lparr>st_kinderr := None\<rparr>"
  have ok0: "stream_ok ?s0" using ok by (simp add: stream_ok_def)
  obtain k' sz' s1' where rk: "stream_readKind ?s0 = ((k', sz', None), s1')"
      and s1: "s1 = s1'\<lparr>st_kind := Some k', st_size := sz', st_kinderr := None\<rparr>" "k' = k" "sz' = sz"
      and chk: "(case st_stack s1' of [] \<Rightarrow> if st_limited s1' \<and> st_remaining s1' < sz' then Some ErrValueTooLarge else None
        | (pos, tsz) # _ \<Rightarrow> if tsz - pos < sz' then Some ErrElemTooLarge else None) = None"
    using kd fresh by (auto simp: stream_Kind_def Let_def split: prod.splits if_splits option.splits)
  from stream_readKind_inv [OF ok0 rk] show ?thesis
  proof (elim disjE exE conjE)
    fix b bs assume b: "st_in ?s0 = b # bs" "b < 0x80" "1 \<le> room ?s0"
    then obtain s2 where "stream_Kind s = (Inr (Byte, 0), s2)" "headed s Byte 0 s2"
      using stream_Kind_byte [OF ok fresh, of b bs] by auto
    with kd show ?thesis by simp
  next
    fix k2 n bs assume h: "k2 \<noteq> Byte" "st_in ?s0 = head_of k2 n @ bs" "n < 2 ^ 64" "length (head_of k2 n) \<le> room ?s0"
    then obtain s2 where s2: "stream_readKind ?s0 = ((k2, of_nat n, None), s2)" "moved (length (head_of k2 n)) ?s0 s2"
      using stream_readKind_ok [OF ok0] by blast
    have eq: "k2 = k" "sz = of_nat n" "s2 = s1'" using rk s2(1) s1 by simp_all
    have "n \<le> room s1'" using moved_stack_check [OF s2(2) ok0 h(3)] chk unfolding s1(3) eq by blast
    then have "length (head_of k n) + n \<le> room s"
      using moved_ok(2) [OF s2(2) ok0] h(4) eq by simp
    then show ?thesis using stream_Kind_head [OF ok fresh, of k n bs] h kd eq by auto
  qed
qed

section \<open>Strings\<close>

definition advanced :: "nat \<Rightarrow> stream \<Rightarrow> stream \<Rightarrow> bool" where
  "advanced n s s' \<longleftrightarrow> moved n s s' \<and> st_kind s' = None"

lemma moved_drop_append: "moved n s s' \<Longrightarrow> st_in s = a @ b \<Longrightarrow> length a = n \<Longrightarrow> st_in s' = b"
  by (simp add: moved_def)

text \<open>Reading the content after a header.\<close>

lemma readFull_content:
  assumes h: "headed s k sz s1" and k: "k \<noteq> Byte" and ok: "stream_ok s"
  shows "\<exists>c r s2. readFull (unat sz) s1 = (Inr c, s2) \<and> length c = unat sz \<and>
    st_in s = head_of k (unat sz) @ c @ r \<and> advanced (length (head_of k (unat sz)) + unat sz) s s2"
proof -
  obtain bs where bs: "st_in s = head_of k (unat sz) @ bs" and mv: "moved (length (head_of k (unat sz))) s s1"
    and room: "unat sz \<le> room s1"
    using h k by (auto simp: headed_def)
  have ok1: "stream_ok s1" by (rule moved_ok(1) [OF mv ok])
  have in1: "st_in s1 = bs" by (rule moved_drop_append [OF mv bs refl])
  let ?s2 = "(read_state (unat sz) s1)\<lparr>st_in := drop (unat sz) (st_in s1)\<rparr>"
  have "unat sz < 2 ^ 64" using unsigned_less [of sz, where ?'a = nat] by simp
  then have rf: "readFull (unat sz) s1 = (Inr (take (unat sz) bs), ?s2)"
    using readFull_iff(2) [OF ok1 _ room] in1 by simp
  have "moved (length (head_of k (unat sz)) + unat sz) s ?s2"
    by (rule moved_trans [OF mv moved_read_state [OF ok1 room] ok])
  moreover have "st_kind ?s2 = None" by (simp add: read_state_def)
  moreover have "length (take (unat sz) bs) = unat sz" using room room_le [OF ok1] in1 by simp
  ultimately show ?thesis using rf bs by (auto simp: advanced_def) (metis append_take_drop_id)
qed

lemma enc_string_cases:
  obtains b where "c = [b]" "b < 0x80" "enc_string c = [b]"
  | "\<not> (length c = 1 \<and> c ! 0 < 0x80)" "enc_string c = head_of String (length c) @ c"
proof (cases "length c = 1 \<and> hd c \<le> 0x7F")
  case True
  then obtain b where "c = [b]" "b \<le> 0x7F" by (cases c) auto
  with that(1) [of b] show ?thesis by (simp add: enc_string_def word_le_nat_alt word_less_nat_alt)
next
  case False
  then have "\<not> (length c = 1 \<and> c ! 0 < 0x80)"
    by (cases c) (auto simp: word_le_nat_alt word_less_nat_alt)
  moreover have "enc_string c = head_of String (length c) @ c"
    unfolding enc_string_def if_not_P [OF False] by (simp add: head_of_def)
  ultimately show ?thesis by (rule that(2))
qed

lemma stream_Bytes_ok:
  assumes ok: "stream_ok s" and fresh: "st_kind s = None" and s: "st_in s = enc_string c @ r"
    and room: "length (enc_string c) \<le> room s"
  shows "\<exists>s'. stream_Bytes s = (Inr c, s') \<and> advanced (length (enc_string c)) s s'"
proof (cases rule: enc_string_cases [of c])
  case (1 b)
  then obtain s1 where k: "stream_Kind s = (Inr (Byte, 0), s1)" "headed s Byte 0 s1" "st_byteval s1 = b"
    using stream_Kind_byte [OF ok fresh, of b r] s room by auto
  with 1 show ?thesis by (auto simp: stream_Bytes_def sbind_def headed_def advanced_def intro: moved_same_view)
next
  case 2
  have n: "length c < 2 ^ 64" using s ok 2(2) by (simp add: stream_ok_def)
  then obtain s1 where k: "stream_Kind s = (Inr (String, of_nat (length c)), s1)" "headed s String (of_nat (length c)) s1"
    using stream_Kind_head [OF ok fresh, of String "length c" "c @ r"] s 2 room by auto
  note u = unat_of_nat_u64 [OF n]
  obtain c' r' s2 where c': "readFull (length c) s1 = (Inr c', s2)" "length c' = length c"
      "st_in s = head_of String (length c) @ c' @ r'" "advanced (length (enc_string c)) s s2"
    using readFull_content [OF k(2) _ ok] 2(2) u by auto
  have "c @ r = c' @ r'" using c'(3) s 2(2) by (metis append.assoc same_append_eq)
  then have c: "c' = c" using c'(2) by simp
  have "\<not> ((of_nat (length c) :: u64) = 1 \<and> c ! 0 < 128)"
    using 2(1) u by (metis unat_1)
  with c k(1) c'(1,4) u show ?thesis by (simp add: stream_Bytes_def sbind_def)
qed

lemma stream_Bytes_inv:
  assumes ok: "stream_ok s" and fresh: "st_kind s = None" and b: "stream_Bytes s = (Inr c, s')"
  shows "\<exists>r. st_in s = enc_string c @ r \<and> advanced (length (enc_string c)) s s'"
proof -
  obtain k sz s1 where k: "stream_Kind s = (Inr (k, sz), s1)"
    using b by (cases "stream_Kind s"; cases "fst (stream_Kind s)") (auto simp: stream_Bytes_def sbind_def)
  have h: "headed s k sz s1" by (rule stream_Kind_inv [OF ok fresh k])
  show ?thesis
  proof (cases k)
    case Byte
    with b k h show ?thesis
      by (auto simp: stream_Bytes_def sbind_def headed_def advanced_def enc_string_def word_le_nat_alt word_less_nat_alt
          intro: moved_same_view)
  next
    case String
    obtain c' r s2 where c': "readFull (unat sz) s1 = (Inr c', s2)" "length c' = unat sz"
        "st_in s = head_of String (unat sz) @ c' @ r" "advanced (length (head_of String (unat sz)) + unat sz) s s2"
      using readFull_content [OF h _ ok] String by auto
    have c: "c = c'" "s' = s2" "\<not> (sz = 1 \<and> c ! 0 < 128)"
      using b k String c'(1) by (auto simp: stream_Bytes_def sbind_def split: if_splits)
    have "\<not> (length c = 1 \<and> c ! 0 < 0x80)"
      using c(1,3) c'(2) by (metis unat_1 word_unat_eq_iff)
    then have "enc_string c = head_of String (length c) @ c"
      by (cases rule: enc_string_cases [of c]) auto
    with c c' show ?thesis by auto
  next
    case List
    with b k show ?thesis by (simp add: stream_Bytes_def sbind_def)
  qed
qed

section \<open>Lists\<close>

definition entered :: "stream \<Rightarrow> u64 \<Rightarrow> stream \<Rightarrow> bool" where
  "entered s sz s2 \<longleftrightarrow> (\<exists>s1. headed s List sz s1 \<and>
     s2 = s1\<lparr>st_stack := (0, sz) # st_stack s1, st_kind := None, st_size := 0\<rparr>)"

lemma stream_List_inv:
  assumes "stream_ok s" and "st_kind s = None" and "stream_List s = (Inr sz, s2)"
  shows "entered s sz s2"
proof -
  obtain k sz' s1 where k: "stream_Kind s = (Inr (k, sz'), s1)"
    using assms(3) by (cases "stream_Kind s"; cases "fst (stream_Kind s)") (auto simp: stream_List_def sbind_def)
  with stream_Kind_inv [OF assms(1,2) k] assms(3) show ?thesis
    by (auto simp: stream_List_def sbind_def entered_def split: if_splits)
qed

lemma stream_List_ok:
  assumes ok: "stream_ok s" and fresh: "st_kind s = None" and s: "st_in s = enc_list p @ r"
    and room: "length (enc_list p) \<le> room s"
  shows "\<exists>s2. stream_List s = (Inr (of_nat (length p)), s2) \<and> entered s (of_nat (length p)) s2"
proof -
  have n: "length p < 2 ^ 64" using s ok by (simp add: stream_ok_def enc_list_def)
  obtain s1 where "stream_Kind s = (Inr (List, of_nat (length p)), s1)" "headed s List (of_nat (length p)) s1"
    using stream_Kind_head [OF ok fresh, of List "length p" "p @ r"] s room n by (auto simp: enc_list_def head_of_def)
  then show ?thesis by (auto simp: stream_List_def sbind_def entered_def)
qed

lemma entered_ok:
  assumes "entered s sz s2" and ok: "stream_ok s"
  shows "stream_ok s2" and "st_kind s2 = None" and "room s2 = unat sz"
    and "st_in s = head_of List (unat sz) @ st_in s2"
proof -
  obtain s1 where h: "headed s List sz s1" and s2: "s2 = s1\<lparr>st_stack := (0, sz) # st_stack s1, st_kind := None, st_size := 0\<rparr>"
    using assms(1) by (auto simp: entered_def)
  then obtain bs where bs: "st_in s = head_of List (unat sz) @ bs" and mv: "moved (length (head_of List (unat sz))) s s1"
    and room: "unat sz \<le> room s1" by (auto simp: headed_def)
  have ok1: "stream_ok s1" by (rule moved_ok(1) [OF mv ok])
  show "stream_ok s2"
    using ok1 room room_le [OF ok1] by (auto simp: s2 stream_ok_def room_def split: list.splits)
  show "st_kind s2 = None" "room s2 = unat sz" by (simp_all add: s2 room_def)
  show "st_in s = head_of List (unat sz) @ st_in s2"
    using moved_drop_append [OF mv bs refl] bs by (simp add: s2)
qed

lemma stream_ListEnd_moved:
  assumes e: "entered s sz s2" and mv: "moved m s2 s3" and ok: "stream_ok s"
  shows "m = unat sz \<Longrightarrow> \<exists>s4. stream_ListEnd s3 = (Inr (), s4) \<and> advanced (length (head_of List (unat sz)) + unat sz) s s4"
    and "stream_ListEnd s3 = (Inr (), s4) \<Longrightarrow> m = unat sz \<and> advanced (length (head_of List (unat sz)) + unat sz) s s4"
proof -
  obtain s1 where h: "headed s List sz s1" and s2: "s2 = s1\<lparr>st_stack := (0, sz) # st_stack s1, st_kind := None, st_size := 0\<rparr>"
    using e by (auto simp: entered_def)
  then have mv1: "moved (length (head_of List (unat sz))) s s1" and room: "unat sz \<le> room s1" by (auto simp: headed_def)
  have ok1: "stream_ok s1" by (rule moved_ok(1) [OF mv1 ok])
  have m: "m \<le> unat sz" and st3: "st_stack s3 = (of_nat m, sz) # st_stack s1"
    using mv by (auto simp: moved_def s2 room_def bump_def)
  have u: "unat (of_nat m :: u64) = m" using m unsigned_less [of sz, where ?'a = nat] by (intro unat_of_nat_u64) simp
  have eq: "of_nat m = sz \<longleftrightarrow> m = unat sz" using u by (metis word_unat_eq_iff)
  have adv: "advanced (length (head_of List (unat sz)) + unat sz) s
      (s3\<lparr>st_stack := bump (unat sz) (st_stack s1), st_kind := None, st_size := 0\<rparr>)" if "m = unat sz"
  proof -
    have "moved (unat sz) s1 (s3\<lparr>st_stack := bump (unat sz) (st_stack s1), st_kind := None, st_size := 0\<rparr>)"
      using mv room that by (simp add: moved_def s2)
    from moved_trans [OF mv1 this ok] show ?thesis by (simp add: advanced_def)
  qed
  have le: "stream_ListEnd s3 = (if m = unat sz
      then (Inr (), s3\<lparr>st_stack := bump (unat sz) (st_stack s1), st_kind := None, st_size := 0\<rparr>)
      else (Inl errNotAtEOL, s3))"
    by (simp add: stream_ListEnd_def st3 eq bump_def split: list.splits)
  show "m = unat sz \<Longrightarrow> \<exists>s4. stream_ListEnd s3 = (Inr (), s4) \<and> advanced (length (head_of List (unat sz)) + unat sz) s s4"
    using le adv by auto
  show "stream_ListEnd s3 = (Inr (), s4) \<Longrightarrow> m = unat sz \<and> advanced (length (head_of List (unat sz)) + unat sz) s s4"
    using le adv by (auto split: if_splits)
qed

section \<open>Integers, booleans, arrays, raw values\<close>

lemma enc_string_u64_cases:
  fixes i :: u64
  obtains "i = 0" "enc_string (be_bytes (unat i)) = [0x80]"
  | b where "be_bytes (unat i) = [b]" "b < 0x80" "b \<noteq> 0" "ucast b = i" "enc_string (be_bytes (unat i)) = [b]"
  | "128 \<le> unat i" "enc_string (be_bytes (unat i)) = head_of String (length (be_bytes (unat i))) @ be_bytes (unat i)"
proof (cases rule: enc_string_cases [of "be_bytes (unat i)"])
  case (1 b)
  then have "unat i = unat b" using be_val_be_bytes [of "unat i"] by simp
  moreover have "b \<noteq> 0" using hd_be_bytes [of "unat i"] 1(1) be_bytes_eq_Nil [of "unat i"] by auto
  moreover from calculation have "ucast b = i"
    by (simp add: word_unat_eq_iff unsigned_ucast_eq take_bit_eq_mod less_trans [OF unat_u8_lt])
  ultimately show ?thesis using that(2) 1 by blast
next
  case 2
  show ?thesis
  proof (cases "128 \<le> unat i")
    case False
    have "i = 0"
    proof (rule ccontr)
      assume "i \<noteq> 0"
      then have "0 < unat i" by (simp add: unat_gt_0)
      then have "be_bytes (unat i) = [of_nat (unat i)]" using False by (subst be_bytes_pos) simp_all
      moreover from this have "be_bytes (unat i) ! 0 < 0x80"
        using False by (simp add: word_less_nat_alt unsigned_ucast_eq take_bit_eq_mod)
      ultimately show False using 2(1) by simp
    qed
    then show ?thesis using that(1) by (simp add: enc_string_def rlp_head_def)
  qed (use that(3) 2(2) in blast)
qed

lemma stream_uint_ok:
  assumes ok: "stream_ok s" and fresh: "st_kind s = None" and s: "st_in s = enc_string (be_bytes (unat i)) @ r"
    and room: "length (enc_string (be_bytes (unat i))) \<le> room s" and bits: "bits \<le> 64" "unat i < 256 ^ (bits div 8)"
  shows "\<exists>s'. stream_uint bits s = (Inr i, s') \<and> advanced (length (enc_string (be_bytes (unat i)))) s s'"
proof (cases rule: enc_string_u64_cases [of i])
  case 1
  then obtain s1 where k: "stream_Kind s = (Inr (String, 0), s1)" "headed s String 0 s1"
    using stream_Kind_head [OF ok fresh, of String 0 r] s room by (auto simp: head_of_def rlp_head_def)
  with 1 show ?thesis
    by (auto simp: stream_uint_def sbind_def readUint_def headed_def head_of_def rlp_head_def advanced_def
        intro: moved_same_view)
next
  case (2 b)
  then obtain s1 where k: "stream_Kind s = (Inr (Byte, 0), s1)" "headed s Byte 0 s1" "st_byteval s1 = b"
    using stream_Kind_byte [OF ok fresh, of b r] s room by auto
  with 2 show ?thesis by (auto simp: stream_uint_def sbind_def headed_def advanced_def intro: moved_same_view)
next
  case 3
  let ?n = "length (be_bytes (unat i))"
  have n: "?n \<le> bits div 8" "?n \<le> 8" "0 < ?n" using bits 3(1) unsigned_less [of i, where ?'a = nat]
    by (auto simp: length_be_bytes_le)
  have n64: "?n < 2 ^ 64" using n(2) by simp
  obtain s1 where k: "stream_Kind s = (Inr (String, of_nat ?n), s1)" "headed s String (of_nat ?n) s1"
    using stream_Kind_head [OF ok fresh, of String ?n "be_bytes (unat i) @ r"] s 3(2) room n64 by auto
  note u = unat_of_nat_u64 [OF n64]
  have mv: "moved (length (head_of String ?n)) s s1" and room1: "?n \<le> room s1" using k(2) u by (simp_all add: headed_def)
  have ok1: "stream_ok s1" by (rule moved_ok(1) [OF mv ok])
  have in1: "st_in s1 = be_bytes (unat i) @ r"
    using moved_drop_append [OF mv, of "head_of String ?n"] s 3(2) by simp
  let ?s2 = "(read_state ?n s1)\<lparr>st_in := drop ?n (st_in s1)\<rparr>"
  have ru: "readUint ?n s1 = (Inr i, ?s2)"
    using readUint_ok [OF ok1 n(3,2) room1] in1 hd_be_bytes [of "unat i"] 3(1) by simp
  have b8: "\<not> (of_nat (bits div 8) :: u64) < of_nat ?n"
    using of_nat_u64_less [of "bits div 8" ?n] n bits(1) by simp
  have uc: "unat (ucast (of_nat ?n :: u64) :: u8) = ?n"
    using n(2) by (simp add: unsigned_ucast_eq take_bit_eq_mod u)
  have "\<not> i < 128" using 3(1) by (simp add: word_less_nat_alt)
  then have "stream_uint bits s = (Inr i, ?s2)"
    by (simp add: stream_uint_def sbind_def k(1) b8 uc ru)
  moreover have "advanced (length (enc_string (be_bytes (unat i)))) s ?s2"
    using moved_trans [OF mv moved_read_state [OF ok1 room1] ok] 3(2) by (simp add: advanced_def read_state_def)
  ultimately show ?thesis by blast
qed

lemma stream_Bool_ok:
  assumes ok: "stream_ok s" and fresh: "st_kind s = None" and s: "st_in s = enc_string (if b then [1] else []) @ r"
    and room: "length (enc_string (if b then [1] else [])) \<le> room s"
  shows "\<exists>s'. stream_Bool s = (Inr b, s') \<and> advanced (length (enc_string (if b then [1] else []))) s s'"
proof -
  have be: "be_bytes (unat (if b then 1 else 0 :: u64)) = (if b then [1] else [])"
    by (simp add: be_bytes_pos)
  show ?thesis
    using stream_uint_ok [OF ok fresh, of "if b then 1 else 0" r 8] s room unfolding be
    by (auto simp: stream_Bool_def sbind_def split: if_splits)
qed

lemma decodeBigInt_ok:
  assumes ok: "stream_ok s" and fresh: "st_kind s = None" and s: "st_in s = enc_string (be_bytes (nat i)) @ r"
    and room: "length (enc_string (be_bytes (nat i))) \<le> room s" and i: "0 \<le> i"
  shows "\<exists>s'. decodeBigInt s = (Inr i, s') \<and> advanced (length (enc_string (be_bytes (nat i)))) s s'"
proof -
  obtain s' where b: "stream_Bytes s = (Inr (be_bytes (nat i)), s')" "advanced (length (enc_string (be_bytes (nat i)))) s s'"
    using stream_Bytes_ok [OF ok fresh s room] by blast
  have "be_bytes (nat i) \<noteq> [] \<Longrightarrow> be_bytes (nat i) ! 0 \<noteq> 0"
    using hd_be_bytes [of "nat i"] by (simp add: hd_conv_nth)
  with b i show ?thesis by (auto simp: decodeBigInt_def sbind_def big_SetBytes_def)
qed

lemma decodeByteArray_ok:
  assumes ok: "stream_ok s" and fresh: "st_kind s = None" and s: "st_in s = enc_string c @ r"
    and room: "length (enc_string c) \<le> room s" and c: "c \<noteq> [0]"
  shows "\<exists>s'. decodeByteArray (length c) s = (Inr c, s') \<and> advanced (length (enc_string c)) s s'"
proof (cases rule: enc_string_cases [of c])
  case (1 b)
  then obtain s1 where k: "stream_Kind s = (Inr (Byte, 0), s1)" "headed s Byte 0 s1" "st_byteval s1 = b"
    using stream_Kind_byte [OF ok fresh, of b r] s room by auto
  have uc: "ucast (ucast b :: u64) = b"
    by (rule bit_word_eqI) (simp add: bit_ucast_iff)
  from k 1 c stream_Kind_cached [OF k(2)] show ?thesis
    by (auto simp: decodeByteArray_def stream_uint_def sbind_def headed_def advanced_def uc intro: moved_same_view)
next
  case 2
  have n: "length c < 2 ^ 64" using s ok 2(2) by (simp add: stream_ok_def)
  then obtain s1 where k: "stream_Kind s = (Inr (String, of_nat (length c)), s1)" "headed s String (of_nat (length c)) s1"
    using stream_Kind_head [OF ok fresh, of String "length c" "c @ r"] s 2 room by auto
  note u = unat_of_nat_u64 [OF n]
  obtain c' r' s2 where c': "readFull (length c) s1 = (Inr c', s2)" "length c' = length c"
      "st_in s = head_of String (length c) @ c' @ r'" "advanced (length (enc_string c)) s s2"
    using readFull_content [OF k(2) _ ok] 2(2) u by auto
  have "c @ r = c' @ r'" using c'(3) s 2(2) by (metis append.assoc same_append_eq)
  then have c: "c' = c" using c'(2) by simp
  have "\<not> ((of_nat (length c) :: u64) = 1 \<and> c ! 0 < 128)"
    using 2(1) u by (metis unat_1)
  with c k(1) c'(1,4) show ?thesis by (simp add: decodeByteArray_def sbind_def)
qed

lemma puthead_raw:
  assumes n: "length c < 2 ^ 64" and k: "k \<noteq> Byte"
  shows "puthead (replicate (headsize (of_nat (length c))) 0 @ c)
      (if k = String then 0x80 else 0xC0) (if k = String then 0xB7 else 0xF7) (of_nat (length c)) =
    Some (head_of k (length c) @ c, length (head_of k (length c)))"
proof -
  let ?s = "if k = String then 0x80 else 0xC0 :: u8" and ?l = "if k = String then 0xB7 else 0xF7 :: u8"
  have hd: "rlp_head ?s ?l (length c) = head_of k (length c)" using k by (cases k) (auto simp: head_of_def)
  have hs: "headsize (of_nat (length c)) = length (head_of k (length c))"
    using headsize_eq [OF n, of ?s ?l] by (simp only: hd)
  show ?thesis
    using puthead_eq [OF n, of ?s ?l "replicate (length (head_of k (length c))) 0 @ c"] unfolding hd hs by simp
qed

lemma stream_Raw_ok:
  assumes ok: "stream_ok s" and fresh: "st_kind s = None" and kc: "kind_ok (k, c)"
    and s: "st_in s = enc_kind (k, c) @ r" and room: "length (enc_kind (k, c)) \<le> room s"
  shows "\<exists>s'. stream_Raw s = (Inr (enc_kind (k, c)), s') \<and> advanced (length (enc_kind (k, c))) s s'"
proof (cases "k = Byte")
  case True
  then obtain b where c: "c = [b]" "b < 0x80"
    using kc by (cases c) (auto simp: kind_ok_def word_le_nat_alt word_less_nat_alt)
  then have "enc_kind (k, c) = [b]" using kc True enc_kind_head by simp
  moreover from this obtain s1 where "stream_Kind s = (Inr (Byte, 0), s1)" "headed s Byte 0 s1" "st_byteval s1 = b"
    using stream_Kind_byte [OF ok fresh, of b r] s room c by auto
  ultimately show ?thesis
    by (auto simp: stream_Raw_def sbind_def headed_def advanced_def intro: moved_same_view)
next
  case False
  then have enc: "enc_kind (k, c) = head_of k (length c) @ c" using enc_kind_head [OF kc] by simp
  have n: "length c < 2 ^ 64" using s ok enc by (simp add: stream_ok_def)
  then obtain s1 where k: "stream_Kind s = (Inr (k, of_nat (length c)), s1)" "headed s k (of_nat (length c)) s1"
    using stream_Kind_head [OF ok fresh False, of "length c" "c @ r"] s enc room by auto
  note u = unat_of_nat_u64 [OF n]
  obtain c' r' s2 where c': "readFull (length c) s1 = (Inr c', s2)" "length c' = length c"
      "st_in s = head_of k (length c) @ c' @ r'" "advanced (length (enc_kind (k, c))) s s2"
    using readFull_content [OF k(2) False ok] enc u by auto
  have "c @ r = c' @ r'" using c'(3) s enc by (metis append.assoc same_append_eq)
  then have c: "c' = c" using c'(2) by simp
  with puthead_raw [OF n False] c'(1,4) k(1) u False enc show ?thesis by (simp add: stream_Raw_def sbind_def)
qed

end
