(* ===== verification/Rlp_Roundtrip.thy ===== *)
theory Rlp_Roundtrip
  imports Rlp_Moves
begin

text \<open>
  Decoding inverts encoding: the typed decoders of \<open>rlp/decode.go\<close> return every value of their
  type from its encoding.
\<close>

section \<open>Values of a type\<close>

text \<open>
  The types whose decoders report the end of a list, and the values that a type's decoder gives
  back. The one-element array holding a zero byte is left out, see \<open>decodeByteArray_zero\<close>.
\<close>

fun eol_typ :: "rlp_typ \<Rightarrow> bool" where
  "eol_typ (TPtr k t) \<longleftrightarrow> eol_typ t"
| "eol_typ (TSlice tail t) \<longleftrightarrow> \<not> tail"
| "eol_typ _ \<longleftrightarrow> True"

fun is_iface :: "rlp_val \<Rightarrow> bool" where
  "is_iface (VInterface (Some (VBytes b))) \<longleftrightarrow> True"
| "is_iface (VInterface (Some (VSlice tail vs))) \<longleftrightarrow> \<not> tail \<and> list_all is_iface vs"
| "is_iface _ \<longleftrightarrow> False"

fun has_type :: "rlp_val \<Rightarrow> rlp_typ \<Rightarrow> bool"
  and has_types :: "rlp_val list \<Rightarrow> rlp_typ list \<Rightarrow> bool" where
  "has_type (VRaw b) t \<longleftrightarrow> t = TRaw \<and> length b < 2 ^ 64 \<and> (case Split b of Inl _ \<Rightarrow> False | Inr (k, c, r) \<Rightarrow> r = [])"
| "has_type (VUint i) t \<longleftrightarrow> (case t of TUint bits \<Rightarrow> bits \<le> 64 \<and> unat i < 256 ^ (bits div 8) | _ \<Rightarrow> False)"
| "has_type (VBool b) t \<longleftrightarrow> t = TBool"
| "has_type (VBigPtr p) t \<longleftrightarrow> t = TBigPtr \<and> (case p of None \<Rightarrow> False | Some i \<Rightarrow> 0 \<le> i)"
| "has_type (VBig i) t \<longleftrightarrow> t = TBig \<and> 0 \<le> i"
| "has_type (VBytes b) t \<longleftrightarrow> t = TBytes"
| "has_type (VByteArray b) t \<longleftrightarrow> t = TByteArray (length b) \<and> b \<noteq> [0]"
| "has_type (VString b) t \<longleftrightarrow> t = TString"
| "has_type (VInterface p) t \<longleftrightarrow> t = TInterface \<and> is_iface (VInterface p)"
| "has_type (VSlice tail vs) t \<longleftrightarrow> \<not> tail \<and>
     (case t of
        TSlice tagged t' \<Rightarrow> \<not> tagged \<and> eol_typ t' \<and> list_all (\<lambda>v. has_type v t') vs
      | TArray n t' \<Rightarrow> length vs = n \<and> list_all (\<lambda>v. has_type v t') vs
      | _ \<Rightarrow> False)"
| "has_type (VStruct vs) t \<longleftrightarrow> (case t of TStruct ts \<Rightarrow> has_types vs ts | _ \<Rightarrow> False)"
| "has_type (VPtr k None) t \<longleftrightarrow> (case t of TNilPtr k' t' \<Rightarrow> k' = k \<and> k \<noteq> Byte | _ \<Rightarrow> False)"
| "has_type (VPtr k (Some v)) t \<longleftrightarrow>
     (case t of
        TPtr k' t' \<Rightarrow> k' = k \<and> has_type v t'
      | TNilPtr k' t' \<Rightarrow> k' = k \<and> has_type v t' \<and> rlp_enc v \<noteq> [0x80] \<and> rlp_enc v \<noteq> [0xC0]
      | _ \<Rightarrow> False)"
| "has_types [] ts \<longleftrightarrow> ts = []"
| "has_types (v # vs) ts \<longleftrightarrow> (case ts of [] \<Rightarrow> False | t # ts' \<Rightarrow> has_type v t \<and> has_types vs ts')"

section \<open>Decoding to the end of a list\<close>

text \<open>With enough fuel, a decoder returns \<open>x\<close>.\<close>

definition finally_is :: "(nat \<Rightarrow> 'a sres option) \<Rightarrow> 'a sres \<Rightarrow> bool" where
  "finally_is f x \<longleftrightarrow> (\<exists>N. \<forall>n \<ge> N. f n = Some x)"

lemma finally_isI: "(\<And>n. f (Suc n) = Some x) \<Longrightarrow> finally_is f x"
  unfolding finally_is_def by (intro exI [of _ 1]) (metis One_nat_def Suc_le_D)

lemma finally_is_step:
  assumes "finally_is f x" and "\<And>n. f n = Some x \<Longrightarrow> g (Suc n) = Some y"
  shows "finally_is g y"
proof -
  obtain N where N: "\<forall>n \<ge> N. f n = Some x" using assms(1) by (auto simp: finally_is_def)
  have "g n = Some y" if "Suc N \<le> n" for n
    using that N assms(2) by (cases n) auto
  then show ?thesis by (auto simp: finally_is_def)
qed

lemma finally_is_step2:
  assumes "finally_is f x" and "finally_is f' x'" and "\<And>n. f n = Some x \<Longrightarrow> f' n = Some x' \<Longrightarrow> g (Suc n) = Some y"
  shows "finally_is g y"
proof -
  obtain N where N: "\<forall>n \<ge> N. f n = Some x" using assms(1) by (auto simp: finally_is_def)
  obtain N' where N': "\<forall>n \<ge> N'. f' n = Some x'" using assms(2) by (auto simp: finally_is_def)
  have "g n = Some y" if "Suc (max N N') \<le> n" for n
    using that N N' assms(3) by (cases n) auto
  then show ?thesis by (auto simp: finally_is_def)
qed

lemma stream_Kind_EOL:
  assumes ok: "stream_ok s" and fresh: "st_kind s = None" and "room s = 0" and "st_stack s \<noteq> []"
  shows "stream_Kind s = (Inl EOL, s\<lparr>st_kinderr := None\<rparr>)"
proof -
  obtain pos sz st where st: "st_stack s = (pos, sz) # st" using assms(4) by (cases "st_stack s") auto
  then have "pos = sz" using ok assms(3) by (auto simp: stream_ok_def room_def word_unat_eq_iff)
  with fresh st show ?thesis by (simp add: stream_Kind_def)
qed

lemmas Kind_ops = stream_Bytes_def stream_Raw_def stream_uint_def stream_Bool_def stream_List_def
  decodeBigInt_def decodeByteArray_def sbind_def dbind_def

lemma decode_EOL:
  assumes k: "stream_Kind s = (Inl EOL, s1)"
  shows "eol_typ t \<Longrightarrow> finally_is (\<lambda>n. decode n t s) (Inl EOL, s1)"
proof (induction t rule: eol_typ.induct)
  case (1 k' t)
  then have "finally_is (\<lambda>n. decode n t s) (Inl EOL, s1)" by simp
  then show ?case by (rule finally_is_step) (simp add: dbind_def)
next
  case (2 tail t)
  have "finally_is (\<lambda>n. decodeListSlice n t s) (Inl EOL, s1)"
    by (rule finally_isI) (simp add: Kind_ops k)
  moreover have "tail = False" using 2 by simp
  ultimately show ?case by (elim finally_is_step) (simp add: dbind_def)
qed (rule finally_isI, simp add: Kind_ops k)+

text \<open>Asking for the kind first does not change what a decoder does.\<close>

lemma decode_cached:
  assumes k: "stream_Kind s = (Inr x, s1)" and k1: "stream_Kind s1 = (Inr x, s1)"
  shows "decode n t s1 = decode n t s \<and> decodeListSlice n t s1 = decodeListSlice n t s \<and>
    decodeSliceElems n t s1 = decodeSliceElems n t s"
proof (induction n arbitrary: t)
  case (Suc n)
  have ls: "decodeListSlice (Suc n) t s1 = decodeListSlice (Suc n) t s"
    by (simp add: Kind_ops k k1)
  moreover have "decodeSliceElems (Suc n) t s1 = decodeSliceElems (Suc n) t s"
    using Suc by simp
  moreover have "decode (Suc n) t s1 = decode (Suc n) t s"
    using Suc by (cases t) (simp_all add: Kind_ops k k1)
  ultimately show ?case by blast
qed simp

section \<open>Round trip\<close>

definition decodes :: "rlp_typ \<Rightarrow> rlp_val \<Rightarrow> bool" where
  "decodes t v \<longleftrightarrow> (\<exists>kc. kind_ok kc \<and> rlp_enc v = enc_kind kc) \<and>
     (\<forall>s r. stream_ok s \<longrightarrow> st_kind s = None \<longrightarrow> st_in s = rlp_enc v @ r \<longrightarrow> length (rlp_enc v) \<le> room s \<longrightarrow>
       (\<exists>s'. finally_is (\<lambda>n. decode n t s) (Inr v, s') \<and> advanced (length (rlp_enc v)) s s'))"

lemma decodesD:
  assumes "decodes t v" and "stream_ok s" and "st_kind s = None" and "st_in s = rlp_enc v @ r"
    and "length (rlp_enc v) \<le> room s"
  shows "\<exists>s'. finally_is (\<lambda>n. decode n t s) (Inr v, s') \<and> advanced (length (rlp_enc v)) s s'"
  using assms unfolding decodes_def by blast

lemma decodes_ne: "decodes t v \<Longrightarrow> rlp_enc v \<noteq> []"
  unfolding decodes_def using raw.enc_ne by metis

lemma advancedD:
  assumes "advanced n s s1" and "stream_ok s" and "st_in s = a @ b" and "length a = n"
  shows "stream_ok s1" and "st_kind s1 = None" and "st_in s1 = b" and "room s1 = room s - n"
    and "moved n s s1" and "st_stack s1 = [] \<longleftrightarrow> st_stack s = []"
  using assms moved_ok [of n s s1] by (auto simp: advanced_def moved_def)

lemma decode_elems:
  assumes "list_all (decodes t) vs" and eol: "eol_typ t" and "stream_ok s" and "st_kind s = None" and "st_stack s \<noteq> []"
    and "st_in s = concat (map rlp_enc vs) @ r" and "room s = length (concat (map rlp_enc vs))"
  shows "\<exists>s'. finally_is (\<lambda>n. decodeSliceElems n t s) (Inr vs, s') \<and> moved (length (concat (map rlp_enc vs))) s s'"
  using assms(1,3-)
proof (induction vs arbitrary: s)
  case Nil
  have "stream_Kind s = (Inl EOL, s\<lparr>st_kinderr := None\<rparr>)"
    using Nil by (intro stream_Kind_EOL) auto
  then have "finally_is (\<lambda>n. decode n t s) (Inl EOL, s\<lparr>st_kinderr := None\<rparr>)" by (rule decode_EOL [OF _ eol])
  then have "finally_is (\<lambda>n. decodeSliceElems n t s) (Inr [], s\<lparr>st_kinderr := None\<rparr>)"
    by (rule finally_is_step) simp
  moreover have "moved 0 s (s\<lparr>st_kinderr := None\<rparr>)" using moved_0 [OF Nil(2)] by (auto intro: moved_same_view)
  ultimately show ?case by auto
next
  case (Cons v vs)
  obtain s1 where s1: "finally_is (\<lambda>n. decode n t s) (Inr v, s1)" "advanced (length (rlp_enc v)) s s1"
    using decodesD [of t v s "concat (map rlp_enc vs) @ r"] Cons.prems by auto
  note a = advancedD [OF s1(2) Cons.prems(2), of "rlp_enc v" "concat (map rlp_enc vs) @ r"]
  obtain s2 where s2: "finally_is (\<lambda>n. decodeSliceElems n t s1) (Inr vs, s2)"
      "moved (length (concat (map rlp_enc vs))) s1 s2"
    using Cons.IH [of s1] Cons.prems a by auto
  have "finally_is (\<lambda>n. decodeSliceElems n t s) (Inr (v # vs), s2)"
    by (rule finally_is_step2 [OF s1(1) s2(1)]) (simp add: dbind_def)
  moreover have "moved (length (concat (map rlp_enc (v # vs)))) s s2"
    using moved_trans [OF a(5) s2(2) Cons.prems(2)] Cons.prems(5) by simp
  ultimately show ?case by auto
qed

lemma decode_fields:
  assumes "list_all2 decodes ts vs" and "stream_ok s" and "st_kind s = None"
    and "st_in s = concat (map rlp_enc vs) @ r" and "length (concat (map rlp_enc vs)) \<le> room s"
  shows "\<exists>s'. finally_is (\<lambda>n. decodeFields n ts s) (Inr vs, s') \<and> moved (length (concat (map rlp_enc vs))) s s'"
  using assms
proof (induction ts vs arbitrary: s rule: list_all2_induct)
  case Nil
  have "finally_is (\<lambda>n. decodeFields n [] s) (Inr [], s)" by (rule finally_isI) simp
  with moved_0 [OF Nil(1)] show ?case by auto
next
  case (Cons t ts v vs)
  obtain s1 where s1: "finally_is (\<lambda>n. decode n t s) (Inr v, s1)" "advanced (length (rlp_enc v)) s s1"
    using decodesD [of t v s "concat (map rlp_enc vs) @ r"] Cons by auto
  note a = advancedD [OF s1(2) Cons.prems(1), of "rlp_enc v" "concat (map rlp_enc vs) @ r"]
  have le: "length (concat (map rlp_enc vs)) \<le> room s1" using a(4) Cons.prems by simp
  obtain s2 where s2: "finally_is (\<lambda>n. decodeFields n ts s1) (Inr vs, s2)"
      "moved (length (concat (map rlp_enc vs))) s1 s2"
    using Cons.IH [of s1] Cons.prems a(1-3) le by auto
  have "finally_is (\<lambda>n. decodeFields n (t # ts) s) (Inr (v # vs), s2)"
    by (rule finally_is_step2 [OF s1(1) s2(1)]) (simp add: dbind_def)
  moreover have "moved (length (concat (map rlp_enc (v # vs)))) s s2"
    using moved_trans [OF a(5) s2(2) Cons.prems(1)] Cons.prems(3) by simp
  ultimately show ?case by auto
qed

lemma decode_array:
  assumes "list_all (decodes t) vs" and "stream_ok s" and "st_kind s = None"
    and "st_in s = concat (map rlp_enc vs) @ r" and "length (concat (map rlp_enc vs)) \<le> room s"
  shows "\<exists>s'. finally_is (\<lambda>n. decodeArrayElems n (length vs) t s) (Inr vs, s') \<and>
    moved (length (concat (map rlp_enc vs))) s s'"
  using assms
proof (induction vs arbitrary: s)
  case Nil
  have "finally_is (\<lambda>n. decodeArrayElems n 0 t s) (Inr [], s)" by (rule finally_isI) simp
  with moved_0 [OF Nil(2)] show ?case by auto
next
  case (Cons v vs)
  obtain s1 where s1: "finally_is (\<lambda>n. decode n t s) (Inr v, s1)" "advanced (length (rlp_enc v)) s s1"
    using decodesD [of t v s "concat (map rlp_enc vs) @ r"] Cons.prems by auto
  note a = advancedD [OF s1(2) Cons.prems(2), of "rlp_enc v" "concat (map rlp_enc vs) @ r"]
  have le: "length (concat (map rlp_enc vs)) \<le> room s1" using a(4) Cons.prems by simp
  obtain s2 where s2: "finally_is (\<lambda>n. decodeArrayElems n (length vs) t s1) (Inr vs, s2)"
      "moved (length (concat (map rlp_enc vs))) s1 s2"
    using Cons.IH [of s1] Cons.prems a(1-3) le by auto
  have "finally_is (\<lambda>n. decodeArrayElems n (length (v # vs)) t s) (Inr (v # vs), s2)"
    by (rule finally_is_step2 [OF s1(1) s2(1)]) (simp add: dbind_def)
  moreover have "moved (length (concat (map rlp_enc (v # vs)))) s s2"
    using moved_trans [OF a(5) s2(2) Cons.prems(2)] Cons.prems(4) by simp
  ultimately show ?case by auto
qed

text \<open>Around a list: open it, run a decoder over its content, close it.\<close>

lemma list_frame:
  assumes ok: "stream_ok s" and fresh: "st_kind s = None" and s: "st_in s = enc_list p @ r"
    and room: "length (enc_list p) \<le> room s"
  obtains s2 where "stream_List s = (Inr (of_nat (length p)), s2)" and "stream_ok s2" and "st_kind s2 = None"
    and "st_in s2 = p @ r" and "room s2 = length p" and "st_stack s2 \<noteq> []"
    and "\<And>s3. moved (length p) s2 s3 \<Longrightarrow>
      \<exists>s4. stream_ListEnd s3 = (Inr (), s4) \<and> advanced (length (enc_list p)) s s4"
proof -
  have n: "length p < 2 ^ 64" using s ok by (simp add: stream_ok_def enc_list_def)
  note u = unat_of_nat_u64 [OF n]
  obtain s2 where l: "stream_List s = (Inr (of_nat (length p)), s2)" and e: "entered s (of_nat (length p)) s2"
    using stream_List_ok [OF assms] by blast
  have len: "length (enc_list p) = length (head_of List (length p)) + length p"
    by (simp add: enc_list_def head_of_def)
  show ?thesis
  proof (rule that [OF l entered_ok(1,2) [OF e ok]])
    show "st_in s2 = p @ r" using entered_ok(4) [OF e ok] s u by (simp add: enc_list_def head_of_def)
    show "room s2 = length p" using entered_ok(3) [OF e ok] u by simp
    show "st_stack s2 \<noteq> []" using e by (auto simp: entered_def)
    show "\<exists>s4. stream_ListEnd s3 = (Inr (), s4) \<and> advanced (length (enc_list p)) s s4"
      if "moved (length p) s2 s3" for s3
      using stream_ListEnd_moved(1) [OF e that ok] u len by simp
  qed
qed

lemma decode_list_slice:
  assumes vs: "list_all (decodes t) vs" and eol: "eol_typ t" and ok: "stream_ok s" and fresh: "st_kind s = None"
    and s: "st_in s = enc_list (concat (map rlp_enc vs)) @ r" and room: "length (enc_list (concat (map rlp_enc vs))) \<le> room s"
  shows "\<exists>s'. finally_is (\<lambda>n. decodeListSlice n t s) (Inr vs, s') \<and>
    advanced (length (enc_list (concat (map rlp_enc vs)))) s s'"
proof -
  let ?p = "concat (map rlp_enc vs)"
  obtain s2 where s2: "stream_List s = (Inr (of_nat (length ?p)), s2)" "stream_ok s2" "st_kind s2 = None"
    "st_in s2 = ?p @ r" "room s2 = length ?p" "st_stack s2 \<noteq> []"
    and close: "\<And>s3. moved (length ?p) s2 s3 \<Longrightarrow>
      \<exists>s4. stream_ListEnd s3 = (Inr (), s4) \<and> advanced (length (enc_list ?p)) s s4"
    by (rule list_frame [OF ok fresh s room]) blast
  have n: "length ?p < 2 ^ 64" using s ok by (simp add: stream_ok_def enc_list_def)
  show ?thesis
  proof (cases vs)
    case Nil
    obtain s4 where "stream_ListEnd s2 = (Inr (), s4)" "advanced (length (enc_list ?p)) s s4"
      using close [of s2] moved_0 [OF s2(2)] Nil by auto
    moreover from this have "finally_is (\<lambda>n. decodeListSlice n t s) (Inr [], s4)"
      using s2(1) Nil by (intro finally_isI) (simp add: dbind_def)
    ultimately show ?thesis using Nil by auto
  next
    case (Cons v vs')
    then have "?p \<noteq> []" using vs decodes_ne by auto
    then have nz: "(of_nat (length ?p) :: u64) \<noteq> 0" using of_nat_u64_zero [OF n] by simp
    obtain s3 where s3: "finally_is (\<lambda>n. decodeSliceElems n t s2) (Inr vs, s3)" "moved (length ?p) s2 s3"
      using decode_elems [OF vs eol s2(2,3,6,4,5)] by blast
    obtain s4 where s4: "stream_ListEnd s3 = (Inr (), s4)" "advanced (length (enc_list ?p)) s s4"
      using close [OF s3(2)] by blast
    have "finally_is (\<lambda>n. decodeListSlice n t s) (Inr vs, s4)"
      by (rule finally_is_step [OF s3(1)]) (use s2(1) s4(1) nz in \<open>simp add: dbind_def\<close>)
    with s4(2) show ?thesis by blast
  qed
qed

lemma decodesI:
  assumes "kind_ok kc" and "rlp_enc v = enc_kind kc"
    and "\<And>s r. stream_ok s \<Longrightarrow> st_kind s = None \<Longrightarrow> st_in s = rlp_enc v @ r \<Longrightarrow> length (rlp_enc v) \<le> room s \<Longrightarrow>
      \<exists>s'. finally_is (\<lambda>n. decode n t s) (Inr v, s') \<and> advanced (length (rlp_enc v)) s s'"
  shows "decodes t v"
  using assms unfolding decodes_def by blast

lemma string_kind: "\<exists>kc. kind_ok kc \<and> enc_string c = enc_kind kc"
  by (intro exI [of _ "(if length c = 1 \<and> hd c \<le> 0x7F then Byte else String, c)"])
    (simp add: kind_ok_def enc_kind_def)

lemma list_kind: "kind_ok (List, p)" "enc_kind (List, p) = enc_list p"
  by (simp_all add: kind_ok_def enc_kind_def)

text \<open>A decoder that is one call of a stream operation over a string.\<close>

lemma decodes_leaf:
  assumes "rlp_enc v = enc_string c"
    and op: "\<And>s r. stream_ok s \<Longrightarrow> st_kind s = None \<Longrightarrow> st_in s = enc_string c @ r \<Longrightarrow> length (enc_string c) \<le> room s \<Longrightarrow>
      \<exists>s'. f s = (Inr x, s') \<and> advanced (length (enc_string c)) s s'"
    and d: "\<And>n s. decode (Suc n) t s = Some (sbind (f s) (\<lambda>y s1. (Inr (g y), s1)))" and "v = g x"
  shows "decodes t v"
proof -
  obtain kc where "kind_ok kc" "rlp_enc v = enc_kind kc" using string_kind assms(1) by metis
  then show ?thesis
  proof (rule decodesI)
    fix s r
    assume "stream_ok s" "st_kind s = None" "st_in s = rlp_enc v @ r" "length (rlp_enc v) \<le> room s"
    with op assms(1) obtain s' where s': "f s = (Inr x, s')" "advanced (length (rlp_enc v)) s s'" by metis
    then have "finally_is (\<lambda>n. decode n t s) (Inr v, s')"
      using \<open>v = g x\<close> by (intro finally_isI) (simp add: d sbind_def)
    with s' show "\<exists>s'. finally_is (\<lambda>n. decode n t s) (Inr v, s') \<and> advanced (length (rlp_enc v)) s s'" by blast
  qed
qed

lemma decodes_raw:
  assumes "length b < 2 ^ 64" and "Split b = Inr (k, c, [])"
  shows "decodes TRaw (VRaw b)"
proof -
  have b: "kind_ok (k, c)" "b = enc_kind (k, c)" using Split_inv [OF assms(2,1)] by auto
  show ?thesis
  proof (rule decodesI [OF b(1)])
    fix s r
    assume "stream_ok s" "st_kind s = None" "st_in s = rlp_enc (VRaw b) @ r" "length (rlp_enc (VRaw b)) \<le> room s"
    then obtain s' where "stream_Raw s = (Inr b, s')" "advanced (length (rlp_enc (VRaw b))) s s'"
      using stream_Raw_ok [OF _ _ b(1), of s r] b(2) by auto
    then show "\<exists>s'. finally_is (\<lambda>n. decode n TRaw s) (Inr (VRaw b), s') \<and> advanced (length (rlp_enc (VRaw b))) s s'"
      by (intro exI [of _ s'] conjI finally_isI) (simp_all add: sbind_def)
  qed (simp add: b)
qed

text \<open>A decoder that opens a list, reads its content and closes it.\<close>

lemma decodes_list:
  assumes enc: "rlp_enc v = enc_list p"
    and body: "\<And>s r. stream_ok s \<Longrightarrow> st_kind s = None \<Longrightarrow> st_in s = p @ r \<Longrightarrow> length p \<le> room s \<Longrightarrow>
      \<exists>s'. finally_is (\<lambda>n. f n s) (Inr x, s') \<and> moved (length p) s s'"
    and d: "\<And>n s. decode (Suc n) t s = dbind (Some (stream_List s)) (\<lambda>_ s1. dbind (f n s1) (\<lambda>y s2.
      dbind (Some (stream_ListEnd s2)) (\<lambda>_ s3. Some (Inr (g y), s3))))" and v: "v = g x"
  shows "decodes t v"
proof (rule decodesI [OF list_kind(1) [of p]])
  fix s r
  assume s: "stream_ok s" "st_kind s = None" "st_in s = rlp_enc v @ r" "length (rlp_enc v) \<le> room s"
  note s' = s(3,4) [unfolded enc]
  obtain s2 where s2: "stream_List s = (Inr (of_nat (length p)), s2)" "stream_ok s2" "st_kind s2 = None"
    "st_in s2 = p @ r" "room s2 = length p"
    and close: "\<And>s3. moved (length p) s2 s3 \<Longrightarrow>
      \<exists>s4. stream_ListEnd s3 = (Inr (), s4) \<and> advanced (length (enc_list p)) s s4"
    by (rule list_frame [OF s(1,2) s']) blast
  obtain s3 where s3: "finally_is (\<lambda>n. f n s2) (Inr x, s3)" "moved (length p) s2 s3"
    using body [OF s2(2-4)] s2(5) by auto
  obtain s4 where s4: "stream_ListEnd s3 = (Inr (), s4)" "advanced (length (enc_list p)) s s4"
    using close [OF s3(2)] by blast
  have "finally_is (\<lambda>n. decode n t s) (Inr v, s4)"
    by (rule finally_is_step [OF s3(1)]) (simp add: d s2(1) s4(1) v dbind_def)
  with s4(2) enc show "\<exists>s'. finally_is (\<lambda>n. decode n t s) (Inr v, s') \<and> advanced (length (rlp_enc v)) s s'"
    by auto
qed (simp add: enc list_kind)

lemma decodes_slice:
  assumes "list_all (decodes t) vs" and "eol_typ t"
  shows "decodes (TSlice False t) (VSlice False vs)"
proof (rule decodesI [OF list_kind(1) [of "concat (map rlp_enc vs)"]])
  fix s r
  assume s: "stream_ok s" "st_kind s = None" "st_in s = rlp_enc (VSlice False vs) @ r"
    "length (rlp_enc (VSlice False vs)) \<le> room s"
  then obtain s' where s': "finally_is (\<lambda>n. decodeListSlice n t s) (Inr vs, s')"
      "advanced (length (rlp_enc (VSlice False vs))) s s'"
    using decode_list_slice [OF assms s(1,2), of r] by auto
  have "finally_is (\<lambda>n. decode n (TSlice False t) s) (Inr (VSlice False vs), s')"
    by (rule finally_is_step [OF s'(1)]) (simp add: dbind_def)
  with s'(2) show "\<exists>s'. finally_is (\<lambda>n. decode n (TSlice False t) s) (Inr (VSlice False vs), s') \<and>
    advanced (length (rlp_enc (VSlice False vs))) s s'" by blast
qed (simp add: list_kind)

lemma decodes_ptr:
  assumes "decodes t v"
  shows "decodes (TPtr k t) (VPtr k (Some v))"
proof -
  obtain kc where kc: "kind_ok kc" "rlp_enc v = enc_kind kc" using assms by (auto simp: decodes_def)
  show ?thesis
  proof (rule decodesI [OF kc(1)])
    fix s r
    assume s: "stream_ok s" "st_kind s = None" "st_in s = rlp_enc (VPtr k (Some v)) @ r"
      "length (rlp_enc (VPtr k (Some v))) \<le> room s"
    then obtain s' where s': "finally_is (\<lambda>n. decode n t s) (Inr v, s')" "advanced (length (rlp_enc v)) s s'"
      using decodesD [OF assms, of s r] by auto
    have "finally_is (\<lambda>n. decode n (TPtr k t) s) (Inr (VPtr k (Some v)), s')"
      by (rule finally_is_step [OF s'(1)]) (simp add: dbind_def)
    with s'(2) show "\<exists>s'. finally_is (\<lambda>n. decode n (TPtr k t) s) (Inr (VPtr k (Some v)), s') \<and>
      advanced (length (rlp_enc (VPtr k (Some v)))) s s'" by auto
  qed (simp add: kc)
qed

lemma stream_Kind_enc:
  assumes kc: "kind_ok (k, c)" and ok: "stream_ok s" and fresh: "st_kind s = None"
    and s: "st_in s = enc_kind (k, c) @ r" and room: "length (enc_kind (k, c)) \<le> room s"
  shows "\<exists>s1. stream_Kind s = (Inr (k, if k = Byte then 0 else of_nat (length c)), s1) \<and>
    headed s k (if k = Byte then 0 else of_nat (length c)) s1"
proof (cases "k = Byte")
  case True
  then obtain b where c: "c = [b]" "b < 0x80"
    using kc by (cases c) (auto simp: kind_ok_def word_le_nat_alt word_less_nat_alt)
  then have "st_in s = b # r" using s True kc by (simp add: enc_kind_def enc_string_def kind_ok_def)
  moreover have "1 \<le> room s" using room True c kc by (simp add: enc_kind_def enc_string_def kind_ok_def)
  ultimately show ?thesis using stream_Kind_byte [OF ok fresh, of b r] c True by auto
next
  case False
  have e: "enc_kind (k, c) = head_of k (length c) @ c" using enc_kind_head [OF kc] False by simp
  have "length c < 2 ^ 64" using ok s by (simp add: e stream_ok_def)
  with stream_Kind_head [OF ok fresh False, of "length c" "c @ r"] s room False show ?thesis by (simp add: e)
qed

lemma Kind_ahead:
  assumes "decodes t v" and "stream_ok s" and "st_kind s = None" and "st_in s = rlp_enc v @ r"
    and "length (rlp_enc v) \<le> room s"
  shows "\<exists>k c sz s1. rlp_enc v = enc_kind (k, c) \<and> kind_ok (k, c) \<and> sz = (if k = Byte then 0 else of_nat (length c)) \<and>
    length c < 2 ^ 64 \<and> stream_Kind s = (Inr (k, sz), s1) \<and> stream_Kind s1 = (Inr (k, sz), s1)"
proof -
  obtain k c where kc: "kind_ok (k, c)" "rlp_enc v = enc_kind (k, c)" using assms(1) by (auto simp: decodes_def)
  obtain s1 where s1: "stream_Kind s = (Inr (k, if k = Byte then 0 else of_nat (length c)), s1)"
      "headed s k (if k = Byte then 0 else of_nat (length c)) s1"
    using stream_Kind_enc [OF kc(1) assms(2,3)] assms(4,5) kc(2) by auto
  have "length c \<le> length (enc_kind (k, c))" by (simp add: enc_kind_def enc_list_def enc_string_def)
  also have "\<dots> < 2 ^ 64" using assms(2,4) kc(2) by (simp add: stream_ok_def)
  finally show ?thesis using s1 kc stream_Kind_cached [OF s1(2)] by blast
qed

lemma decodes_nilptr_None:
  assumes k: "k \<noteq> Byte"
  shows "decodes (TNilPtr k t) (VPtr k None)"
proof -
  have kc: "kind_ok (k, [])" "rlp_enc (VPtr k None) = enc_kind (k, [])" and h: "rlp_enc (VPtr k None) = head_of k 0"
    using k by (cases k; simp add: kind_ok_def enc_kind_def enc_string_def enc_list_def head_of_def rlp_head_def)+
  show ?thesis
  proof (rule decodesI [OF kc])
    fix s r
    assume s: "stream_ok s" "st_kind s = None" "st_in s = rlp_enc (VPtr k None) @ r"
      "length (rlp_enc (VPtr k None)) \<le> room s"
    obtain s1 where s1: "stream_Kind s = (Inr (k, 0), s1)" "headed s k 0 s1"
      using stream_Kind_enc [OF kc(1) s(1,2)] s(3,4) kc(2) k by auto
    have "finally_is (\<lambda>n. decode n (TNilPtr k t) s) (Inr (VPtr k None), s1\<lparr>st_kind := None\<rparr>)"
      by (rule finally_isI) (simp add: dbind_def s1(1) k)
    moreover have "advanced (length (rlp_enc (VPtr k None))) s (s1\<lparr>st_kind := None\<rparr>)"
      using s1(2) k h by (auto simp: headed_def advanced_def intro: moved_same_view)
    ultimately show "\<exists>s'. finally_is (\<lambda>n. decode n (TNilPtr k t) s) (Inr (VPtr k None), s') \<and>
      advanced (length (rlp_enc (VPtr k None))) s s'" by blast
  qed
qed

lemma empty_kind: "enc_kind (k, []) = [0x80] \<or> enc_kind (k, []) = [0xC0]"
  by (simp add: enc_kind_def enc_string_def enc_list_def rlp_head_def)

lemma decodes_nilptr_Some:
  assumes d: "decodes t v" and ne: "rlp_enc v \<noteq> [0x80]" "rlp_enc v \<noteq> [0xC0]"
  shows "decodes (TNilPtr k t) (VPtr k (Some v))"
proof -
  obtain kc where kc: "kind_ok kc" "rlp_enc (VPtr k (Some v)) = enc_kind kc" using d by (auto simp: decodes_def)
  show ?thesis
  proof (rule decodesI [OF kc])
    fix s r
    assume s: "stream_ok s" "st_kind s = None" "st_in s = rlp_enc (VPtr k (Some v)) @ r"
      "length (rlp_enc (VPtr k (Some v))) \<le> room s"
    obtain k' c sz s1 where a: "rlp_enc v = enc_kind (k', c)" "sz = (if k' = Byte then 0 else of_nat (length c))"
      "length c < 2 ^ 64" and s1: "stream_Kind s = (Inr (k', sz), s1)" "stream_Kind s1 = (Inr (k', sz), s1)"
      using Kind_ahead [OF d s(1,2)] s(3,4) by auto
    have "c \<noteq> []" using a(1) ne empty_kind by metis
    then have nz: "\<not> (k' \<noteq> Byte \<and> sz = 0)" using a(2,3) of_nat_u64_zero [OF a(3)] by auto
    obtain s' where s': "finally_is (\<lambda>n. decode n t s) (Inr v, s')" "advanced (length (rlp_enc v)) s s'"
      using decodesD [OF d s(1,2)] s(3,4) by auto
    have "finally_is (\<lambda>n. decode n (TNilPtr k t) s) (Inr (VPtr k (Some v)), s')"
      by (rule finally_is_step [OF s'(1)]) (use nz decode_cached [OF s1] in \<open>auto simp: dbind_def s1(1)\<close>)
    with s'(2) show "\<exists>s'. finally_is (\<lambda>n. decode n (TNilPtr k t) s) (Inr (VPtr k (Some v)), s') \<and>
      advanced (length (rlp_enc (VPtr k (Some v)))) s s'" by auto
  qed
qed

lemma decodes_iface: "is_iface v \<Longrightarrow> decodes TInterface v"
proof (induction v rule: is_iface.induct)
  case (1 b)
  let ?v = "VInterface (Some (VBytes b))"
  let ?k = "if length b = 1 \<and> hd b \<le> 0x7F then Byte else String"
  have kc: "kind_ok (?k, b)" "rlp_enc ?v = enc_kind (?k, b)" by (simp_all add: kind_ok_def enc_kind_def)
  show ?case
  proof (rule decodesI [OF kc])
    fix s r
    assume s: "stream_ok s" "st_kind s = None" "st_in s = rlp_enc ?v @ r" "length (rlp_enc ?v) \<le> room s"
    obtain sz s1 where s1: "stream_Kind s = (Inr (?k, sz), s1)" "headed s ?k sz s1"
      using stream_Kind_enc [OF kc(1) s(1,2)] s(3,4) kc(2) by auto
    obtain s' where s': "stream_Bytes s = (Inr b, s')" "advanced (length (rlp_enc ?v)) s s'"
      using stream_Bytes_ok [OF s(1,2)] s(3,4) by auto
    have "stream_Bytes s1 = (Inr b, s')"
      using s'(1) s1(1) stream_Kind_cached [OF s1(2)] by (simp add: stream_Bytes_def sbind_def)
    then have "finally_is (\<lambda>n. decode n TInterface s) (Inr ?v, s')"
      by (intro finally_isI) (simp add: dbind_def s1(1))
    with s'(2) show "\<exists>s'. finally_is (\<lambda>n. decode n TInterface s) (Inr ?v, s') \<and> advanced (length (rlp_enc ?v)) s s'"
      by blast
  qed
next
  case (2 tail vs)
  let ?v = "VInterface (Some (VSlice False vs))"
  have vs: "list_all (decodes TInterface) vs" and t: "tail = False"
    using 2 by (auto simp: list_all_iff)
  have "decodes TInterface ?v"
  proof (rule decodesI [OF list_kind(1) [of "concat (map rlp_enc vs)"]])
    fix s r
    assume s: "stream_ok s" "st_kind s = None" "st_in s = rlp_enc ?v @ r" "length (rlp_enc ?v) \<le> room s"
    obtain sz s1 where s1: "stream_Kind s = (Inr (List, sz), s1)" "headed s List sz s1"
      using stream_Kind_enc [OF list_kind(1) [of "concat (map rlp_enc vs)"] s(1,2), of r] s(3,4) by (auto simp: list_kind)
    obtain s' where s': "finally_is (\<lambda>n. decodeListSlice n TInterface s) (Inr vs, s')" "advanced (length (rlp_enc ?v)) s s'"
      using decode_list_slice [OF vs _ s(1,2)] s(3,4) by auto
    have "finally_is (\<lambda>n. decode n TInterface s) (Inr ?v, s')"
      by (rule finally_is_step [OF s'(1)])
        (use decode_cached [OF s1(1) stream_Kind_cached [OF s1(2)]] in \<open>simp add: dbind_def s1(1)\<close>)
    with s'(2) show "\<exists>s'. finally_is (\<lambda>n. decode n TInterface s) (Inr ?v, s') \<and> advanced (length (rlp_enc ?v)) s s'"
      by blast
  qed (simp add: list_kind)
  with t show ?case by simp
qed simp_all

lemma has_type_decodes:
  shows "has_type v t \<Longrightarrow> decodes t v" and "has_types vs ts \<Longrightarrow> list_all2 decodes ts vs"
proof (induction v t and vs ts rule: has_type_has_types.induct)
  case (1 b t)
  then show ?case by (auto intro: decodes_raw split: sum.splits)
next
  case (2 i t)
  then show ?case
    by (auto split: rlp_typ.splits intro!: decodes_leaf [where f = "stream_uint _" and g = VUint, OF _ stream_uint_ok])
next
  case (3 b t)
  then show ?case
    by (auto intro!: decodes_leaf [where f = stream_Bool and g = VBool and v = "VBool b", OF _ stream_Bool_ok] simp del: if_split)
next
  case (4 p t)
  then show ?case
    by (auto split: option.splits intro!: decodes_leaf [where f = decodeBigInt and g = "\<lambda>i. VBigPtr (Some i)", OF _ decodeBigInt_ok])
next
  case (5 i t)
  then show ?case
    by (auto intro!: decodes_leaf [where f = decodeBigInt and g = VBig, OF _ decodeBigInt_ok])
next
  case (6 b t)
  then show ?case
    by (auto intro!: decodes_leaf [where f = stream_Bytes and g = VBytes, OF _ stream_Bytes_ok])
next
  case (7 b t)
  then show ?case
    by (auto intro!: decodes_leaf [where f = "decodeByteArray (length b)" and g = VByteArray, OF _ decodeByteArray_ok])
next
  case (8 b t)
  then show ?case
    by (auto intro!: decodes_leaf [where f = stream_Bytes and g = VString, OF _ stream_Bytes_ok])
next
  case (9 p t)
  then show ?case by (auto intro: decodes_iface)
next
  case (10 tail vs t)
  then have tail: "tail = False" by simp
  show ?case
  proof (cases t)
    case (TSlice tagged t')
    with 10 have "list_all (decodes t') vs" "eol_typ t'" "tagged = False" by (auto simp: list_all_iff)
    with TSlice tail show ?thesis by (auto intro: decodes_slice)
  next
    case (TArray n t')
    with 10 have "list_all (decodes t') vs" and n: "n = length vs" by (auto simp: list_all_iff)
    then have "decodes (TArray n t') (VSlice False vs)"
      by (intro decodes_list [where f = "\<lambda>k. decodeArrayElems k n t'" and g = "VSlice False" and x = vs])
        (auto intro: decode_array)
    with TArray tail show ?thesis by simp
  qed (use 10 in auto)
next
  case (11 vs t)
  then obtain ts where t: "t = TStruct ts" "list_all2 decodes ts vs" by (auto split: rlp_typ.splits)
  then have "decodes (TStruct ts) (VStruct vs)"
    by (intro decodes_list [where f = "\<lambda>k. decodeFields k ts" and g = VStruct and x = vs]) (auto intro: decode_fields)
  with t show ?case by simp
next
  case (12 k t)
  then show ?case by (auto split: rlp_typ.splits intro: decodes_nilptr_None)
next
  case (13 k v t)
  then show ?case by (auto split: rlp_typ.splits intro: decodes_nilptr_Some decodes_ptr)
next
  case (15 v vs ts)
  then show ?case by (auto split: list.splits)
qed simp

lemma stream_ok_Reset: "length b < 2 ^ 64 \<Longrightarrow> stream_ok (stream_Reset b (of_nat (length b)))"
  and Reset_view: "st_kind (stream_Reset b n) = None" "st_in (stream_Reset b n) = b" "room (stream_Reset b n) = length b"
  by (auto simp: stream_Reset_def stream_ok_def room_def)

lemma is_iface_encodable: "is_iface v \<Longrightarrow> encodable v"
  by (induction v rule: is_iface.induct) (auto simp: list_all_iff)

lemma has_type_encodable:
  shows "has_type v t \<Longrightarrow> encodable v" and "has_types vs ts \<Longrightarrow> list_all encodable vs"
  by (induction v t and vs ts rule: has_type_has_types.induct)
    (auto split: option.splits rlp_typ.splits list.splits simp: list_all_iff is_iface_encodable)

lemma DecodeBytes_rlp_enc:
  assumes "has_type v t" and "length (rlp_enc v) < 2 ^ 64"
  shows "\<exists>N. \<forall>n \<ge> N. DecodeBytes n (rlp_enc v) t = Some (Inr v)"
proof -
  let ?s = "stream_Reset (rlp_enc v) (of_nat (length (rlp_enc v)))"
  obtain s' where s': "finally_is (\<lambda>n. decode n t ?s) (Inr v, s')" "advanced (length (rlp_enc v)) ?s s'"
    using decodesD [OF has_type_decodes(1) [OF assms(1)] stream_ok_Reset [OF assms(2)], of "[]"]
    by (auto simp: Reset_view)
  have e: "st_in s' = []" using s'(2) by (simp add: advanced_def moved_def Reset_view)
  obtain N where N: "\<forall>n \<ge> N. decode n t ?s = Some (Inr v, s')" using s'(1) by (auto simp: finally_is_def)
  have "DecodeBytes n (rlp_enc v) t = Some (Inr v)" if "N \<le> n" for n
    using N that e by (simp add: DecodeBytes_def)
  then show ?thesis by blast
qed

text \<open>
  C12: Decoding inverts encoding: for every value of a type (\<open>has_type\<close>) whose encoding fits into
  memory, \<open>EncodeToBytes\<close> succeeds and \<open>DecodeBytes\<close> of its result returns the value, once the bound
  on nested calls is large enough.
\<close>

theorem DecodeBytes_EncodeToBytes:
  assumes "has_type v t" and "length (rlp_enc v) < 2 ^ 64"
  shows "\<exists>b. EncodeToBytes v = Some (Inr b) \<and> (\<exists>N. \<forall>n \<ge> N. DecodeBytes n b t = Some (Inr v))"
  using DecodeBytes_rlp_enc [OF assms] EncodeToBytes_rlp_enc [OF assms(2)] has_type_encodable(1) [OF assms(1)] by simp

theorem DecodeBytes_EncodeToBytes_witness:
  "\<exists>b. EncodeToBytes (VStruct [VUint 1024, VSlice False [VBytes [9]]]) = Some (Inr b) \<and>
     (\<exists>N. \<forall>n \<ge> N. DecodeBytes n b (TStruct [TUint 64, TSlice False TBytes]) =
       Some (Inr (VStruct [VUint 1024, VSlice False [VBytes [9]]])))"
  by (rule DecodeBytes_EncodeToBytes) (simp_all add: enc_list_def enc_string_def rlp_head_def be_bytes.simps)

end
