(* ===== verification/Rlp_Canonical.thy ===== *)
theory Rlp_Canonical
  imports Rlp_Roundtrip
begin

text \<open>
  The converse of \<open>Rlp_Roundtrip\<close>: whatever the decoders of \<open>rlp/decode.go\<close> accept is the encoding of
  what they return.
\<close>


section \<open>Accepted input is canonical\<close>

text \<open>The stream has consumed exactly \<open>e\<close>.\<close>

definition took :: "bytes \<Rightarrow> stream \<Rightarrow> stream \<Rightarrow> bool" where
  "took e s s' \<longleftrightarrow> (\<exists>r. st_in s = e @ r) \<and> advanced (length e) s s'"

lemma tookD: "took e s s' \<Longrightarrow> stream_ok s \<Longrightarrow> stream_ok s' \<and> st_kind s' = None \<and> st_in s = e @ st_in s'"
  using moved_ok(1) by (auto simp: took_def advanced_def moved_def)

lemma took_append:
  assumes "took a s s1" and "took b s1 s2" and "stream_ok s"
  shows "took (a @ b) s s2"
proof -
  have "st_in s = a @ b @ st_in s2" using tookD [OF assms(1,3)] tookD [OF assms(2)] by auto
  moreover have "moved (length a + length b) s s2"
    using moved_trans [of "length a" s s1 "length b" s2] assms by (simp add: took_def advanced_def)
  ultimately show ?thesis using assms(2) by (simp add: took_def advanced_def)
qed

lemma noEOL:
  "fst (willRead n s) \<noteq> Inl EOL" "fst (readFull k s) \<noteq> Inl EOL" "fst (readByte s) \<noteq> Inl EOL" "fst (readUint k s) \<noteq> Inl EOL"
proof -
  show w: "fst (willRead n s) \<noteq> Inl EOL" for n s
    by (auto simp: willRead_def Let_def split: list.split prod.split)
  show f: "fst (readFull k s) \<noteq> Inl EOL" for k s
    using w [of "of_nat k" s] by (auto simp: readFull_def sbind_def split: sum.split prod.split)
  show b: "fst (readByte s) \<noteq> Inl EOL" for s
    using w [of 1 s] by (auto simp: readByte_def sbind_def split: sum.split prod.split list.split)
  show "fst (readUint k s) \<noteq> Inl EOL"
    using f [of k s] b [of s] by (auto simp: readUint_def sbind_def split: sum.split prod.split)
qed

lemma readKind_noEOL: "stream_readKind s \<noteq> ((k, sz, Some EOL), s1)"
proof
  assume a: "stream_readKind s = ((k, sz, Some EOL), s1)"
  have l: "readLong k n s' \<noteq> ((k1, sz1, Some EOL), s2)" for k n s' k1 sz1 s2
    using noEOL(4) [of n s'] by (auto simp: readLong_def split: sum.split prod.split)
  show False
    using a noEOL(3) [of s] by (auto simp: stream_readKind_def Let_def l split: sum.splits prod.splits if_splits)
qed

lemma stream_Kind_fresh:
  assumes "st_kind s = None"
  shows "stream_Kind s =
    (if (case st_stack s of [] \<Rightarrow> False | (pos, sz) # _ \<Rightarrow> pos = sz) then (Inl EOL, s\<lparr>st_kinderr := None\<rparr>)
     else let ((k, sz, err), s1) = stream_readKind (s\<lparr>st_kinderr := None\<rparr>);
          err' = (if err = None then
             (case st_stack s1 of
                [] \<Rightarrow> if st_limited s1 \<and> st_remaining s1 < sz then Some ErrValueTooLarge else None
              | (pos, tsz) # _ \<Rightarrow> if tsz - pos < sz then Some ErrElemTooLarge else None) else err);
          s2 = s1\<lparr>st_kind := Some k, st_size := sz, st_kinderr := err'\<rparr>
       in case err' of Some e \<Rightarrow> (Inl e, s2) | None \<Rightarrow> (Inr (k, sz), s2))"
proof (cases "case st_stack s of [] \<Rightarrow> False | (pos, sz) # _ \<Rightarrow> pos = sz")
  case False
  obtain k sz err s1 where "stream_readKind (s\<lparr>st_kinderr := None\<rparr>) = ((k, sz, err), s1)" by (metis prod.exhaust)
  with False assms show ?thesis
    by (cases err; cases "st_stack s1") (auto simp: stream_Kind_def Let_def split: option.split)
qed (use assms in \<open>simp add: stream_Kind_def\<close>)

lemma stream_Kind_stored: "st_kind s = Some k \<Longrightarrow> stream_Kind s = (case st_kinderr s of Some e \<Rightarrow> (Inl e, s) | None \<Rightarrow> (Inr (k, st_size s), s))"
  by (simp add: stream_Kind_def split: option.split)

lemma stream_Kind_again:
  assumes "stream_Kind s = (Inr x, s1)"
  shows "stream_Kind s1 = (Inr x, s1)"
proof (cases "st_kind s")
  case None
  obtain k sz err s2 where "stream_readKind (s\<lparr>st_kinderr := None\<rparr>) = ((k, sz, err), s2)" by (metis prod.exhaust)
  with assms show ?thesis
    unfolding stream_Kind_fresh [OF None] Let_def
    by (auto simp: stream_Kind_stored split: if_splits option.splits)
next
  case (Some k)
  with assms show ?thesis by (auto simp: stream_Kind_stored split: option.splits)
qed

lemma stream_Kind_EOL_inv:
  assumes "stream_Kind s = (Inl EOL, s1)" and "st_kind s = None"
  shows "s1 = s\<lparr>st_kinderr := None\<rparr>"
proof -
  obtain k sz err s2 where "stream_readKind (s\<lparr>st_kinderr := None\<rparr>) = ((k, sz, err), s2)" by (metis prod.exhaust)
  moreover from this readKind_noEOL have "err \<noteq> Some EOL" by metis
  ultimately show ?thesis
    using assms(1) unfolding stream_Kind_fresh [OF assms(2)] Let_def
    by (auto split: if_splits option.splits list.splits)
qed

lemma readFull_EOL [simp]: "readFull k s \<noteq> (Inl EOL, s1)" "readUint k s \<noteq> (Inl EOL, s1)"
  using noEOL(2) [of k s] noEOL(4) [of k s] by auto

lemma ops_EOL:
  "stream_Bytes s = (Inl EOL, s1) \<Longrightarrow> stream_Kind s = (Inl EOL, s1)"
  "stream_Raw s = (Inl EOL, s1) \<Longrightarrow> stream_Kind s = (Inl EOL, s1)"
  "stream_uint bits s = (Inl EOL, s1) \<Longrightarrow> stream_Kind s = (Inl EOL, s1)"
  "stream_Bool s = (Inl EOL, s1) \<Longrightarrow> stream_Kind s = (Inl EOL, s1)"
  "decodeBigInt s = (Inl EOL, s1) \<Longrightarrow> stream_Kind s = (Inl EOL, s1)"
  "decodeByteArray len s = (Inl EOL, s1) \<Longrightarrow> stream_Kind s = (Inl EOL, s1)"
  "stream_List s = (Inl EOL, s1) \<Longrightarrow> stream_Kind s = (Inl EOL, s1)"
  "stream_ListEnd s \<noteq> (Inl EOL, s1)"
proof -
  show b: "stream_Bytes s = (Inl EOL, s1) \<Longrightarrow> stream_Kind s = (Inl EOL, s1)"
    by (auto simp: stream_Bytes_def sbind_def split: sum.splits prod.splits Kind.splits if_splits)
  show "stream_Raw s = (Inl EOL, s1) \<Longrightarrow> stream_Kind s = (Inl EOL, s1)"
    by (auto simp: stream_Raw_def sbind_def split: sum.splits prod.splits if_splits option.splits)
  show u: "stream_uint bits s = (Inl EOL, s1) \<Longrightarrow> stream_Kind s = (Inl EOL, s1)" for bits
    by (auto simp: stream_uint_def sbind_def split: sum.splits prod.splits Kind.splits if_splits)
  show "stream_Bool s = (Inl EOL, s1) \<Longrightarrow> stream_Kind s = (Inl EOL, s1)"
    using u [of 8] by (auto simp: stream_Bool_def sbind_def split: sum.splits prod.splits if_splits)
  show "decodeBigInt s = (Inl EOL, s1) \<Longrightarrow> stream_Kind s = (Inl EOL, s1)"
    using b by (auto simp: decodeBigInt_def sbind_def split: sum.splits prod.splits if_splits)
  show "decodeByteArray len s = (Inl EOL, s1) \<Longrightarrow> stream_Kind s = (Inl EOL, s1)"
    by (auto simp: decodeByteArray_def sbind_def split: sum.splits prod.splits Kind.splits if_splits)
  show "stream_List s = (Inl EOL, s1) \<Longrightarrow> stream_Kind s = (Inl EOL, s1)"
    by (auto simp: stream_List_def sbind_def split: sum.splits prod.splits if_splits)
  show "stream_ListEnd s \<noteq> (Inl EOL, s1)"
    by (auto simp: stream_ListEnd_def split: list.splits)
qed

lemma dbind_Inl: "dbind m f = Some (Inl e, s) \<longleftrightarrow> m = Some (Inl e, s) \<or> (\<exists>x s'. m = Some (Inr x, s') \<and> f x s' = Some (Inl e, s))"
  and dbind_Inr: "dbind m f = Some (Inr y, s) \<longleftrightarrow> (\<exists>x s'. m = Some (Inr x, s') \<and> f x s' = Some (Inr y, s))"
  and sbind_Inl: "sbind p g = (Inl e, s) \<longleftrightarrow> p = (Inl e, s) \<or> (\<exists>x s'. p = (Inr x, s') \<and> g x s' = (Inl e, s))"
  and sbind_Inr: "sbind p g = (Inr y, s) \<longleftrightarrow> (\<exists>x s'. p = (Inr x, s') \<and> g x s' = (Inr y, s))"
  by (auto simp: dbind_def sbind_def split: option.splits sum.splits prod.splits)

lemmas bind_iffs = dbind_Inl dbind_Inr sbind_Inl sbind_Inr

lemma decode_EOL_inv:
  "(decode n t s = Some (Inl EOL, s1) \<longrightarrow> stream_Kind s = (Inl EOL, s1)) \<and>
   (decodeListSlice n t s = Some (Inl EOL, s1) \<longrightarrow> stream_Kind s = (Inl EOL, s1)) \<and>
   decodeSliceElems n t s \<noteq> Some (Inl EOL, s1) \<and> decodeArrayElems n len t s \<noteq> Some (Inl EOL, s1) \<and>
   decodeFields n ts s \<noteq> Some (Inl EOL, s1)"
proof (induction n arbitrary: t s s1 len ts)
  case (Suc n)
  have IH: "decode n t s = Some (Inl EOL, s1) \<Longrightarrow> stream_Kind s = (Inl EOL, s1)"
    "decodeListSlice n t s = Some (Inl EOL, s1) \<Longrightarrow> stream_Kind s = (Inl EOL, s1)"
    "decodeSliceElems n t s \<noteq> Some (Inl EOL, s1)" "decodeArrayElems n len t s \<noteq> Some (Inl EOL, s1)"
    "decodeFields n ts s \<noteq> Some (Inl EOL, s1)" for t s s1 len ts
    using Suc.IH by blast+
  have again: "stream_Kind s2 \<noteq> (Inl e, s3)" if "stream_Kind s = (Inr x, s2)" for s x s2 e s3
    using stream_Kind_again [OF that] by simp
  have "decodeListSlice (Suc n) t s = Some (Inl EOL, s1) \<longrightarrow> stream_Kind s = (Inl EOL, s1)"
    by (auto simp: bind_iffs IH(3) ops_EOL(7,8) split: if_splits)
  moreover have "decodeSliceElems (Suc n) t s \<noteq> Some (Inl EOL, s1)"
    by (auto simp: bind_iffs IH(3) split: option.splits sum.splits prod.splits)
  moreover have "decodeArrayElems (Suc n) len t s \<noteq> Some (Inl EOL, s1)"
    by (auto simp: bind_iffs IH(4) split: option.splits sum.splits prod.splits)
  moreover have "decodeFields (Suc n) ts s \<noteq> Some (Inl EOL, s1)"
    by (cases ts) (auto simp: bind_iffs IH(5) split: option.splits sum.splits prod.splits)
  moreover have "decode (Suc n) t s = Some (Inl EOL, s1) \<longrightarrow> stream_Kind s = (Inl EOL, s1)"
    by (cases t) (auto simp: bind_iffs IH(3-) ops_EOL(8) split: if_splits dest: ops_EOL(1-7) IH(1,2) again)
  ultimately show ?case by blast
qed simp

lemma decode_EOL_took:
  "decode n t s = Some (Inl EOL, s1) \<Longrightarrow> st_kind s = None \<Longrightarrow> stream_ok s \<Longrightarrow> took [] s s1"
  using decode_EOL_inv [of n t s s1] stream_Kind_EOL_inv [of s s1] moved_0 [of s]
  by (auto simp: took_def advanced_def intro: moved_same_view)

text \<open>What each operation returns determines what it consumed.\<close>

lemma stream_Bytes_took:
  "stream_ok s \<Longrightarrow> st_kind s = None \<Longrightarrow> stream_Bytes s = (Inr c, s') \<Longrightarrow> took (enc_string c) s s'"
  using stream_Bytes_inv by (simp add: took_def)

lemma decodeBigInt_took:
  assumes "stream_ok s" and "st_kind s = None" and "decodeBigInt s = (Inr i, s')"
  shows "0 \<le> i \<and> took (enc_string (be_bytes (nat i))) s s'"
proof -
  obtain b where b: "stream_Bytes s = (Inr b, s')" "b = [] \<or> b ! 0 \<noteq> 0" "i = big_SetBytes b"
    using assms(3) by (auto simp: decodeBigInt_def sbind_def split: sum.splits prod.splits if_splits)
  have "b = [] \<or> hd b \<noteq> 0" using b(2) by (cases b) auto
  with b(3) have "be_bytes (nat i) = b" by (simp add: big_SetBytes_def be_bytes_be_val_id)
  with b stream_Bytes_took [OF assms(1,2) b(1)] show ?thesis by simp
qed

lemma headed_byte_took:
  "headed s Byte sz s1 \<Longrightarrow> took [st_byteval s1] s (s1\<lparr>st_kind := None\<rparr>)"
  by (auto simp: headed_def took_def advanced_def intro: moved_same_view)

lemma readFull_took:
  assumes "headed s k sz s1" and "k \<noteq> Byte" and "stream_ok s" and "readFull (unat sz) s1 = (Inr c, s2)"
  shows "length c = unat sz \<and> took (head_of k (length c) @ c) s s2"
  using readFull_content [OF assms(1-3)] assms(4) by (auto simp: took_def)

lemma enc_string_head:
  "\<not> (length c = 1 \<and> c ! 0 < 0x80) \<Longrightarrow> head_of String (length c) @ c = enc_string c"
  by (cases rule: enc_string_cases [of c]) auto

lemma headed_ok: "headed s k sz s1 \<Longrightarrow> stream_ok s \<Longrightarrow> stream_ok s1"
  using moved_ok(1) by (auto simp: headed_def split: if_splits)

lemma unat_u64_lt: "unat (x :: u64) < 2 ^ 64"
  by (rule order_less_le_trans [OF unsigned_less]) simp

lemma readUint_readFull:
  assumes "stream_ok s" and "0 < k" and "k \<le> 8" and "readUint k s = (Inr v, s')"
  shows "\<exists>c. readFull k s = (Inr c, s') \<and> length c = k \<and> unat v = be_val c \<and> (k = 1 \<or> hd c \<noteq> 0)"
proof -
  have k: "k \<le> room s" "k = 1 \<or> hd (st_in s) \<noteq> 0" using readUint_inv [OF assms(1-3), of v] assms(4) by auto
  let ?c = "take k (st_in s)"
  have c: "length ?c = k" using k(1) room_le [OF assms(1)] by simp
  have "be_val ?c < 256 ^ 8"
    using be_val_lt [of ?c] power_increasing [OF assms(3), of "256 :: nat"] c by simp
  then have "unat (of_nat (be_val ?c) :: u64) = be_val ?c" by (intro unat_of_nat_u64) simp
  moreover have "readUint k s = (Inr (of_nat (be_val ?c)), (read_state k s)\<lparr>st_in := drop k (st_in s)\<rparr>)"
    by (rule readUint_ok [OF assms(1-3) k])
  moreover have "readFull k s = (Inr ?c, (read_state k s)\<lparr>st_in := drop k (st_in s)\<rparr>)"
    using readFull_iff(2) [OF assms(1) _ k(1)] assms(3) by simp
  moreover have "k = 1 \<or> hd ?c \<noteq> 0" using k(2) assms(2) by (simp add: hd_take)
  ultimately show ?thesis using assms(4) c by auto
qed

lemma stream_uint_took:
  assumes ok: "stream_ok s" and fresh: "st_kind s = None" and u: "stream_uint bits s = (Inr i, s')" and bits: "bits \<le> 64"
  shows "took (enc_string (be_bytes (unat i))) s s'"
proof -
  obtain k sz s1 where kd: "stream_Kind s = (Inr (k, sz), s1)"
    using u by (auto simp: stream_uint_def sbind_def split: sum.splits prod.splits)
  note h = stream_Kind_inv [OF ok fresh kd]
  show ?thesis
  proof (cases k)
    case Byte
    with u kd have b: "st_byteval s1 \<noteq> 0" "i = ucast (st_byteval s1)" "s' = s1\<lparr>st_kind := None\<rparr>"
      by (auto simp: stream_uint_def sbind_def split: if_splits)
    have "unat (ucast (st_byteval s1) :: u64) = unat (st_byteval s1)"
      by (simp add: unsigned_ucast_eq take_bit_eq_mod less_trans [OF unat_u8_lt])
    with b have "be_bytes (unat i) = [st_byteval s1]" by (simp add: be_bytes_unat)
    moreover have "enc_string [st_byteval s1] = [st_byteval s1]"
      using h Byte by (auto simp: headed_def enc_string_def word_le_nat_alt word_less_nat_alt)
    ultimately show ?thesis using headed_byte_took h Byte b(3) by auto
  next
    case String
    let ?k = "unat (ucast sz :: u8)"
    have sz: "\<not> of_nat (bits div 8) < sz" and r: "readUint ?k s1 = (Inr i, s')" and c: "\<not> (0 < sz \<and> i < 128)"
      using u kd String by (auto simp: stream_uint_def sbind_def split: if_splits sum.splits prod.splits)
    have lt: "unat sz < 2 ^ 64" by (rule unat_u64_lt)
    have "bits div 8 < 2 ^ 64" using bits by simp
    then have le: "unat sz \<le> 8" using sz bits of_nat_u64_less [OF _ lt, of "bits div 8"] by simp
    then have k: "?k = unat sz" by (simp add: unsigned_ucast_eq take_bit_eq_mod)
    show ?thesis
    proof (cases "unat sz = 0")
      case True
      with r k have "i = 0" "s' = s1\<lparr>st_kind := None\<rparr>" by (auto simp: readUint_def)
      moreover have "took (head_of String 0) s (s1\<lparr>st_kind := None\<rparr>)"
        using h String True by (auto simp: headed_def took_def advanced_def intro: moved_same_view)
      ultimately show ?thesis using enc_string_head [of "[]"] by simp
    next
      case False
      obtain c where c': "readFull (unat sz) s1 = (Inr c, s')" "length c = unat sz" "unat i = be_val c"
          "unat sz = 1 \<or> hd c \<noteq> 0"
        using readUint_readFull [OF headed_ok [OF h ok] _ le] r k False by auto
      have i: "128 \<le> be_val c" using c False c'(3) by (auto simp: word_less_nat_alt)
      have "hd c \<noteq> 0" using c'(2,4) i by (cases c) (auto simp: length_Suc_conv)
      then have "be_bytes (unat i) = c" using c'(3) by (simp add: be_bytes_be_val_id)
      moreover have "\<not> (length c = 1 \<and> c ! 0 < 0x80)"
        using i by (auto simp: length_Suc_conv word_less_nat_alt)
      ultimately show ?thesis
        using readFull_took [OF h _ ok c'(1)] String enc_string_head [of c] by (metis Kind.distinct(1))
    qed
  next
    case List
    with u kd show ?thesis by (simp add: stream_uint_def sbind_def)
  qed
qed

lemma stream_Bool_took:
  assumes "stream_ok s" and "st_kind s = None" and "stream_Bool s = (Inr b, s')"
  shows "took (enc_string (if b then [1] else [])) s s'"
proof -
  obtain i where i: "stream_uint 8 s = (Inr i, s')" "i = (if b then 1 else 0)"
    using assms(3) by (auto simp: stream_Bool_def sbind_def split: sum.splits prod.splits if_splits)
  then have "be_bytes (unat i) = (if b then [1] else [])" using be_bytes_unat [of 1] by simp
  with stream_uint_took [OF assms(1,2) i(1)] show ?thesis by simp
qed

lemma stream_Raw_took:
  assumes ok: "stream_ok s" and fresh: "st_kind s = None" and r: "stream_Raw s = (Inr b, s')"
  shows "took b s s'"
proof -
  obtain k sz s1 where kd: "stream_Kind s = (Inr (k, sz), s1)"
    using r by (auto simp: stream_Raw_def sbind_def split: sum.splits prod.splits)
  note h = stream_Kind_inv [OF ok fresh kd]
  show ?thesis
  proof (cases "k = Byte")
    case True
    with r kd headed_byte_took h show ?thesis by (auto simp: stream_Raw_def sbind_def)
  next
    case False
    obtain c s2 where c: "readFull (unat sz) s1 = (Inr c, s2)" "length c = unat sz" "took (head_of k (length c) @ c) s s2"
      using readFull_content [OF h False ok] readFull_took [OF h False ok] by blast
    have "of_nat (length c) = sz" "length c < 2 ^ 64" using c(2) unat_u64_lt [of sz] by simp_all
    with puthead_raw [of c k] r kd False c show ?thesis by (simp add: stream_Raw_def sbind_def)
  qed
qed

lemma decodeByteArray_took:
  assumes ok: "stream_ok s" and fresh: "st_kind s = None" and d: "decodeByteArray n s = (Inr c, s')" and n: "n \<noteq> 1" "n < 2 ^ 64"
  shows "took (enc_string c) s s'"
proof -
  obtain k sz s1 where kd: "stream_Kind s = (Inr (k, sz), s1)"
    using d by (auto simp: decodeByteArray_def sbind_def split: sum.splits prod.splits)
  note h = stream_Kind_inv [OF ok fresh kd]
  have k: "k = String" using d kd n by (cases k) (auto simp: decodeByteArray_def sbind_def split: if_splits)
  with d kd have "\<not> of_nat n < sz" "\<not> sz < of_nat n" and r: "readFull n s1 = (Inr c, s')"
    and c: "\<not> (sz = 1 \<and> c ! 0 < 128)"
    by (auto simp: decodeByteArray_def sbind_def split: if_splits sum.splits prod.splits)
  then have sz: "sz = of_nat n" by simp
  then have u: "unat sz = n" using unat_of_nat_u64 [OF n(2)] by simp
  have "length c = n \<and> took (head_of String (length c) @ c) s s'"
    using readFull_took [OF h _ ok] r k u by auto
  with enc_string_head [of c] c sz show ?thesis by auto
qed

text \<open>Types without one-byte arrays.\<close>

fun canon_typ :: "rlp_typ \<Rightarrow> bool" where
  "canon_typ (TUint bits) \<longleftrightarrow> bits \<le> 64"
| "canon_typ (TByteArray n) \<longleftrightarrow> n \<noteq> 1 \<and> n < 2 ^ 64"
| "canon_typ (TSlice tail t) \<longleftrightarrow> canon_typ t"
| "canon_typ (TArray n t) \<longleftrightarrow> canon_typ t"
| "canon_typ (TStruct ts) \<longleftrightarrow> list_all canon_typ ts"
| "canon_typ (TPtr k t) \<longleftrightarrow> canon_typ t"
| "canon_typ (TNilPtr k t) \<longleftrightarrow> canon_typ t"
| "canon_typ _ \<longleftrightarrow> True"

lemma list_took:
  assumes ok: "stream_ok s" and fresh: "st_kind s = None" and l: "stream_List s = (Inr sz, s1)"
    and p: "took p s1 s2" and e: "stream_ListEnd s2 = (Inr (), s3)"
  shows "took (enc_list p) s s3"
proof -
  note en = stream_List_inv [OF ok fresh l]
  have mv: "moved (length p) s1 s2" using p by (simp add: took_def advanced_def)
  have sz: "length p = unat sz" "advanced (length (head_of List (unat sz)) + unat sz) s s3"
    using stream_ListEnd_moved(2) [OF en mv ok e] by auto
  have "st_in s = head_of List (unat sz) @ p @ st_in s2"
    using entered_ok [OF en ok] tookD [OF p] by simp
  with sz show ?thesis by (simp add: took_def enc_list_def head_of_def)
qed

lemma entered_fresh: "stream_ok s \<Longrightarrow> st_kind s = None \<Longrightarrow> stream_List s = (Inr sz, s1) \<Longrightarrow> stream_ok s1 \<and> st_kind s1 = None"
  using entered_ok stream_List_inv by blast

lemma nil_took:
  assumes "stream_ok s" and "st_kind s = None" and "stream_Kind s = (Inr (k, 0), s1)" and "k \<noteq> Byte"
  shows "took (rlp_enc (VPtr k None)) s (s1\<lparr>st_kind := None\<rparr>)"
proof -
  have h: "headed s k 0 s1" by (rule stream_Kind_inv [OF assms(1-3)])
  have "rlp_enc (VPtr k None) = head_of k 0"
    using assms(4) by (cases k) (simp_all add: enc_string_def enc_list_def head_of_def rlp_head_def)
  with h assms(4) show ?thesis by (auto simp: headed_def took_def advanced_def intro: moved_same_view)
qed

text \<open>One induction for all decoders: what is returned is what was consumed.\<close>

definition reads :: "stream \<Rightarrow> rlp_val sres option \<Rightarrow> bool" where
  "reads s m \<longleftrightarrow> (\<forall>v s'. m = Some (Inr v, s') \<longrightarrow> encodable v \<and> took (rlp_enc v) s s')"

definition reads_all :: "(bytes \<Rightarrow> bytes) \<Rightarrow> stream \<Rightarrow> rlp_val list sres option \<Rightarrow> bool" where
  "reads_all f s m \<longleftrightarrow> (\<forall>vs s'. m = Some (Inr vs, s') \<longrightarrow> list_all encodable vs \<and> took (f (concat (map rlp_enc vs))) s s')"

lemma reads_Cons:
  assumes "stream_ok s" and "encodable v \<and> took (rlp_enc v) s s1"
    and "\<And>s. stream_ok s \<Longrightarrow> st_kind s = None \<Longrightarrow> reads_all id s (g s)" and "g s1 = Some (Inr vs, s2)"
  shows "list_all encodable (v # vs) \<and> took (concat (map rlp_enc (v # vs))) s s2"
  using assms(1,2,4) assms(3) [of s1] tookD [of "rlp_enc v" s s1] took_append [of "rlp_enc v" s s1 _ s2]
  by (simp add: reads_all_def)

lemma took_refl: "stream_ok s \<Longrightarrow> st_kind s = None \<Longrightarrow> took [] s s"
  using moved_0 by (simp add: took_def advanced_def)

lemma reads_list:
  assumes "stream_ok s" and "st_kind s = None"
    and "\<And>s. stream_ok s \<Longrightarrow> st_kind s = None \<Longrightarrow> reads_all id s (g s)"
  shows "reads_all enc_list s (dbind (Some (stream_List s)) (\<lambda>_ s1. dbind (g s1) (\<lambda>vs s2.
    dbind (Some (stream_ListEnd s2)) (\<lambda>_ s3. Some (Inr vs, s3)))))"
proof -
  have "list_all encodable vs \<and> took (enc_list (concat (map rlp_enc vs))) s s3"
    if "stream_List s = (Inr sz, s1)" "g s1 = Some (Inr vs, s2)" "stream_ListEnd s2 = (Inr (), s3)" for sz s1 vs s2 s3
    using list_took [OF assms(1,2) that(1) _ that(3)] assms(3) [of s1] that(2) entered_fresh [OF assms(1,2) that(1)]
    by (simp add: reads_all_def)
  then show ?thesis by (auto simp: reads_all_def bind_iffs)
qed

lemma reads_ops:
  assumes "stream_ok s" and "st_kind s = None"
  shows "reads s (Some (sbind (stream_Raw s) (\<lambda>b s1. (Inr (VRaw b), s1))))"
    and "bits \<le> 64 \<Longrightarrow> reads s (Some (sbind (stream_uint bits s) (\<lambda>i s1. (Inr (VUint i), s1))))"
    and "reads s (Some (sbind (stream_Bool s) (\<lambda>b s1. (Inr (VBool b), s1))))"
    and "reads s (Some (sbind (decodeBigInt s) (\<lambda>i s1. (Inr (VBigPtr (Some i)), s1))))"
    and "reads s (Some (sbind (decodeBigInt s) (\<lambda>i s1. (Inr (VBig i), s1))))"
    and "reads s (Some (sbind (stream_Bytes s) (\<lambda>b s1. (Inr (VBytes b), s1))))"
    and "n \<noteq> 1 \<Longrightarrow> n < 2 ^ 64 \<Longrightarrow> reads s (Some (sbind (decodeByteArray n s) (\<lambda>b s1. (Inr (VByteArray b), s1))))"
    and "reads s (Some (sbind (stream_Bytes s) (\<lambda>b s1. (Inr (VString b), s1))))"
  using stream_Raw_took [OF assms] stream_uint_took [OF assms, of bits] stream_Bool_took [OF assms]
    decodeBigInt_took [OF assms] stream_Bytes_took [OF assms] decodeByteArray_took [OF assms, of n]
  by (auto simp: reads_def bind_iffs simp del: if_split)

lemma reads_iface:
  assumes "stream_ok s" and "st_kind s = None" and "reads_all enc_list s (decodeListSlice n TInterface s)"
  shows "reads s (decode (Suc n) TInterface s)"
proof -
  have "encodable v \<and> took (rlp_enc v) s s'" if d: "decode (Suc n) TInterface s = Some (Inr v, s')" for v s'
  proof -
    obtain k sz s1 where k: "stream_Kind s = (Inr (k, sz), s1)" using d by (auto simp: bind_iffs)
    note k' = stream_Kind_again [OF k]
    have "stream_Bytes s1 = stream_Bytes s" using k k' by (simp add: stream_Bytes_def sbind_def)
    with d k decode_cached [OF k k', of n TInterface] assms(3) stream_Bytes_took [OF assms(1,2)] show ?thesis
      by (auto simp: bind_iffs reads_all_def split: if_splits)
  qed
  then show ?thesis by (simp add: reads_def)
qed

lemma reads_nilptr:
  assumes "stream_ok s" and "st_kind s = None" and "reads s (decode n t s)"
  shows "reads s (decode (Suc n) (TNilPtr nk t) s)"
proof -
  have "encodable v \<and> took (rlp_enc v) s s'" if d: "decode (Suc n) (TNilPtr nk t) s = Some (Inr v, s')" for v s'
  proof -
    obtain k sz s1 where k: "stream_Kind s = (Inr (k, sz), s1)" using d by (auto simp: bind_iffs)
    note k' = stream_Kind_again [OF k]
    show ?thesis
    proof (cases "k \<noteq> Byte \<and> sz = 0")
      case True
      with d k have "v = VPtr k None" "s' = s1\<lparr>st_kind := None\<rparr>" by (auto simp: bind_iffs split: if_splits)
      with nil_took [OF assms(1,2)] k True show ?thesis by auto
    next
      case False
      with d k decode_cached [OF k k', of n t] assms(3) show ?thesis
        by (auto simp: bind_iffs reads_def)
    qed
  qed
  then show ?thesis by (simp add: reads_def)
qed

lemma reads_elems:
  assumes "stream_ok s" and "st_kind s = None" and "reads s (decode n t s)"
    and "\<And>s. stream_ok s \<Longrightarrow> st_kind s = None \<Longrightarrow> reads_all id s (decodeSliceElems n t s)"
  shows "reads_all id s (decodeSliceElems (Suc n) t s)"
proof -
  have "list_all encodable vs \<and> took (concat (map rlp_enc vs)) s s'"
    if d: "decodeSliceElems (Suc n) t s = Some (Inr vs, s')" for vs s'
  proof -
    consider "decode n t s = Some (Inl EOL, s')" "vs = []"
      | v s1 vs' where "decode n t s = Some (Inr v, s1)" "decodeSliceElems n t s1 = Some (Inr vs', s')" "vs = v # vs'"
      using d by (auto simp: bind_iffs split: option.splits sum.splits prod.splits if_splits)
    then show ?thesis
    proof cases
      case 1
      with decode_EOL_took [OF 1(1) assms(2,1)] show ?thesis by simp
    next
      case 2
      with assms(3) have "encodable v \<and> took (rlp_enc v) s s1" by (simp add: reads_def)
      from reads_Cons [OF assms(1) this assms(4) 2(2)] 2(3) show ?thesis by blast
    qed
  qed
  then show ?thesis by (simp add: reads_all_def)
qed

lemma reads_array:
  assumes "stream_ok s" and "st_kind s = None" and "reads s (decode n t s)"
    and "\<And>s. stream_ok s \<Longrightarrow> st_kind s = None \<Longrightarrow> reads_all id s (decodeArrayElems n (len - 1) t s)"
  shows "reads_all id s (decodeArrayElems (Suc n) len t s)"
proof -
  have "list_all encodable vs \<and> took (concat (map rlp_enc vs)) s s'"
    if d: "decodeArrayElems (Suc n) len t s = Some (Inr vs, s')" for vs s'
  proof (cases "len = 0")
    case True
    with d took_refl [OF assms(1,2)] show ?thesis by auto
  next
    case False
    with d obtain v s1 vs' where v: "decode n t s = Some (Inr v, s1)"
        "decodeArrayElems n (len - 1) t s1 = Some (Inr vs', s')" "vs = v # vs'"
      by (auto simp: bind_iffs split: option.splits sum.splits prod.splits if_splits)
    with assms(3) have "encodable v \<and> took (rlp_enc v) s s1" by (simp add: reads_def)
    from reads_Cons [OF assms(1) this assms(4) v(2)] v(3) show ?thesis by blast
  qed
  then show ?thesis by (simp add: reads_all_def)
qed

lemma reads_fields:
  assumes "stream_ok s" and "st_kind s = None" and "reads s (decode n t s)"
    and "\<And>s. stream_ok s \<Longrightarrow> st_kind s = None \<Longrightarrow> reads_all id s (decodeFields n ts s)"
  shows "reads_all id s (decodeFields (Suc n) (t # ts) s)"
proof -
  have "list_all encodable vs \<and> took (concat (map rlp_enc vs)) s s'"
    if d: "decodeFields (Suc n) (t # ts) s = Some (Inr vs, s')" for vs s'
  proof -
    obtain v s1 vs' where v: "decode n t s = Some (Inr v, s1)"
        "decodeFields n ts s1 = Some (Inr vs', s')" "vs = v # vs'"
      using d by (auto simp: bind_iffs split: option.splits sum.splits prod.splits if_splits)
    with assms(3) have "encodable v \<and> took (rlp_enc v) s s1" by (simp add: reads_def)
    from reads_Cons [OF assms(1) this assms(4) v(2)] v(3) show ?thesis by blast
  qed
  then show ?thesis by (simp add: reads_all_def)
qed

lemma reads_empty_list:
  assumes "stream_ok s" and "st_kind s = None" and "stream_List s = (Inr sz, s1)" and "stream_ListEnd s1 = (Inr (), s2)"
  shows "took (enc_list []) s s2"
  using list_took [OF assms(1-3) took_refl assms(4)] entered_fresh [OF assms(1-3)] by simp

lemma reads_list_slice:
  assumes "stream_ok s" and "st_kind s = None"
    and "\<And>s. stream_ok s \<Longrightarrow> st_kind s = None \<Longrightarrow> reads_all id s (decodeSliceElems n t s)"
  shows "reads_all enc_list s (decodeListSlice (Suc n) t s)"
  using reads_list [OF assms] reads_empty_list [OF assms(1,2)]
  by (auto simp: reads_all_def bind_iffs split: if_splits)

lemma decode_reads:
  "(canon_typ t \<longrightarrow> stream_ok s \<longrightarrow> st_kind s = None \<longrightarrow> reads s (decode n t s)) \<and>
   (canon_typ t \<longrightarrow> stream_ok s \<longrightarrow> st_kind s = None \<longrightarrow> reads_all enc_list s (decodeListSlice n t s)) \<and>
   (canon_typ t \<longrightarrow> stream_ok s \<longrightarrow> st_kind s = None \<longrightarrow> reads_all id s (decodeSliceElems n t s)) \<and>
   (canon_typ t \<longrightarrow> stream_ok s \<longrightarrow> st_kind s = None \<longrightarrow> reads_all id s (decodeArrayElems n len t s)) \<and>
   (list_all canon_typ ts \<longrightarrow> stream_ok s \<longrightarrow> st_kind s = None \<longrightarrow> reads_all id s (decodeFields n ts s))"
proof (induction n arbitrary: t s len ts)
  case (Suc n)
  have IH: "canon_typ t \<Longrightarrow> stream_ok s \<Longrightarrow> st_kind s = None \<Longrightarrow> reads s (decode n t s)"
    "canon_typ t \<Longrightarrow> stream_ok s \<Longrightarrow> st_kind s = None \<Longrightarrow> reads_all enc_list s (decodeListSlice n t s)"
    "canon_typ t \<Longrightarrow> stream_ok s \<Longrightarrow> st_kind s = None \<Longrightarrow> reads_all id s (decodeSliceElems n t s)"
    "canon_typ t \<Longrightarrow> stream_ok s \<Longrightarrow> st_kind s = None \<Longrightarrow> reads_all id s (decodeArrayElems n len t s)"
    "list_all canon_typ ts \<Longrightarrow> stream_ok s \<Longrightarrow> st_kind s = None \<Longrightarrow> reads_all id s (decodeFields n ts s)" for t s len ts
    using Suc.IH by blast+
  have "reads s (decode (Suc n) t s)" if "canon_typ t" and s: "stream_ok s" "st_kind s = None"
  proof (cases t)
    case TInterface
    then show ?thesis using reads_iface [OF s IH(2)] s by simp
  next
    case (TSlice tail t')
    with that IH(2,3) [of t' s] show ?thesis by (auto simp: reads_def reads_all_def bind_iffs)
  next
    case (TArray m t')
    with that reads_list [OF s, of "decodeArrayElems n m t'"] IH(4) [of t' _ m] show ?thesis by (auto simp: reads_def reads_all_def bind_iffs)
  next
    case (TStruct us)
    with that reads_list [OF s, of "decodeFields n us"] IH(5) [of us] show ?thesis by (auto simp: reads_def reads_all_def bind_iffs)
  next
    case (TPtr k t')
    with that IH(1) [of t' s] show ?thesis by (auto simp: reads_def bind_iffs)
  next
    case (TNilPtr k t')
    with that IH(1) [of t' s] show ?thesis using reads_nilptr [OF s] by simp
  qed (use that reads_ops [OF s] in auto)
  moreover have "reads_all id s (decodeFields (Suc n) ts s)" if "list_all canon_typ ts" "stream_ok s" "st_kind s = None"
  proof (cases ts)
    case (Cons u us)
    with that reads_fields [OF that(2,3), of n u us] IH(1) [of u s] IH(5) [of us] show ?thesis by auto
  qed (use took_refl [OF that(2,3)] in \<open>auto simp: reads_all_def\<close>)
  ultimately show ?case
    using reads_list_slice [of s n t] reads_elems [of s n t] reads_array [of s n t len] IH(1,3) [of t] IH(4) [of t _ "len - 1"]
    by blast
qed (simp add: reads_def reads_all_def)

lemma DecodeBytes_accepts:
  assumes "canon_typ t" and "length b < 2 ^ 64" and "DecodeBytes n b t = Some (Inr v)"
  shows "encodable v \<and> rlp_enc v = b"
proof -
  let ?s = "stream_Reset b (of_nat (length b))"
  obtain s' where s': "decode n t ?s = Some (Inr v, s')" "st_in s' = []"
    using assms(3) by (auto simp: DecodeBytes_def split: option.splits prod.splits sum.splits if_splits)
  have "reads ?s (decode n t ?s)" using decode_reads assms(1) stream_ok_Reset [OF assms(2)] Reset_view(1) by blast
  with s'(1) have "encodable v" "took (rlp_enc v) ?s s'" by (simp_all add: reads_def)
  with tookD [OF this(2) stream_ok_Reset [OF assms(2)]] s'(2) show ?thesis by (simp add: Reset_view)
qed

text \<open>
  C14: The decoder accepts canonical input only: whatever \<open>DecodeBytes\<close> accepts for a type without
  one-byte arrays, \<open>EncodeToBytes\<close> gives back exactly from the decoded value. No two inputs decode to
  the same value.
\<close>

theorem EncodeToBytes_DecodeBytes:
  assumes "canon_typ t" and "length b < 2 ^ 64" and "DecodeBytes n b t = Some (Inr v)"
  shows "EncodeToBytes v = Some (Inr b)"
  using DecodeBytes_accepts [OF assms] EncodeToBytes_rlp_enc [of v] assms(2) by auto

theorem EncodeToBytes_DecodeBytes_witness:
  "EncodeToBytes (VStruct [VUint 1024, VSlice False [VBytes [9]]]) = Some (Inr [0xC5, 0x82, 4, 0, 0xC1, 9])"
proof (rule EncodeToBytes_DecodeBytes [of "TStruct [TUint 64, TSlice False TBytes]" _ 9])
  show "DecodeBytes 9 [0xC5, 0x82, 4, 0, 0xC1, 9] (TStruct [TUint 64, TSlice False TBytes]) =
    Some (Inr (VStruct [VUint 1024, VSlice False [VBytes [9]]]))" by code_simp
qed simp_all

text \<open>
  C30: A one-byte array is the exception: when the byte ahead is 0, \<open>decodeByteArray\<close> returns it without
  consuming it, because it drops the error of \<open>s.Uint()\<close>. The same byte is then read again, so a
  struct of two such arrays is accepted from an encoding that holds a single byte.
\<close>

theorem decodeByteArray_zero:
  assumes "stream_ok s" and "st_kind s = None" and "1 \<le> room s" and "st_in s = 0 # bs"
  shows "\<exists>s1. decodeByteArray 1 s = (Inr [0], s1) \<and> decodeByteArray 1 s1 = (Inr [0], s1)"
proof -
  obtain s1 where s1: "stream_Kind s = (Inr (Byte, 0), s1)" "headed s Byte 0 s1" "st_byteval s1 = 0"
    using stream_Kind_byte [OF assms(1,2,4) _ assms(3)] by auto
  note k = stream_Kind_cached [OF s1(2)]
  then have "stream_uint 64 s1 = (Inl ErrCanonInt, s1)" using s1(3) by (simp add: stream_uint_def sbind_def)
  with s1(1) k show ?thesis by (simp add: decodeByteArray_def sbind_def)
qed

theorem decodeByteArray_zero_witness:
  "(\<exists>s1. decodeByteArray 1 (stream_Reset [0] 1) = (Inr [0], s1) \<and> decodeByteArray 1 s1 = (Inr [0], s1)) \<and>
   DecodeBytes 9 [0xC1, 0] (TStruct [TByteArray 1, TByteArray 1]) = Some (Inr (VStruct [VByteArray [0], VByteArray [0]]))"
proof
  show "\<exists>s1. decodeByteArray 1 (stream_Reset [0] 1) = (Inr [0], s1) \<and> decodeByteArray 1 s1 = (Inr [0], s1)"
    using stream_ok_Reset [of "[0]"] by (intro decodeByteArray_zero [of _ "[]"]) (simp_all add: Reset_view)
qed code_simp

end
