(* ===== verification/Go_Heap.thy ===== *)
theory Go_Heap
  imports Prelude "HOL-Library.Multiset"
begin

text \<open>
  Go's \<open>container/heap\<close> over a slice, as the transaction lists use it, with the order of the client
  as a parameter \<open>lt\<close> (the \<open>Less\<close> method). The locale \<open>heap_order\<close> holds what the clients promise
  about their \<open>Less\<close>; inside it, every operation keeps the heap and its elements, and \<open>heap_Pop\<close>
  returns a minimal one.
\<close>

section \<open>Operations\<close>

definition swap :: "'a list \<Rightarrow> nat \<Rightarrow> nat \<Rightarrow> 'a list" where
  "swap xs i j = xs[i := xs ! j, j := xs ! i]"

definition parent :: "nat \<Rightarrow> nat" where
  "parent j = (j - 1) div 2"

function up :: "('a \<Rightarrow> 'a \<Rightarrow> bool) \<Rightarrow> 'a list \<Rightarrow> nat \<Rightarrow> 'a list" where
  "up lt xs j = (let i = parent j in if i = j \<or> \<not> lt (xs ! j) (xs ! i) then xs else up lt (swap xs i j) i)"
  by auto
termination by (relation "measure (\<lambda>(lt, xs, j). j)") (auto simp: parent_def)

declare up.simps [simp del]

definition down_child :: "('a \<Rightarrow> 'a \<Rightarrow> bool) \<Rightarrow> 'a list \<Rightarrow> nat \<Rightarrow> nat \<Rightarrow> nat" where
  "down_child lt xs i n = (if 2 * i + 2 < n \<and> lt (xs ! (2 * i + 2)) (xs ! (2 * i + 1)) then 2 * i + 2 else 2 * i + 1)"

function down_loop :: "('a \<Rightarrow> 'a \<Rightarrow> bool) \<Rightarrow> 'a list \<Rightarrow> nat \<Rightarrow> nat \<Rightarrow> 'a list \<times> nat" where
  "down_loop lt xs i n =
     (if n \<le> 2 * i + 1 then (xs, i)
      else let j = down_child lt xs i n in
        if \<not> lt (xs ! j) (xs ! i) then (xs, i) else down_loop lt (swap xs i j) j n)"
  by auto
termination by (relation "measure (\<lambda>(lt, xs, i, n). n - i)") (auto simp: down_child_def)

declare down_loop.simps [simp del]

definition down :: "('a \<Rightarrow> 'a \<Rightarrow> bool) \<Rightarrow> 'a list \<Rightarrow> nat \<Rightarrow> nat \<Rightarrow> 'a list \<times> bool" where
  "down lt xs i0 n = (let (ys, i) = down_loop lt xs i0 n in (ys, i0 < i))"

fun heap_Init_loop :: "('a \<Rightarrow> 'a \<Rightarrow> bool) \<Rightarrow> 'a list \<Rightarrow> nat \<Rightarrow> 'a list" where
  "heap_Init_loop lt xs 0 = xs"
| "heap_Init_loop lt xs (Suc i) = heap_Init_loop lt (fst (down lt xs i (length xs))) i"

definition heap_Init :: "('a \<Rightarrow> 'a \<Rightarrow> bool) \<Rightarrow> 'a list \<Rightarrow> 'a list" where
  "heap_Init lt xs = heap_Init_loop lt xs (length xs div 2)"

definition heap_Push :: "('a \<Rightarrow> 'a \<Rightarrow> bool) \<Rightarrow> 'a list \<Rightarrow> 'a \<Rightarrow> 'a list" where
  "heap_Push lt xs x = up lt (xs @ [x]) (length xs)"

text \<open>\<open>heap_Pop\<close>, \<open>heap_Fix\<close> and \<open>heap_Remove\<close> are \<open>None\<close> where the index is out of range.\<close>

definition heap_Pop :: "('a \<Rightarrow> 'a \<Rightarrow> bool) \<Rightarrow> 'a list \<Rightarrow> ('a \<times> 'a list) option" where
  "heap_Pop lt xs =
     (if xs = [] then None
      else let n = length xs - 1; ys = fst (down lt (swap xs 0 n) 0 n) in Some (last ys, butlast ys))"

definition heap_Fix :: "('a \<Rightarrow> 'a \<Rightarrow> bool) \<Rightarrow> 'a list \<Rightarrow> nat \<Rightarrow> 'a list option" where
  "heap_Fix lt xs i =
     (if length xs \<le> i then None
      else let (ys, moved) = down lt xs i (length xs) in Some (if moved then ys else up lt ys i))"

definition heap_Remove :: "('a \<Rightarrow> 'a \<Rightarrow> bool) \<Rightarrow> 'a list \<Rightarrow> nat \<Rightarrow> ('a \<times> 'a list) option" where
  "heap_Remove lt xs i =
     (if length xs \<le> i then None
      else let n = length xs - 1;
             ys = (if n = i then xs
               else let (zs, moved) = down lt (swap xs i n) i n in if moved then zs else up lt zs i)
        in Some (last ys, butlast ys))"

section \<open>Swaps and indices\<close>

lemma length_swap [simp]: "length (swap xs i j) = length xs"
  by (simp add: swap_def)

lemma mset_swap' [simp]: "i < length xs \<Longrightarrow> j < length xs \<Longrightarrow> mset (swap xs i j) = mset xs"
  unfolding swap_def using mset_swap [of j xs i] by (simp add: list_update_swap)

lemma nth_swap:
  "i < length xs \<Longrightarrow> j < length xs \<Longrightarrow> k < length xs \<Longrightarrow>
    swap xs i j ! k = (if k = j then xs ! i else if k = i then xs ! j else xs ! k)"
  by (simp add: swap_def nth_list_update)

lemma parent_lt: "0 < j \<Longrightarrow> parent j < j"
  by (simp add: parent_def)

lemma parent_eq_iff: "0 < j \<Longrightarrow> parent j = i \<longleftrightarrow> j = 2 * i + 1 \<or> j = 2 * i + 2"
  by (auto simp: parent_def)

lemma parent_0 [simp]: "parent 0 = 0"
  by (simp add: parent_def)

section \<open>Correctness\<close>

text \<open>
  All parent-child pairs from index \<open>lo\<close> on, below \<open>n\<close>, are in order, except those in \<open>X\<close>; the
  children of \<open>i\<close> are in order with the parent of \<open>i\<close>.
\<close>

definition pairs :: "('a \<Rightarrow> 'a \<Rightarrow> bool) \<Rightarrow> nat \<Rightarrow> nat \<Rightarrow> (nat \<Rightarrow> bool) \<Rightarrow> 'a list \<Rightarrow> bool" where
  "pairs lt lo n X xs \<longleftrightarrow>
     (\<forall>j. 0 < j \<longrightarrow> j < n \<longrightarrow> lo \<le> parent j \<longrightarrow> \<not> X j \<longrightarrow> \<not> lt (xs ! j) (xs ! parent j))"

definition grand :: "('a \<Rightarrow> 'a \<Rightarrow> bool) \<Rightarrow> nat \<Rightarrow> nat \<Rightarrow> nat \<Rightarrow> 'a list \<Rightarrow> bool" where
  "grand lt lo n i xs \<longleftrightarrow>
     (0 < i \<longrightarrow> lo \<le> parent i \<longrightarrow> (\<forall>c < n. 0 < c \<longrightarrow> parent c = i \<longrightarrow> \<not> lt (xs ! c) (xs ! parent i)))"

definition is_heap :: "('a \<Rightarrow> 'a \<Rightarrow> bool) \<Rightarrow> 'a list \<Rightarrow> bool" where
  "is_heap lt xs \<longleftrightarrow> pairs lt 0 (length xs) (\<lambda>_. False) xs"

locale heap_order =
  fixes lt :: "'a \<Rightarrow> 'a \<Rightarrow> bool"
  assumes asym: "lt a b \<Longrightarrow> \<not> lt b a"
    and neg_trans: "\<not> lt b a \<Longrightarrow> \<not> lt c b \<Longrightarrow> \<not> lt c a"
begin

lemma down_child_le:
  assumes "2 * i + 1 < n" and "0 < c" and "c < n" and "parent c = i"
  shows "\<not> lt (xs ! c) (xs ! down_child lt xs i n)"
  using assms asym [of "xs ! c" "xs ! c"] asym by (auto simp: down_child_def parent_eq_iff)

lemma down_child_bounds:
  "2 * i + 1 < n \<Longrightarrow> down_child lt xs i n < n \<and> parent (down_child lt xs i n) = i \<and> i < down_child lt xs i n"
  by (auto simp: down_child_def parent_def)

text \<open>One step of \<open>down\<close>.\<close>

lemma down_step:
  assumes len: "n \<le> length xs" and n: "2 * i + 1 < n" and less: "lt (xs ! down_child lt xs i n) (xs ! i)"
    and p: "pairs lt lo n (\<lambda>j. parent j = i \<or> j = i) xs" and g: "grand lt lo n i xs"
  defines "j \<equiv> down_child lt xs i n"
  shows "pairs lt lo n (\<lambda>k. parent k = j) (swap xs i j)" and "grand lt lo n j (swap xs i j)"
proof -
  have j: "j < n" "parent j = i" "i < j" using down_child_bounds [OF n] by (auto simp: j_def)
  have nth: "swap xs i j ! k = (if k = j then xs ! i else if k = i then xs ! j else xs ! k)" if "k < n" for k
    using that j len by (intro nth_swap) auto
  have kid: "\<not> lt (xs ! c) (xs ! j)" if "0 < c" "c < n" "parent c = i" for c
    using down_child_le [OF n that] by (simp add: j_def)
  show "pairs lt lo n (\<lambda>k. parent k = j) (swap xs i j)"
    unfolding pairs_def
  proof (intro allI impI)
    fix k
    assume k: "0 < k" "k < n" "lo \<le> parent k" "parent k \<noteq> j"
    have pk: "parent k < n" using parent_lt [OF k(1)] k(2) by simp
    consider "k = j" | "k \<noteq> j" "parent k = i" | "k = i" "parent k \<noteq> i" | "k \<noteq> i" "k \<noteq> j" "parent k \<noteq> i" by blast
    then show "\<not> lt (swap xs i j ! k) (swap xs i j ! parent k)"
    proof cases
      case 1
      then show ?thesis using asym [OF less] nth [OF k(2)] nth [OF pk] j by (simp add: j_def)
    next
      case 2
      then have "k \<noteq> i" using parent_lt [OF k(1)] by auto
      with 2 show ?thesis using kid [OF k(1,2)] nth [OF k(2)] nth [OF pk] j by simp
    next
      case 3
      then show ?thesis using g k j nth [OF k(2)] nth [OF pk] unfolding grand_def by auto
    next
      case 4
      then show ?thesis using p k nth [OF k(2)] nth [OF pk] unfolding pairs_def by simp
    qed
  qed
  show "grand lt lo n j (swap xs i j)"
    unfolding grand_def
  proof (intro impI allI)
    fix c
    assume c: "lo \<le> parent j" "c < n" "0 < c" "parent c = j"
    then have "c \<noteq> j" "c \<noteq> i" "parent c \<noteq> i" using j parent_lt [OF c(3)] by auto
    then have "\<not> lt (xs ! c) (xs ! j)" using p c j unfolding pairs_def by (metis less_or_eq_imp_le le_trans)
    then show "\<not> lt (swap xs i j ! c) (swap xs i j ! parent j)"
      using nth [OF c(2)] nth [of i] \<open>c \<noteq> j\<close> \<open>c \<noteq> i\<close> j by simp
  qed
qed

lemma down_loop_length [simp]: "length (fst (down_loop lt xs i n)) = length xs"
  by (induction lt xs i n rule: down_loop.induct) (subst down_loop.simps, simp add: Let_def)

lemma down_loop_mset: "n \<le> length xs \<Longrightarrow> mset (fst (down_loop lt xs i n)) = mset xs"
proof (induction lt xs i n rule: down_loop.induct)
  case (1 lt xs i n)
  show ?case
    using 1 by (subst down_loop.simps) (auto simp: Let_def down_child_def)
qed

lemma down_loop_above: "n \<le> k \<Longrightarrow> n \<le> length xs \<Longrightarrow> k < length xs \<Longrightarrow> fst (down_loop lt xs i n) ! k = xs ! k"
proof (induction lt xs i n rule: down_loop.induct)
  case (1 lt xs i n)
  show ?case
    using 1 by (subst down_loop.simps) (auto simp: Let_def down_child_def nth_swap)
qed

lemma down_loop_ge: "i \<le> snd (down_loop lt xs i n)"
proof (induction lt xs i n rule: down_loop.induct)
  case (1 lt xs i n)
  then show ?case by (subst down_loop.simps) (auto simp: Let_def down_child_def)
qed

lemma pairs_stop:
  assumes "n \<le> 2 * i + 1 \<or> \<not> lt (xs ! down_child lt xs i n) (xs ! i)"
    and "pairs lt lo n (\<lambda>j. parent j = i \<or> X j) xs"
  shows "pairs lt lo n X xs"
  unfolding pairs_def
proof (intro allI impI)
  fix j
  assume j: "0 < j" "j < n" "lo \<le> parent j" "\<not> X j"
  show "\<not> lt (xs ! j) (xs ! parent j)"
  proof (cases "parent j = i")
    case True
    then have n: "2 * i + 1 < n" using j by (auto simp: parent_eq_iff)
    with assms(1) have "\<not> lt (xs ! down_child lt xs i n) (xs ! i)" by simp
    moreover have "\<not> lt (xs ! j) (xs ! down_child lt xs i n)" by (rule down_child_le [OF n j(1,2) True])
    ultimately show ?thesis using neg_trans True by blast
  next
    case False
    with assms(2) j show ?thesis by (simp add: pairs_def)
  qed
qed

lemma down_loop_pairs:
  "n \<le> length xs \<Longrightarrow> pairs lt lo n (\<lambda>j. parent j = i) xs \<Longrightarrow> grand lt lo n i xs \<Longrightarrow>
    pairs lt lo n (\<lambda>_. False) (fst (down_loop lt xs i n))"
proof (induction "n - i" arbitrary: xs i rule: less_induct)
  case less
  show ?case
  proof (cases "n \<le> 2 * i + 1 \<or> \<not> lt (xs ! down_child lt xs i n) (xs ! i)")
    case True
    then have "fst (down_loop lt xs i n) = xs" by (subst down_loop.simps) (auto simp: Let_def)
    with pairs_stop [OF True, of lo "\<lambda>_. False"] less.prems(2) show ?thesis by simp
  next
    case False
    let ?j = "down_child lt xs i n"
    have n: "2 * i + 1 < n" and lt: "lt (xs ! ?j) (xs ! i)" using False by auto
    have p: "pairs lt lo n (\<lambda>j. parent j = i \<or> j = i) xs" using less.prems(2) by (simp add: pairs_def)
    have "n - ?j < n - i" using down_child_bounds [OF n, of xs] by auto
    then have "pairs lt lo n (\<lambda>_. False) (fst (down_loop lt (swap xs i ?j) ?j n))"
      using less.hyps down_step [OF less.prems(1) n lt p less.prems(3)] less.prems(1) by simp
    with n lt show ?thesis by (subst down_loop.simps) (simp add: Let_def)
  qed
qed

text \<open>From a position whose own pair may be wrong: either \<open>down\<close> moves and repairs it, or nothing changes.\<close>

lemma down_pairs:
  assumes "n \<le> length xs" and "pairs lt lo n (\<lambda>j. parent j = i \<or> j = i) xs" and "grand lt lo n i xs"
  shows "snd (down lt xs i n) \<Longrightarrow> pairs lt lo n (\<lambda>_. False) (fst (down lt xs i n))"
    and "\<not> snd (down lt xs i n) \<Longrightarrow> fst (down lt xs i n) = xs \<and> pairs lt lo n (\<lambda>j. j = i) xs"
proof -
  let ?j = "down_child lt xs i n"
  have stop: "fst (down_loop lt xs i n) = xs \<and> pairs lt lo n (\<lambda>j. j = i) xs"
    if "n \<le> 2 * i + 1 \<or> \<not> lt (xs ! ?j) (xs ! i)"
    using that pairs_stop [OF that assms(2)] by (subst down_loop.simps) (auto simp: Let_def)
  have go: "i < snd (down_loop lt xs i n) \<and> pairs lt lo n (\<lambda>_. False) (fst (down_loop lt xs i n))"
    if n: "2 * i + 1 < n" and l: "lt (xs ! ?j) (xs ! i)"
  proof -
    have "i < ?j" using down_child_bounds [OF n] by simp
    moreover have "?j \<le> snd (down_loop lt (swap xs i ?j) ?j n)" by (rule down_loop_ge)
    moreover have "pairs lt lo n (\<lambda>_. False) (fst (down_loop lt (swap xs i ?j) ?j n))"
      using down_loop_pairs down_step [OF assms(1) n l assms(2,3)] assms(1) by simp
    ultimately show ?thesis using n l by (subst (1 2) down_loop.simps) (simp add: Let_def)
  qed
  show "snd (down lt xs i n) \<Longrightarrow> pairs lt lo n (\<lambda>_. False) (fst (down lt xs i n))"
  proof (cases "2 * i + 1 < n \<and> lt (xs ! ?j) (xs ! i)")
    case False
    then have "down_loop lt xs i n = (xs, i)" by (subst down_loop.simps) (auto simp: Let_def)
    then show "snd (down lt xs i n) \<Longrightarrow> pairs lt lo n (\<lambda>_. False) (fst (down lt xs i n))" by (simp add: down_def)
  qed (use go in \<open>auto simp: down_def split: prod.splits\<close>)
  show "\<not> snd (down lt xs i n) \<Longrightarrow> fst (down lt xs i n) = xs \<and> pairs lt lo n (\<lambda>j. j = i) xs"
    using stop go by (cases "2 * i + 1 < n \<and> lt (xs ! ?j) (xs ! i)") (auto simp: down_def split: prod.splits)
qed

lemma up_length [simp]: "length (up lt xs j) = length xs"
  by (induction lt xs j rule: up.induct) (subst up.simps, simp add: Let_def)

lemma up_mset: "j < length xs \<Longrightarrow> mset (up lt xs j) = mset xs"
proof (induction lt xs j rule: up.induct)
  case (1 lt xs j)
  have "parent j \<le> j" by (simp add: parent_def)
  with 1 show ?case by (subst up.simps) (auto simp: Let_def)
qed

lemma up_above: "j < k \<Longrightarrow> k < length xs \<Longrightarrow> up lt xs j ! k = xs ! k"
proof (induction lt xs j rule: up.induct)
  case (1 lt xs j)
  have "parent j \<le> j" by (simp add: parent_def)
  with 1 show ?case by (subst up.simps) (auto simp: Let_def nth_swap)
qed

lemma up_step:
  assumes n: "j < n" "n \<le> length xs" and j: "0 < j" and less: "lt (xs ! j) (xs ! parent j)"
    and p: "pairs lt 0 n (\<lambda>k. k = j) xs" and g: "grand lt 0 n j xs"
  defines "i \<equiv> parent j"
  shows "pairs lt 0 n (\<lambda>k. k = i) (swap xs i j)" and "grand lt 0 n i (swap xs i j)"
proof -
  have i: "i < j" "parent j = i" using parent_lt [OF j] by (simp_all add: i_def)
  have nth: "swap xs i j ! k = (if k = j then xs ! i else if k = i then xs ! j else xs ! k)" if "k < n" for k
    using that i n by (intro nth_swap) auto
  have pi: "\<not> lt (xs ! k) (xs ! parent k)" if "0 < k" "k < n" "k \<noteq> j" for k
    using p that by (simp add: pairs_def)
  show "pairs lt 0 n (\<lambda>k. k = i) (swap xs i j)"
    unfolding pairs_def
  proof (intro allI impI)
    fix k
    assume k: "0 < k" "k < n" "k \<noteq> i"
    have pk: "parent k < n" using parent_lt [OF k(1)] k(2) by simp
    consider "k = j" | "k \<noteq> j" "parent k = i" | "k \<noteq> j" "parent k = j" | "k \<noteq> j" "parent k \<noteq> i" "parent k \<noteq> j" by blast
    then show "\<not> lt (swap xs i j ! k) (swap xs i j ! parent k)"
    proof cases
      case 1
      then show ?thesis using asym [OF less] nth [OF k(2)] nth [OF pk] i by simp
    next
      case 2
      then have "\<not> lt (xs ! k) (xs ! i)" using pi [OF k(1,2)] by simp
      then have "\<not> lt (xs ! k) (xs ! j)" using neg_trans asym [OF less] i(2) by metis
      with 2 show ?thesis using nth [OF k(2)] nth [OF pk] k(3) i by simp
    next
      case 3
      then show ?thesis using g k j nth [OF k(2)] nth [OF pk] i by (simp add: grand_def)
    next
      case 4
      then show ?thesis using pi [OF k(1,2)] k(3) nth [OF k(2)] nth [OF pk] by simp
    qed
  qed
  show "grand lt 0 n i (swap xs i j)"
    unfolding grand_def
  proof (intro impI allI)
    fix c
    assume c: "0 < i" "c < n" "0 < c" "parent c = i"
    have q: "\<not> lt (xs ! i) (xs ! parent i)" using pi [of i] c(1) i n by simp
    have pp: "parent i < n" "parent i \<noteq> i" "parent i \<noteq> j" using parent_lt [OF c(1)] i n by auto
    have "c \<noteq> i" using c parent_lt [OF c(3)] by auto
    show "\<not> lt (swap xs i j ! c) (swap xs i j ! parent i)"
    proof (cases "c = j")
      case True
      with q show ?thesis using nth [OF c(2)] nth [OF pp(1)] pp by simp
    next
      case False
      then have "\<not> lt (xs ! c) (xs ! i)" using pi [OF c(3,2)] c(4) by simp
      then have "\<not> lt (xs ! c) (xs ! parent i)" using q neg_trans by blast
      with False \<open>c \<noteq> i\<close> show ?thesis using nth [OF c(2)] nth [OF pp(1)] pp by simp
    qed
  qed
qed

lemma up_pairs:
  "j < n \<Longrightarrow> n \<le> length xs \<Longrightarrow> pairs lt 0 n (\<lambda>k. k = j) xs \<Longrightarrow> grand lt 0 n j xs \<Longrightarrow>
    pairs lt 0 n (\<lambda>_. False) (up lt xs j)"
proof (induction j arbitrary: xs rule: less_induct)
  case (less j)
  show ?case
  proof (cases "parent j = j \<or> \<not> lt (xs ! j) (xs ! parent j)")
    case True
    then have "up lt xs j = xs" by (subst up.simps) (auto simp: Let_def)
    moreover have "parent j = j \<Longrightarrow> j = 0" using parent_lt [of j] by auto
    ultimately show ?thesis using True less.prems(3) by (auto simp: pairs_def)
  next
    case False
    then have j: "0 < j" and l: "lt (xs ! j) (xs ! parent j)" by (auto intro: ccontr)
    have "parent j < j" by (rule parent_lt [OF j])
    then have "pairs lt 0 n (\<lambda>_. False) (up lt (swap xs (parent j) j) (parent j))"
      using less.IH [of "parent j" "swap xs (parent j) j"] up_step [OF less.prems(1,2) j l less.prems(3,4)] less.prems(1,2)
      by simp
    with False show ?thesis by (subst up.simps) (simp add: Let_def)
  qed
qed

section \<open>Every operation keeps the heap\<close>

lemma heap_min: "is_heap lt xs \<Longrightarrow> i < length xs \<Longrightarrow> \<not> lt (xs ! i) (xs ! 0)"
proof (induction i rule: less_induct)
  case (less i)
  show ?case
  proof (cases "i = 0")
    case True
    then show ?thesis using asym by blast
  next
    case False
    then have "\<not> lt (xs ! i) (xs ! parent i)" using less.prems by (simp add: is_heap_def pairs_def)
    moreover have "\<not> lt (xs ! parent i) (xs ! 0)"
      using less.IH [of "parent i"] parent_lt [of i] False less.prems by simp
    ultimately show ?thesis using neg_trans by blast
  qed
qed

lemma is_heap_Nil [simp]: "is_heap lt []"
  by (simp add: is_heap_def pairs_def)

lemma heap_Push_heap: "is_heap lt xs \<Longrightarrow> is_heap lt (heap_Push lt xs x)"
proof -
  assume h: "is_heap lt xs"
  let ?n = "length xs"
  have "pairs lt 0 (Suc ?n) (\<lambda>k. k = ?n) (xs @ [x])"
    unfolding pairs_def
  proof (intro allI impI)
    fix j
    assume j: "0 < j" "j < Suc ?n" "j \<noteq> ?n"
    then have "parent j < ?n" "j < ?n" using parent_lt [of j] by auto
    with h j show "\<not> lt ((xs @ [x]) ! j) ((xs @ [x]) ! parent j)"
      by (simp add: is_heap_def pairs_def nth_append)
  qed
  moreover have "parent c \<noteq> ?n" if "0 < c" "c < Suc ?n" for c using parent_lt [OF that(1)] that(2) by simp
  then have "grand lt 0 (Suc ?n) ?n (xs @ [x])" by (simp add: grand_def)
  ultimately show ?thesis
    using up_pairs [of ?n "Suc ?n" "xs @ [x]"] by (simp add: is_heap_def heap_Push_def)
qed

lemma heap_Push_mset: "mset (heap_Push lt xs x) = add_mset x (mset xs)"
  using up_mset [of "length xs" "xs @ [x]"] by (simp add: heap_Push_def)

lemma heap_Init_loop_heap:
  "pairs lt i (length xs) (\<lambda>_. False) xs \<Longrightarrow>
    is_heap lt (heap_Init_loop lt xs i) \<and> mset (heap_Init_loop lt xs i) = mset xs"
proof (induction i arbitrary: xs)
  case (Suc i)
  let ?ys = "fst (down lt xs i (length xs))"
  have ys: "?ys = fst (down_loop lt xs i (length xs))" by (simp add: down_def split: prod.split)
  have "pairs lt i (length xs) (\<lambda>j. parent j = i) xs" using Suc.prems by (auto simp: pairs_def)
  moreover have "grand lt i (length xs) i xs" using parent_lt [of i] by (auto simp: grand_def)
  ultimately have "pairs lt i (length xs) (\<lambda>_. False) ?ys" using down_loop_pairs ys by simp
  with Suc.IH [of ?ys] down_loop_mset [of "length xs" xs i] ys show ?case by simp
qed (simp add: is_heap_def)

lemma heap_Init_heap: "is_heap lt (heap_Init lt xs)" and heap_Init_mset: "mset (heap_Init lt xs) = mset xs"
proof -
  have "pairs lt (length xs div 2) (length xs) (\<lambda>_. False) xs"
    by (auto simp: pairs_def parent_def)
  from heap_Init_loop_heap [OF this]
  show "is_heap lt (heap_Init lt xs)" "mset (heap_Init lt xs) = mset xs" by (auto simp: heap_Init_def)
qed

text \<open>Cutting off the last element after a repair of the rest.\<close>

lemma is_heap_butlast: "pairs lt 0 (length xs - 1) (\<lambda>_. False) xs \<Longrightarrow> is_heap lt (butlast xs)"
  unfolding is_heap_def pairs_def
proof (intro allI impI)
  fix j
  assume p: "\<forall>j. 0 < j \<longrightarrow> j < length xs - 1 \<longrightarrow> 0 \<le> parent j \<longrightarrow> \<not> False \<longrightarrow> \<not> lt (xs ! j) (xs ! parent j)"
    and j: "0 < j" "j < length (butlast xs)"
  have "parent j < j" by (rule parent_lt [OF j(1)])
  with p j show "\<not> lt (butlast xs ! j) (butlast xs ! parent j)" by (simp add: nth_butlast)
qed

lemma mset_butlast: "xs \<noteq> [] \<Longrightarrow> add_mset (last xs) (mset (butlast xs)) = mset xs"
  by (cases xs rule: rev_cases) auto

lemma last_conv: "length xs = Suc n \<Longrightarrow> last xs = xs ! n"
  by (cases xs) (auto simp: last_conv_nth)

lemma pairs_swap_last:
  assumes h: "is_heap lt xs" and i: "i < length xs - 1"
  defines "n \<equiv> length xs - 1"
  shows "pairs lt 0 n (\<lambda>j. parent j = i \<or> j = i) (swap xs i n)" and "grand lt 0 n i (swap xs i n)"
proof -
  have nth: "swap xs i n ! k = (if k = i then xs ! n else xs ! k)" if "k < n" for k
    using that i nth_swap [of i xs n k] by (auto simp: n_def)
  show "pairs lt 0 n (\<lambda>j. parent j = i \<or> j = i) (swap xs i n)"
    unfolding pairs_def
  proof (intro allI impI)
    fix j
    assume j: "0 < j" "j < n" "\<not> (parent j = i \<or> j = i)"
    then have "parent j < n" using parent_lt [of j] by simp
    with j h nth [of j] nth [of "parent j"] show "\<not> lt (swap xs i n ! j) (swap xs i n ! parent j)"
      by (simp add: is_heap_def pairs_def n_def)
  qed
  show "grand lt 0 n i (swap xs i n)"
    unfolding grand_def
  proof (intro impI allI)
    fix c
    assume c: "0 < i" "c < n" "0 < c" "parent c = i"
    have pi: "parent i < n" "parent i \<noteq> i" "c \<noteq> i" using parent_lt [OF c(1)] parent_lt [OF c(3)] c by auto
    have "\<not> lt (xs ! c) (xs ! i)" "\<not> lt (xs ! i) (xs ! parent i)"
      using h c i by (auto simp: is_heap_def pairs_def n_def)
    then have "\<not> lt (xs ! c) (xs ! parent i)" using neg_trans by blast
    with pi nth [OF c(2)] nth [OF pi(1)] show "\<not> lt (swap xs i n ! c) (swap xs i n ! parent i)" by simp
  qed
qed

lemma heap_Remove_spec:
  assumes h: "is_heap lt xs" and i: "i < length xs"
  obtains ys where "heap_Remove lt xs i = Some (xs ! i, ys)" and "is_heap lt ys" and "add_mset (xs ! i) (mset ys) = mset xs"
proof -
  define n where "n = length xs - 1"
  define ys where "ys = (if n = i then xs
    else let (zs, moved) = down lt (swap xs i n) i n in if moved then zs else up lt zs i)"
  have len: "length xs = Suc n" using i by (simp add: n_def)
  have "length ys = Suc n \<and> ys ! n = xs ! i \<and> mset ys = mset xs \<and> pairs lt 0 n (\<lambda>_. False) ys"
  proof (cases "n = i")
    case True
    then show ?thesis using h len by (simp add: ys_def is_heap_def pairs_def)
  next
    case False
    then have i': "i < n" using i len by simp
    let ?s = "swap xs i n"
    obtain zs moved where d: "down lt ?s i n = (zs, moved)" by fastforce
    have zs: "zs = fst (down_loop lt ?s i n)" using d by (simp add: down_def split: prod.splits)
    have l: "length zs = Suc n" "mset zs = mset xs" "zs ! n = xs ! i"
      using zs len i' down_loop_mset [of n ?s i] down_loop_above [of n n ?s i] nth_swap [of i xs n n] by simp_all
    note q = down_pairs [of n ?s 0 i, OF _ pairs_swap_last [OF h i' [unfolded n_def], folded n_def]]
    show ?thesis
    proof (cases moved)
      case True
      then have "pairs lt 0 n (\<lambda>_. False) zs" using q(1) d len by simp
      with True l d False show ?thesis by (simp add: ys_def)
    next
      case m: False
      then have z: "zs = ?s" "pairs lt 0 n (\<lambda>j. j = i) ?s" using q(2) d len by auto
      have "pairs lt 0 n (\<lambda>_. False) (up lt ?s i)"
        using up_pairs [of i n ?s] i' len z(2) pairs_swap_last(2) [OF h i' [unfolded n_def], folded n_def] by simp
      with m l d False z up_mset [of i ?s] up_above [of i n ?s] i' len show ?thesis by (simp add: ys_def)
    qed
  qed
  then have y: "length ys = Suc n" "ys ! n = xs ! i" "mset ys = mset xs" "pairs lt 0 n (\<lambda>_. False) ys" by blast+
  have "heap_Remove lt xs i = Some (last ys, butlast ys)"
    using i by (simp add: heap_Remove_def ys_def n_def Let_def)
  then show thesis
    using that [of "butlast ys"] y last_conv [of ys n] is_heap_butlast [of ys] mset_butlast [of ys]
    by (cases ys) auto
qed

lemma heap_Pop_Remove: "heap_Pop lt xs = heap_Remove lt xs 0"
proof -
  have up0: "up lt zs 0 = zs" for zs by (subst up.simps) simp
  have "swap xs 0 0 = xs" by (simp add: swap_def)
  moreover have "down lt zs 0 0 = (zs, False)" for zs by (simp add: down_def down_loop.simps)
  ultimately show ?thesis
    by (auto simp: heap_Pop_def heap_Remove_def Let_def up0 split: prod.split)
qed

lemma heap_Pop_spec:
  assumes "is_heap lt xs" and "xs \<noteq> []"
  obtains ys where "heap_Pop lt xs = Some (hd xs, ys)" and "is_heap lt ys" and "add_mset (hd xs) (mset ys) = mset xs"
    and "\<And>x. x \<in> set xs \<Longrightarrow> \<not> lt x (hd xs)"
proof -
  obtain ys where "heap_Remove lt xs 0 = Some (xs ! 0, ys)" "is_heap lt ys" "add_mset (xs ! 0) (mset ys) = mset xs"
    using heap_Remove_spec [OF assms(1), of 0] assms(2) by auto
  moreover have "\<not> lt x (xs ! 0)" if "x \<in> set xs" for x
    using that heap_min [OF assms(1)] by (auto simp: in_set_conv_nth)
  ultimately show thesis using that [of ys] assms(2) by (simp add: heap_Pop_Remove hd_conv_nth)
qed

lemma heap_Fix_spec:
  assumes h: "is_heap lt xs" and i: "i < length xs"
  obtains ys where "heap_Fix lt (xs[i := x]) i = Some ys" and "is_heap lt ys" and "mset ys = mset (xs[i := x])"
proof -
  let ?n = "length xs" and ?xs = "xs[i := x]"
  have p: "pairs lt 0 ?n (\<lambda>j. parent j = i \<or> j = i) ?xs"
    using h by (simp add: is_heap_def pairs_def)
  have g: "grand lt 0 ?n i ?xs"
    unfolding grand_def
  proof (intro impI allI)
    fix c
    assume c: "0 < i" "c < ?n" "0 < c" "parent c = i"
    have pi: "parent i \<noteq> i" "c \<noteq> i" using parent_lt [OF c(1)] parent_lt [OF c(3)] c by auto
    have "\<not> lt (xs ! c) (xs ! i)" "\<not> lt (xs ! i) (xs ! parent i)"
      using h c i by (auto simp: is_heap_def pairs_def)
    with neg_trans pi show "\<not> lt (?xs ! c) (?xs ! parent i)" by (auto simp: nth_list_update)
  qed
  obtain zs moved where d: "down lt ?xs i ?n = (zs, moved)" by fastforce
  have m: "mset zs = mset ?xs" using d down_loop_mset [of ?n ?xs i] by (simp add: down_def split: prod.splits)
  have zs: "length zs = ?n" "mset zs = mset ?xs" using mset_eq_length [OF m] m by simp_all
  have f: "heap_Fix lt ?xs i = Some (if moved then zs else up lt zs i)" using i d by (simp add: heap_Fix_def)
  show thesis
  proof (cases moved)
    case True
    then have "is_heap lt zs" using down_pairs(1) [OF _ p g] d zs by (simp add: is_heap_def)
    with True f zs that show thesis by simp
  next
    case False
    then have z: "zs = ?xs" "pairs lt 0 ?n (\<lambda>j. j = i) ?xs" using down_pairs(2) [OF _ p g] d by auto
    then have "is_heap lt (up lt zs i)" using up_pairs [OF i _ z(2) g] by (simp add: is_heap_def)
    with False f z i up_mset [of i ?xs] that show thesis by simp
  qed
qed

end

text \<open>The order of unsigned nonces.\<close>

interpretation nonce: heap_order "(<) :: u64 \<Rightarrow> u64 \<Rightarrow> bool"
  by unfold_locales auto

end
