(* ===== verification/Transaction.thy ===== *)
theory Transaction
  imports Zkp Rlp_Canonical Go_Heap
begin

text \<open>
  Transactions of \<open>core/types/transaction.go\<close> with the fork's confidential fields, their RLP form,
  hash and size, the accessors that rebuild ciphertexts and proofs, and the price-and-nonce ordered
  set the miner draws from. A \<open>*hexutil.Bytes\<close> is an optional byte string; reading one that is nil
  panics, which is \<open>None\<close>. Keccak-256 and the recovery of the sender are parameters.
\<close>

section \<open>Data\<close>

type_synonym hexbytes = "bytes option"

type_synonym address = bytes

record txdata =
  td_AccountNonce :: u64
  td_Price :: int
  td_GasLimit :: u64
  td_Recipient :: "bytes option"
  td_Amount :: int
  td_Payload :: bytes
  td_ID :: u64
  td_ErpkC1 :: hexbytes
  td_ErpkC2 :: hexbytes
  td_EspkC1 :: hexbytes
  td_EspkC2 :: hexbytes
  td_CMRpk :: hexbytes
  td_CMSpk :: hexbytes
  td_ErpkEPs0 :: hexbytes
  td_ErpkEPs1 :: hexbytes
  td_ErpkEPs2 :: hexbytes
  td_ErpkEPs3 :: hexbytes
  td_ErpkEPt :: hexbytes
  td_EspkEPs0 :: hexbytes
  td_EspkEPs1 :: hexbytes
  td_EspkEPs2 :: hexbytes
  td_EspkEPs3 :: hexbytes
  td_EspkEPt :: hexbytes
  td_EvSC1 :: hexbytes
  td_EvSC2 :: hexbytes
  td_EvRC1 :: hexbytes
  td_EvRC2 :: hexbytes
  td_CmS :: hexbytes
  td_CmR :: hexbytes
  td_CMsFPC :: hexbytes
  td_CMsFPZ1 :: hexbytes
  td_CMsFPZ2 :: hexbytes
  td_CMrFPC :: hexbytes
  td_CMrFPZ1 :: hexbytes
  td_CMrFPZ2 :: hexbytes
  td_EvsBsC1 :: hexbytes
  td_EvsBsC2 :: hexbytes
  td_EvOC1 :: hexbytes
  td_EvOC2 :: hexbytes
  td_CmO :: hexbytes
  td_EvOEPs0 :: hexbytes
  td_EvOEPs1 :: hexbytes
  td_EvOEPs2 :: hexbytes
  td_EvOEPs3 :: hexbytes
  td_EvOEPt :: hexbytes
  td_BPC :: hexbytes
  td_BPRV :: hexbytes
  td_BPRR :: hexbytes
  td_BPSV :: hexbytes
  td_BPSR :: hexbytes
  td_BPSOr :: hexbytes
  td_EpkrC1 :: hexbytes
  td_EpkrC2 :: hexbytes
  td_EpkpC1 :: hexbytes
  td_EpkpC2 :: hexbytes
  td_SigM :: hexbytes
  td_SigMHash :: hexbytes
  td_SigR :: hexbytes
  td_SigS :: hexbytes
  td_CmV :: hexbytes
  td_CmSRC1 :: hexbytes
  td_CmSRC2 :: hexbytes
  td_CmRRC1 :: hexbytes
  td_CmRRC2 :: hexbytes
  td_V :: int
  td_R :: int
  td_S :: int
  td_PK :: bytes

text \<open>A \<open>Transaction\<close> holds its \<open>txdata\<close>; the caches of hash, size and sender hold derived values.\<close>

datatype Transaction = Tx (tx_data: txdata)

section \<open>RLP form\<close>

text \<open>
  The value that \<open>EncodeRLP\<close> writes and the type that \<open>DecodeRLP\<close> reads. The recipient has the tag
  \<open>nil\<close>; the hex fields are plain pointers, whose nil is written as an empty string and read back
  as a pointer to one.
\<close>

definition hex_val :: "hexbytes \<Rightarrow> rlp_val" where
  "hex_val h = VPtr String (map_option VBytes h)"

definition txdata_val :: "txdata \<Rightarrow> rlp_val" where
  "txdata_val d = VStruct [
     VUint (td_AccountNonce d), VBigPtr (Some (td_Price d)), VUint (td_GasLimit d),
     VPtr String (map_option VByteArray (td_Recipient d)), VBigPtr (Some (td_Amount d)),
     VBytes (td_Payload d), VUint (td_ID d), hex_val (td_ErpkC1 d), hex_val (td_ErpkC2 d),
     hex_val (td_EspkC1 d), hex_val (td_EspkC2 d), hex_val (td_CMRpk d), hex_val (td_CMSpk d),
     hex_val (td_ErpkEPs0 d), hex_val (td_ErpkEPs1 d), hex_val (td_ErpkEPs2 d),
     hex_val (td_ErpkEPs3 d), hex_val (td_ErpkEPt d), hex_val (td_EspkEPs0 d),
     hex_val (td_EspkEPs1 d), hex_val (td_EspkEPs2 d), hex_val (td_EspkEPs3 d),
     hex_val (td_EspkEPt d), hex_val (td_EvSC1 d), hex_val (td_EvSC2 d), hex_val (td_EvRC1 d),
     hex_val (td_EvRC2 d), hex_val (td_CmS d), hex_val (td_CmR d), hex_val (td_CMsFPC d),
     hex_val (td_CMsFPZ1 d), hex_val (td_CMsFPZ2 d), hex_val (td_CMrFPC d), hex_val (td_CMrFPZ1 d),
     hex_val (td_CMrFPZ2 d), hex_val (td_EvsBsC1 d), hex_val (td_EvsBsC2 d), hex_val (td_EvOC1 d),
     hex_val (td_EvOC2 d), hex_val (td_CmO d), hex_val (td_EvOEPs0 d), hex_val (td_EvOEPs1 d),
     hex_val (td_EvOEPs2 d), hex_val (td_EvOEPs3 d), hex_val (td_EvOEPt d), hex_val (td_BPC d),
     hex_val (td_BPRV d), hex_val (td_BPRR d), hex_val (td_BPSV d), hex_val (td_BPSR d),
     hex_val (td_BPSOr d), hex_val (td_EpkrC1 d), hex_val (td_EpkrC2 d), hex_val (td_EpkpC1 d),
     hex_val (td_EpkpC2 d), hex_val (td_SigM d), hex_val (td_SigMHash d), hex_val (td_SigR d),
     hex_val (td_SigS d), hex_val (td_CmV d), hex_val (td_CmSRC1 d), hex_val (td_CmSRC2 d),
     hex_val (td_CmRRC1 d), hex_val (td_CmRRC2 d), VBigPtr (Some (td_V d)),
     VBigPtr (Some (td_R d)), VBigPtr (Some (td_S d)), VBytes (td_PK d)]"

definition txdata_typ :: rlp_typ where
  "txdata_typ = TStruct [
     TUint 64, TBigPtr, TUint 64, TNilPtr String (TByteArray 20), TBigPtr, TBytes, TUint 64,
     TPtr String TBytes, TPtr String TBytes, TPtr String TBytes, TPtr String TBytes,
     TPtr String TBytes, TPtr String TBytes, TPtr String TBytes, TPtr String TBytes,
     TPtr String TBytes, TPtr String TBytes, TPtr String TBytes, TPtr String TBytes,
     TPtr String TBytes, TPtr String TBytes, TPtr String TBytes, TPtr String TBytes,
     TPtr String TBytes, TPtr String TBytes, TPtr String TBytes, TPtr String TBytes,
     TPtr String TBytes, TPtr String TBytes, TPtr String TBytes, TPtr String TBytes,
     TPtr String TBytes, TPtr String TBytes, TPtr String TBytes, TPtr String TBytes,
     TPtr String TBytes, TPtr String TBytes, TPtr String TBytes, TPtr String TBytes,
     TPtr String TBytes, TPtr String TBytes, TPtr String TBytes, TPtr String TBytes,
     TPtr String TBytes, TPtr String TBytes, TPtr String TBytes, TPtr String TBytes,
     TPtr String TBytes, TPtr String TBytes, TPtr String TBytes, TPtr String TBytes,
     TPtr String TBytes, TPtr String TBytes, TPtr String TBytes, TPtr String TBytes,
     TPtr String TBytes, TPtr String TBytes, TPtr String TBytes, TPtr String TBytes,
     TPtr String TBytes, TPtr String TBytes, TPtr String TBytes, TPtr String TBytes,
     TPtr String TBytes, TBigPtr, TBigPtr, TBigPtr, TBytes]"

fun val_u64 :: "rlp_val \<Rightarrow> u64" where
  "val_u64 (VUint i) = i"
| "val_u64 _ = 0"

fun val_big :: "rlp_val \<Rightarrow> int" where
  "val_big (VBigPtr (Some i)) = i"
| "val_big _ = 0"

fun val_bytes :: "rlp_val \<Rightarrow> bytes" where
  "val_bytes (VBytes b) = b"
| "val_bytes (VByteArray b) = b"
| "val_bytes _ = []"

fun val_ptr :: "rlp_val \<Rightarrow> bytes option" where
  "val_ptr (VPtr k p) = map_option val_bytes p"
| "val_ptr _ = None"

definition txdata_of :: "rlp_val list \<Rightarrow> txdata" where
  "txdata_of vs =
     \<lparr>
      td_AccountNonce = val_u64 (vs ! 0), td_Price = val_big (vs ! 1),
      td_GasLimit = val_u64 (vs ! 2), td_Recipient = val_ptr (vs ! 3),
      td_Amount = val_big (vs ! 4), td_Payload = val_bytes (vs ! 5), td_ID = val_u64 (vs ! 6),
      td_ErpkC1 = val_ptr (vs ! 7), td_ErpkC2 = val_ptr (vs ! 8), td_EspkC1 = val_ptr (vs ! 9),
      td_EspkC2 = val_ptr (vs ! 10), td_CMRpk = val_ptr (vs ! 11), td_CMSpk = val_ptr (vs ! 12),
      td_ErpkEPs0 = val_ptr (vs ! 13), td_ErpkEPs1 = val_ptr (vs ! 14),
      td_ErpkEPs2 = val_ptr (vs ! 15), td_ErpkEPs3 = val_ptr (vs ! 16),
      td_ErpkEPt = val_ptr (vs ! 17), td_EspkEPs0 = val_ptr (vs ! 18),
      td_EspkEPs1 = val_ptr (vs ! 19), td_EspkEPs2 = val_ptr (vs ! 20),
      td_EspkEPs3 = val_ptr (vs ! 21), td_EspkEPt = val_ptr (vs ! 22),
      td_EvSC1 = val_ptr (vs ! 23), td_EvSC2 = val_ptr (vs ! 24), td_EvRC1 = val_ptr (vs ! 25),
      td_EvRC2 = val_ptr (vs ! 26), td_CmS = val_ptr (vs ! 27), td_CmR = val_ptr (vs ! 28),
      td_CMsFPC = val_ptr (vs ! 29), td_CMsFPZ1 = val_ptr (vs ! 30),
      td_CMsFPZ2 = val_ptr (vs ! 31), td_CMrFPC = val_ptr (vs ! 32),
      td_CMrFPZ1 = val_ptr (vs ! 33), td_CMrFPZ2 = val_ptr (vs ! 34),
      td_EvsBsC1 = val_ptr (vs ! 35), td_EvsBsC2 = val_ptr (vs ! 36), td_EvOC1 = val_ptr (vs ! 37),
      td_EvOC2 = val_ptr (vs ! 38), td_CmO = val_ptr (vs ! 39), td_EvOEPs0 = val_ptr (vs ! 40),
      td_EvOEPs1 = val_ptr (vs ! 41), td_EvOEPs2 = val_ptr (vs ! 42),
      td_EvOEPs3 = val_ptr (vs ! 43), td_EvOEPt = val_ptr (vs ! 44), td_BPC = val_ptr (vs ! 45),
      td_BPRV = val_ptr (vs ! 46), td_BPRR = val_ptr (vs ! 47), td_BPSV = val_ptr (vs ! 48),
      td_BPSR = val_ptr (vs ! 49), td_BPSOr = val_ptr (vs ! 50), td_EpkrC1 = val_ptr (vs ! 51),
      td_EpkrC2 = val_ptr (vs ! 52), td_EpkpC1 = val_ptr (vs ! 53), td_EpkpC2 = val_ptr (vs ! 54),
      td_SigM = val_ptr (vs ! 55), td_SigMHash = val_ptr (vs ! 56), td_SigR = val_ptr (vs ! 57),
      td_SigS = val_ptr (vs ! 58), td_CmV = val_ptr (vs ! 59), td_CmSRC1 = val_ptr (vs ! 60),
      td_CmSRC2 = val_ptr (vs ! 61), td_CmRRC1 = val_ptr (vs ! 62), td_CmRRC2 = val_ptr (vs ! 63),
      td_V = val_big (vs ! 64), td_R = val_big (vs ! 65), td_S = val_big (vs ! 66),
      td_PK = val_bytes (vs ! 67)\<rparr>"

definition tx_DecodeRLP :: "nat \<Rightarrow> bytes \<Rightarrow> (rlp_error + Transaction) option" where
  "tx_DecodeRLP n b =
     map_option (map_sum id (\<lambda>v. Tx (case v of VStruct vs \<Rightarrow> txdata_of vs | _ \<Rightarrow> txdata_of []))) (DecodeBytes n b txdata_typ)"

text \<open>
  \<open>rlp.Encode\<close> into a writer that takes everything: the bytes it has received. A value that cannot be
  encoded writes nothing.
\<close>

definition Encode_bytes :: "rlp_val \<Rightarrow> bytes" where
  "Encode_bytes v =
     (case write_val v \<lparr>eb_str = [], eb_lheads = [], eb_lhsize = 0\<rparr> of
        Inl e \<Rightarrow> []
      | Inr w \<Rightarrow>
          (case toWriter (\<lambda>b s. (length b, None :: unit option, s @ b)) w [] of None \<Rightarrow> [] | Some (_, out) \<Rightarrow> out))"

definition rlpHash :: "(bytes \<Rightarrow> bytes) \<Rightarrow> rlp_val \<Rightarrow> bytes" where
  "rlpHash keccak v = keccak (Encode_bytes v)"

definition tx_Hash :: "(bytes \<Rightarrow> bytes) \<Rightarrow> Transaction \<Rightarrow> bytes" where
  "tx_Hash keccak tx = rlpHash keccak (txdata_val (tx_data tx))"

definition tx_Size :: "Transaction \<Rightarrow> nat" where
  "tx_Size tx = length (Encode_bytes (txdata_val (tx_data tx)))"

text \<open>The transaction as it arrives after a trip over the wire: nil fields have become empty.\<close>

definition fill :: "hexbytes \<Rightarrow> hexbytes" where
  "fill h = Some (case h of None \<Rightarrow> [] | Some b \<Rightarrow> b)"

definition wire :: "txdata \<Rightarrow> txdata" where
  "wire d =
     d\<lparr>
       td_ErpkC1 := fill (td_ErpkC1 d), td_ErpkC2 := fill (td_ErpkC2 d),
       td_EspkC1 := fill (td_EspkC1 d), td_EspkC2 := fill (td_EspkC2 d),
       td_CMRpk := fill (td_CMRpk d), td_CMSpk := fill (td_CMSpk d),
       td_ErpkEPs0 := fill (td_ErpkEPs0 d), td_ErpkEPs1 := fill (td_ErpkEPs1 d),
       td_ErpkEPs2 := fill (td_ErpkEPs2 d), td_ErpkEPs3 := fill (td_ErpkEPs3 d),
       td_ErpkEPt := fill (td_ErpkEPt d), td_EspkEPs0 := fill (td_EspkEPs0 d),
       td_EspkEPs1 := fill (td_EspkEPs1 d), td_EspkEPs2 := fill (td_EspkEPs2 d),
       td_EspkEPs3 := fill (td_EspkEPs3 d), td_EspkEPt := fill (td_EspkEPt d),
       td_EvSC1 := fill (td_EvSC1 d), td_EvSC2 := fill (td_EvSC2 d), td_EvRC1 := fill (td_EvRC1 d),
       td_EvRC2 := fill (td_EvRC2 d), td_CmS := fill (td_CmS d), td_CmR := fill (td_CmR d),
       td_CMsFPC := fill (td_CMsFPC d), td_CMsFPZ1 := fill (td_CMsFPZ1 d),
       td_CMsFPZ2 := fill (td_CMsFPZ2 d), td_CMrFPC := fill (td_CMrFPC d),
       td_CMrFPZ1 := fill (td_CMrFPZ1 d), td_CMrFPZ2 := fill (td_CMrFPZ2 d),
       td_EvsBsC1 := fill (td_EvsBsC1 d), td_EvsBsC2 := fill (td_EvsBsC2 d),
       td_EvOC1 := fill (td_EvOC1 d), td_EvOC2 := fill (td_EvOC2 d), td_CmO := fill (td_CmO d),
       td_EvOEPs0 := fill (td_EvOEPs0 d), td_EvOEPs1 := fill (td_EvOEPs1 d),
       td_EvOEPs2 := fill (td_EvOEPs2 d), td_EvOEPs3 := fill (td_EvOEPs3 d),
       td_EvOEPt := fill (td_EvOEPt d), td_BPC := fill (td_BPC d), td_BPRV := fill (td_BPRV d),
       td_BPRR := fill (td_BPRR d), td_BPSV := fill (td_BPSV d), td_BPSR := fill (td_BPSR d),
       td_BPSOr := fill (td_BPSOr d), td_EpkrC1 := fill (td_EpkrC1 d),
       td_EpkrC2 := fill (td_EpkrC2 d), td_EpkpC1 := fill (td_EpkpC1 d),
       td_EpkpC2 := fill (td_EpkpC2 d), td_SigM := fill (td_SigM d),
       td_SigMHash := fill (td_SigMHash d), td_SigR := fill (td_SigR d),
       td_SigS := fill (td_SigS d), td_CmV := fill (td_CmV d), td_CmSRC1 := fill (td_CmSRC1 d),
       td_CmSRC2 := fill (td_CmSRC2 d), td_CmRRC1 := fill (td_CmRRC1 d),
       td_CmRRC2 := fill (td_CmRRC2 d)\<rparr>"

section \<open>Accessors\<close>

definition tx_Payload :: "Transaction \<Rightarrow> bytes" where
  "tx_Payload tx = td_Payload (tx_data tx)"

definition tx_Gas :: "Transaction \<Rightarrow> u64" where
  "tx_Gas tx = td_GasLimit (tx_data tx)"

definition tx_GasPrice :: "Transaction \<Rightarrow> int" where
  "tx_GasPrice tx = td_Price (tx_data tx)"

definition tx_Value :: "Transaction \<Rightarrow> int" where
  "tx_Value tx = td_Amount (tx_data tx)"

definition tx_Nonce :: "Transaction \<Rightarrow> u64" where
  "tx_Nonce tx = td_AccountNonce (tx_data tx)"

definition tx_ID :: "Transaction \<Rightarrow> u64" where
  "tx_ID tx = td_ID (tx_data tx)"

definition tx_CMRpk :: "Transaction \<Rightarrow> hexbytes" where
  "tx_CMRpk tx = td_CMRpk (tx_data tx)"

definition tx_CMSpk :: "Transaction \<Rightarrow> hexbytes" where
  "tx_CMSpk tx = td_CMSpk (tx_data tx)"

definition tx_CmS :: "Transaction \<Rightarrow> hexbytes" where
  "tx_CmS tx = td_CmS (tx_data tx)"

definition tx_CmR :: "Transaction \<Rightarrow> hexbytes" where
  "tx_CmR tx = td_CmR (tx_data tx)"

definition tx_CmO :: "Transaction \<Rightarrow> hexbytes" where
  "tx_CmO tx = td_CmO (tx_data tx)"

definition tx_CmV :: "Transaction \<Rightarrow> hexbytes" where
  "tx_CmV tx = td_CmV (tx_data tx)"

definition tx_SigM :: "Transaction \<Rightarrow> hexbytes" where
  "tx_SigM tx = td_SigM (tx_data tx)"

definition tx_SigMHash :: "Transaction \<Rightarrow> hexbytes" where
  "tx_SigMHash tx = td_SigMHash (tx_data tx)"

definition tx_SigR :: "Transaction \<Rightarrow> hexbytes" where
  "tx_SigR tx = td_SigR (tx_data tx)"

definition tx_SigS :: "Transaction \<Rightarrow> hexbytes" where
  "tx_SigS tx = td_SigS (tx_data tx)"

definition tx_To :: "Transaction \<Rightarrow> address option" where
  "tx_To tx = td_Recipient (tx_data tx)"

text \<open>\<open>Btob\<close> has a value receiver: calling it on a nil pointer panics.\<close>

definition Btob :: "hexbytes \<Rightarrow> bytes option" where
  "Btob h = h"

definition EVS :: "Transaction \<Rightarrow> CypherText option" where
  "EVS tx = do {
     c1 \<leftarrow> Btob (td_EvSC1 (tx_data tx));
     c2 \<leftarrow> Btob (td_EvSC2 (tx_data tx));
     Some \<lparr>ct_C1 = c1, ct_C2 = c2\<rparr> }"

definition EVR :: "Transaction \<Rightarrow> CypherText option" where
  "EVR tx = do {
     c1 \<leftarrow> Btob (td_EvRC1 (tx_data tx));
     c2 \<leftarrow> Btob (td_EvRC2 (tx_data tx));
     Some \<lparr>ct_C1 = c1, ct_C2 = c2\<rparr> }"

definition CMsFP :: "Transaction \<Rightarrow> FormatProof option" where
  "CMsFP tx = do {
     c \<leftarrow> Btob (td_CMsFPC (tx_data tx));
     z1 \<leftarrow> Btob (td_CMsFPZ1 (tx_data tx));
     z2 \<leftarrow> Btob (td_CMsFPZ2 (tx_data tx));
     Some \<lparr>fp_C = c, fp_Z1 = z1, fp_Z2 = z2\<rparr> }"

definition CMrFP :: "Transaction \<Rightarrow> FormatProof option" where
  "CMrFP tx = do {
     c \<leftarrow> Btob (td_CMrFPC (tx_data tx));
     z1 \<leftarrow> Btob (td_CMrFPZ1 (tx_data tx));
     z2 \<leftarrow> Btob (td_CMrFPZ2 (tx_data tx));
     Some \<lparr>fp_C = c, fp_Z1 = z1, fp_Z2 = z2\<rparr> }"

definition BP :: "Transaction \<Rightarrow> BalanceProof option" where
  "BP tx = do {
     c \<leftarrow> Btob (td_BPC (tx_data tx));
     rr \<leftarrow> Btob (td_BPRR (tx_data tx));
     rv \<leftarrow> Btob (td_BPRV (tx_data tx));
     sor \<leftarrow> Btob (td_BPSOr (tx_data tx));
     sr \<leftarrow> Btob (td_BPSR (tx_data tx));
     sv \<leftarrow> Btob (td_BPSV (tx_data tx));
     Some \<lparr>bp_C = c, bp_R_v = rv, bp_R_r = rr, bp_S_v = sv, bp_S_r = sr, bp_S_or = sor\<rparr> }"

definition EVO :: "Transaction \<Rightarrow> CypherText option" where
  "EVO tx = do {
     c1 \<leftarrow> Btob (td_EvOC1 (tx_data tx));
     c2 \<leftarrow> Btob (td_EvOC2 (tx_data tx));
     Some \<lparr>ct_C1 = c1, ct_C2 = c2\<rparr> }"

text \<open>\<open>CmSR\<close> and \<open>CmRR\<close> use the first component twice.\<close>

definition CmSR :: "Transaction \<Rightarrow> CypherText option" where
  "CmSR tx = do {
     c1 \<leftarrow> Btob (td_CmSRC1 (tx_data tx));
     c2 \<leftarrow> Btob (td_CmSRC1 (tx_data tx));
     Some \<lparr>ct_C1 = c1, ct_C2 = c2\<rparr> }"

definition CmRR :: "Transaction \<Rightarrow> CypherText option" where
  "CmRR tx = do {
     c1 \<leftarrow> Btob (td_CmRRC1 (tx_data tx));
     c2 \<leftarrow> Btob (td_CmRRC1 (tx_data tx));
     Some \<lparr>ct_C1 = c1, ct_C2 = c2\<rparr> }"

definition ERPK :: "Transaction \<Rightarrow> CypherText option" where
  "ERPK tx = do {
     c1 \<leftarrow> Btob (td_ErpkC1 (tx_data tx));
     c2 \<leftarrow> Btob (td_ErpkC2 (tx_data tx));
     Some \<lparr>ct_C1 = c1, ct_C2 = c2\<rparr> }"

definition ESPK :: "Transaction \<Rightarrow> CypherText option" where
  "ESPK tx = do {
     c1 \<leftarrow> Btob (td_EspkC1 (tx_data tx));
     c2 \<leftarrow> Btob (td_EspkC2 (tx_data tx));
     Some \<lparr>ct_C1 = c1, ct_C2 = c2\<rparr> }"

definition EvoEP :: "Transaction \<Rightarrow> LinearEquationProof option" where
  "EvoEP tx = do {
     s0 \<leftarrow> Btob (td_EvOEPs0 (tx_data tx));
     s1 \<leftarrow> Btob (td_EvOEPs1 (tx_data tx));
     s2 \<leftarrow> Btob (td_EvOEPs2 (tx_data tx));
     s3 \<leftarrow> Btob (td_EvOEPs3 (tx_data tx));
     t \<leftarrow> Btob (td_EvOEPt (tx_data tx));
     Some \<lparr>lp_S = [s0, s1, s2, s3], lp_T = t\<rparr> }"

definition ErpkEP :: "Transaction \<Rightarrow> LinearEquationProof option" where
  "ErpkEP tx = do {
     s0 \<leftarrow> Btob (td_ErpkEPs0 (tx_data tx));
     s1 \<leftarrow> Btob (td_ErpkEPs1 (tx_data tx));
     s2 \<leftarrow> Btob (td_ErpkEPs2 (tx_data tx));
     s3 \<leftarrow> Btob (td_ErpkEPs3 (tx_data tx));
     t \<leftarrow> Btob (td_ErpkEPt (tx_data tx));
     Some \<lparr>lp_S = [s0, s1, s2, s3], lp_T = t\<rparr> }"

definition EspkEP :: "Transaction \<Rightarrow> LinearEquationProof option" where
  "EspkEP tx = do {
     s0 \<leftarrow> Btob (td_EspkEPs0 (tx_data tx));
     s1 \<leftarrow> Btob (td_EspkEPs1 (tx_data tx));
     s2 \<leftarrow> Btob (td_EspkEPs2 (tx_data tx));
     s3 \<leftarrow> Btob (td_EspkEPs3 (tx_data tx));
     t \<leftarrow> Btob (td_EspkEPt (tx_data tx));
     Some \<lparr>lp_S = [s0, s1, s2, s3], lp_T = t\<rparr> }"

definition tx_Cost :: "Transaction \<Rightarrow> int" where
  "tx_Cost tx = td_Price (tx_data tx) * uint (td_GasLimit (tx_data tx)) + td_Amount (tx_data tx)"

text \<open>Replay protection: \<open>BitLen\<close> and \<open>Uint64\<close> of the absolute value.\<close>

definition BitLen_le :: "int \<Rightarrow> nat \<Rightarrow> bool" where
  "BitLen_le v k \<longleftrightarrow> \<bar>v\<bar> < 2 ^ k"

definition big_Uint64 :: "int \<Rightarrow> u64" where
  "big_Uint64 v = of_int \<bar>v\<bar>"

definition isProtectedV :: "int \<Rightarrow> bool" where
  "isProtectedV V = (if BitLen_le V 8 then let v = big_Uint64 V in v \<noteq> 27 \<and> v \<noteq> 28 else True)"

definition deriveChainId :: "int \<Rightarrow> int" where
  "deriveChainId v =
     (if BitLen_le v 64 then
        let w = big_Uint64 v in if w = 27 \<or> w = 28 then 0 else uint ((w - 35) div 2)
      else (v - 35) div 2)"

text \<open>\<open>TxDifference\<close>.\<close>

definition TxDifference :: "(bytes \<Rightarrow> bytes) \<Rightarrow> Transaction list \<Rightarrow> Transaction list \<Rightarrow> Transaction list" where
  "TxDifference keccak a b =
     (let remove = set (map (tx_Hash keccak) b) in filter (\<lambda>tx. tx_Hash keccak tx \<notin> remove) a)"

text \<open>A transaction with every field empty.\<close>

definition blank_data :: txdata where
  "blank_data = txdata_of (replicate 68 (VBytes []))"

section \<open>Over the wire and back\<close>

lemma Encode_bytes_eq:
  assumes "length (rlp_enc v) < 2 ^ 64"
  shows "Encode_bytes v = (if encodable v then rlp_enc v else [])"
proof (cases "write_val v \<lparr>eb_str = [], eb_lheads = [], eb_lhsize = 0\<rparr>")
  case (Inl e)
  with write_Inl(1) [OF Inl] show ?thesis by (simp add: Encode_bytes_def)
next
  case (Inr w)
  have a: "appends \<lparr>eb_str = [], eb_lheads = [], eb_lhsize = 0\<rparr> w (rlp_enc v)"
    by (rule write_appends(1) [OF Inr assms])
  then have "heads_ok (length (eb_str w)) (eb_lheads w) 0" "render (eb_str w) (eb_lheads w) 0 = rlp_enc v"
    by (auto simp: appends_def shift_def cong: map_cong)
  with write_Inr(1) [OF Inr] Inr show ?thesis
    by (simp add: Encode_bytes_def toWriter_def toWriter_loop_eq)
qed

definition tx_ok :: "txdata \<Rightarrow> bool" where
  "tx_ok d \<longleftrightarrow> 0 \<le> td_Price d \<and> 0 \<le> td_Amount d \<and> 0 \<le> td_V d \<and> 0 \<le> td_R d \<and> 0 \<le> td_S d \<and>
     (case td_Recipient d of None \<Rightarrow> True | Some a \<Rightarrow> length a = 20)"

lemma hex_val_fill: "has_type (hex_val (fill h)) (TPtr String TBytes)" "rlp_enc (hex_val (fill h)) = rlp_enc (hex_val h)"
  "val_ptr (hex_val h) = h" "encodable (hex_val h)"
  by (cases h; simp add: hex_val_def fill_def)+

lemma recipient_type:
  assumes "case a of None \<Rightarrow> True | Some b \<Rightarrow> length b = 20"
  shows "has_type (VPtr String (map_option VByteArray a)) (TNilPtr String (TByteArray 20))"
proof (cases a)
  case (Some b)
  with assms have "length b = 20" by simp
  then have "length (enc_string b) = 21" "b \<noteq> [0]" by (auto simp: enc_string_def rlp_head_def)
  then have "enc_string b \<noteq> [0x80]" "enc_string b \<noteq> [0xC0]" by auto
  with Some \<open>length b = 20\<close> \<open>b \<noteq> [0]\<close> show ?thesis by simp
qed simp

lemma uint_type: "has_type (VUint i) (TUint 64)"
  using unat_u64_lt [of i] by simp

lemma has_types_Cons: "has_types (v # vs) (t # ts) \<longleftrightarrow> has_type v t \<and> has_types vs ts"
  by simp

lemma big_type: "0 \<le> i \<Longrightarrow> has_type (VBigPtr (Some i)) TBigPtr" and bytes_type: "has_type (VBytes b) TBytes"
  by simp_all

lemma wire_simps:
  "td_Price (wire d) = td_Price d" "td_Amount (wire d) = td_Amount d" "td_V (wire d) = td_V d" "td_R (wire d) = td_R d"
  "td_S (wire d) = td_S d" "td_Recipient (wire d) = td_Recipient d"
  by (simp_all add: wire_def)

lemma wire_has_type:
  assumes "tx_ok d"
  shows "has_type (txdata_val (wire d)) txdata_typ"
proof -
  have r: "has_type (VPtr String (map_option VByteArray (td_Recipient d))) (TNilPtr String (TByteArray 20))"
    using assms recipient_type by (simp add: tx_ok_def)
  have "has_type (VStruct vs) (TStruct ts) \<longleftrightarrow> has_types vs ts" for vs ts by simp
  with assms show ?thesis
    unfolding txdata_val_def txdata_typ_def
    by (simp only: has_types_Cons uint_type big_type bytes_type tx_ok_def has_types.simps(1) simp_thms)
      (simp add: wire_def hex_val_fill(1) r big_type del: has_type.simps)
qed

lemma wire_enc: "rlp_enc (txdata_val (wire d)) = rlp_enc (txdata_val d)"
  by (simp add: txdata_val_def wire_def hex_val_fill(2))

lemma wire_encodable: "encodable (txdata_val (wire d)) \<longleftrightarrow> encodable (txdata_val d)"
  by (simp add: txdata_val_def wire_def hex_val_fill(4))

lemma tx_ok_encodable: "tx_ok d \<Longrightarrow> encodable (txdata_val d)"
  using has_type_encodable(1) [OF wire_has_type] wire_encodable by blast

lemma val_ptr_array: "val_ptr (VPtr String (map_option VByteArray a)) = a"
  by (cases a) simp_all

lemma txdata_of_val: "txdata_val d = VStruct vs \<Longrightarrow> txdata_of vs = d"
  by (auto simp: txdata_val_def txdata_of_def hex_val_fill(3) val_ptr_array simp del: val_ptr.simps)

lemma tx_Hash_wire: "length (rlp_enc (txdata_val d)) < 2 ^ 64 \<Longrightarrow> tx_Hash keccak (Tx (wire d)) = tx_Hash keccak (Tx d)"
  using Encode_bytes_eq [of "txdata_val d"] Encode_bytes_eq [of "txdata_val (wire d)"]
  by (simp add: tx_Hash_def rlpHash_def wire_enc wire_encodable)

text \<open>
  C20: A transaction survives the trip over the wire: what \<open>EncodeRLP\<close> writes is decoded to the same
  transaction, except that nil commitment and proof fields arrive as empty ones, and the transaction
  that arrives has the same hash and the size of the received bytes.
\<close>

theorem tx_DecodeRLP_EncodeRLP:
  assumes "tx_ok d" and "length (rlp_enc (txdata_val d)) < 2 ^ 64"
  shows "\<exists>b. EncodeToBytes (txdata_val d) = Some (Inr b) \<and> (\<exists>N. \<forall>n \<ge> N. tx_DecodeRLP n b = Some (Inr (Tx (wire d)))) \<and>
    tx_Hash keccak (Tx (wire d)) = tx_Hash keccak (Tx d) \<and> tx_Size (Tx (wire d)) = length b"
proof -
  let ?b = "rlp_enc (txdata_val d)"
  obtain vs where vs: "txdata_val (wire d) = VStruct vs" by (simp add: txdata_val_def)
  obtain N where "\<forall>n \<ge> N. DecodeBytes n ?b txdata_typ = Some (Inr (txdata_val (wire d)))"
    using DecodeBytes_rlp_enc [OF wire_has_type [OF assms(1)]] assms(2) wire_enc by auto
  then have "\<forall>n \<ge> N. tx_DecodeRLP n ?b = Some (Inr (Tx (wire d)))"
    using txdata_of_val [OF vs] vs by (simp add: tx_DecodeRLP_def)
  moreover have "EncodeToBytes (txdata_val d) = Some (Inr ?b)"
    using EncodeToBytes_rlp_enc [OF assms(2)] tx_ok_encodable [OF assms(1)] by simp
  moreover have "tx_Size (Tx (wire d)) = length ?b"
    using Encode_bytes_eq [of "txdata_val (wire d)"] assms(2) tx_ok_encodable [OF assms(1)]
    by (simp add: tx_Size_def wire_enc wire_encodable)
  ultimately show ?thesis using tx_Hash_wire [OF assms(2)] by blast
qed

lemma rlp_enc_hex_None: "rlp_enc (hex_val None) = [0x80]"
  by (simp add: hex_val_def enc_string_def rlp_head_def)

lemma blank_data_ok: "tx_ok blank_data" "length (rlp_enc (txdata_val blank_data)) < 2 ^ 64"
  by (simp_all add: blank_data_def txdata_of_def tx_ok_def txdata_val_def rlp_enc_hex_None enc_list_def enc_string_def
      rlp_head_def be_bytes.simps)

theorem tx_DecodeRLP_EncodeRLP_witness:
  "\<exists>b. EncodeToBytes (txdata_val blank_data) = Some (Inr b) \<and>
    (\<exists>N. \<forall>n \<ge> N. tx_DecodeRLP n b = Some (Inr (Tx (wire blank_data)))) \<and>
    tx_Hash (take 32) (Tx (wire blank_data)) = tx_Hash (take 32) (Tx blank_data) \<and> tx_Size (Tx (wire blank_data)) = length b"
  by (rule tx_DecodeRLP_EncodeRLP [OF blank_data_ok])

end
