(* ===== verification/Cm_Db.thy ===== *)
theory Cm_Db
  imports Transaction
begin

text \<open>
  The database of commitments: \<open>core/types/commitment.go\<close>, the accessors of
  \<open>core/rawdb/accessors_chain.go\<close>, and the checks and updates that the transaction pool
  (\<open>validateCM\<close>, \<open>processCM\<close>, \<open>reorgCM\<close> of \<open>core/tx_pool.go\<close>) and the block importer
  (\<open>WriteAllCM\<close>) perform on it. The database maps keys to RLP bytes; an error of the key-value store
  ends the process and is not modelled. \<open>WriteCM\<close> is \<open>None\<close> where \<open>log.Crit\<close> ends the process.
\<close>

section \<open>Commitments\<close>

record CM =
  CM_Cm :: hexbytes
  CM_Spent :: bool
  CM_Lock :: bool

definition NewDefaultCM :: "hexbytes \<Rightarrow> CM" where
  "NewDefaultCM Cm = \<lparr>CM_Cm = Cm, CM_Spent = False, CM_Lock = False\<rparr>"

definition NewCM :: "hexbytes \<Rightarrow> bool \<Rightarrow> CM" where
  "NewCM Cm Spent = \<lparr>CM_Cm = Cm, CM_Spent = Spent, CM_Lock = False\<rparr>"

definition CM_Hash :: "(bytes \<Rightarrow> bytes) \<Rightarrow> CM \<Rightarrow> bytes" where
  "CM_Hash keccak cm = rlpHash keccak (hex_val (CM_Cm cm))"

section \<open>Storage\<close>

type_synonym cmdb = "bytes \<rightharpoonup> bytes"

definition CM_val :: "CM \<Rightarrow> rlp_val" where
  "CM_val c = VStruct [hex_val (CM_Cm c), VBool (CM_Spent c), VBool (CM_Lock c)]"

definition CM_typ :: rlp_typ where
  "CM_typ = TStruct [TPtr String TBytes, TBool, TBool]"

fun val_bool :: "rlp_val \<Rightarrow> bool" where
  "val_bool (VBool b) = b"
| "val_bool _ = False"

fun CM_of :: "rlp_val \<Rightarrow> CM" where
  "CM_of (VStruct [c, s, l]) = \<lparr>CM_Cm = val_ptr c, CM_Spent = val_bool s, CM_Lock = val_bool l\<rparr>"
| "CM_of _ = \<lparr>CM_Cm = None, CM_Spent = False, CM_Lock = False\<rparr>"

text \<open>The prefix is the character \<open>c\<close>.\<close>

definition CMKey :: "bytes \<Rightarrow> bytes" where
  "CMKey hash = 0x63 # hash"

definition HasCM :: "cmdb \<Rightarrow> bytes \<Rightarrow> bool" where
  "HasCM db hash \<longleftrightarrow> db (CMKey hash) \<noteq> None"

definition WriteCM :: "cmdb \<Rightarrow> bytes \<Rightarrow> CM \<Rightarrow> cmdb option" where
  "WriteCM db hash cm =
     (case EncodeToBytes (CM_val cm) of
        Some (Inr data) \<Rightarrow> Some (db(CMKey hash \<mapsto> data))
      | _ \<Rightarrow> None)"

definition ReadCMRLP :: "cmdb \<Rightarrow> bytes \<Rightarrow> bytes option" where
  "ReadCMRLP db hash = (case db (CMKey hash) of None \<Rightarrow> None | Some data \<Rightarrow> if data = [] then None else Some data)"

text \<open>The decoder of the three fields never needs more than 6 nested calls, see \<open>CM_fuel\<close>.\<close>

definition ReadCM :: "cmdb \<Rightarrow> bytes \<Rightarrow> CM option" where
  "ReadCM db hash =
     (case ReadCMRLP db hash of
        None \<Rightarrow> None
      | Some data \<Rightarrow> (case Decode 6 data CM_typ of Some (Inr v) \<Rightarrow> Some (CM_of v) | _ \<Rightarrow> None))"

definition DeleteCM :: "cmdb \<Rightarrow> bytes \<Rightarrow> cmdb" where
  "DeleteCM db hash = db(CMKey hash := None)"

definition WriteAllCM_tx :: "(bytes \<Rightarrow> bytes) \<Rightarrow> cmdb \<Rightarrow> Transaction \<Rightarrow> cmdb option" where
  "WriteAllCM_tx keccak db tx = do {
     db1 \<leftarrow> (if tx_ID tx = 1 then
        let CmV = NewDefaultCM (tx_CmV tx) in WriteCM db (CM_Hash keccak CmV) CmV
      else Some db);
     (if tx_ID tx = 0 then do {
        let CmO = NewCM (tx_CmO tx) True;
        db2 \<leftarrow> WriteCM db1 (CM_Hash keccak CmO) CmO;
        let CmS = NewDefaultCM (tx_CmS tx);
        db3 \<leftarrow> WriteCM db2 (CM_Hash keccak CmS) CmS;
        let CmR = NewDefaultCM (tx_CmR tx);
        WriteCM db3 (CM_Hash keccak CmR) CmR }
      else Some db1) }"

fun WriteAllCM :: "(bytes \<Rightarrow> bytes) \<Rightarrow> cmdb \<Rightarrow> Transaction list \<Rightarrow> cmdb option" where
  "WriteAllCM keccak db [] = Some db"
| "WriteAllCM keccak db (tx # txs) = do { db1 \<leftarrow> WriteAllCM_tx keccak db tx; WriteAllCM keccak db1 txs }"

section \<open>The pool's use of the database\<close>

datatype pool_error =
  ErrAlreadyKnown | ErrInvalidSender | ErrNonceTooLow | ErrUnderpriced | ErrReplaceUnderpriced
| ErrInsufficientFunds | ErrIntrinsicGas | ErrGasLimit | ErrNegativeValue | ErrOversizedData
| ErrVerifySig | ErrVerifyEvSFormatProof | ErrVerifyEvRFormatProof | ErrVerifyBalanceProof
| ErrVerifyTotalEqualityProof | ErrVerifySpkEqualityProof | ErrVerifyRpkEqualityProof
| ErrIDFormat | ErrExistedCM | ErrInvalidCM | ErrID

text \<open>\<open>None\<close> is Go's nil error.\<close>

definition validateCM :: "(bytes \<Rightarrow> bytes) \<Rightarrow> cmdb \<Rightarrow> Transaction \<Rightarrow> pool_error option" where
  "validateCM keccak db tx =
     (if tx_ID tx = 1 then
        (if HasCM db (CM_Hash keccak (NewDefaultCM (tx_CmV tx))) then Some ErrExistedCM else None)
      else if tx_ID tx = 0 then
        (case ReadCM db (CM_Hash keccak (NewDefaultCM (tx_CmO tx))) of
           None \<Rightarrow> Some ErrInvalidCM
         | Some CmO_ \<Rightarrow>
             if CM_Spent CmO_ \<or> CM_Lock CmO_ then Some ErrInvalidCM
             else if HasCM db (CM_Hash keccak (NewDefaultCM (tx_CmS tx))) then Some ErrExistedCM
             else if HasCM db (CM_Hash keccak (NewDefaultCM (tx_CmR tx))) then Some ErrExistedCM
             else None)
      else Some ErrID)"

definition processCM :: "(bytes \<Rightarrow> bytes) \<Rightarrow> cmdb \<Rightarrow> Transaction \<Rightarrow> cmdb option" where
  "processCM keccak db tx = do {
     db1 \<leftarrow> (if tx_ID tx = 1 then
        let CmV = (NewDefaultCM (tx_CmV tx))\<lparr>CM_Lock := True\<rparr> in WriteCM db (CM_Hash keccak CmV) CmV
      else Some db);
     (if tx_ID tx = 0 then
        let CmO = (NewDefaultCM (tx_CmO tx))\<lparr>CM_Lock := True\<rparr> in WriteCM db1 (CM_Hash keccak CmO) CmO
      else Some db1) }"

definition reorgCM :: "(bytes \<Rightarrow> bytes) \<Rightarrow> cmdb \<Rightarrow> Transaction \<Rightarrow> cmdb option" where
  "reorgCM keccak db tx = do {
     db1 \<leftarrow> (if tx_ID tx = 1 then
        let CmV = NewDefaultCM (tx_CmV tx) in WriteCM db (CM_Hash keccak CmV) CmV
      else Some db);
     (if tx_ID tx = 0 then
        let CmO = NewDefaultCM (tx_CmO tx) in WriteCM db1 (CM_Hash keccak CmO) CmO
      else Some db1) }"

section \<open>Reading back what was written\<close>

lemma CM_fuel: "Decode (n + 6) b CM_typ = Decode 6 b CM_typ" "Decode 6 b CM_typ \<noteq> None"
proof -
  have "Decode (Suc (Suc (Suc (Suc (Suc (Suc n)))))) b CM_typ = Decode (Suc (Suc (Suc (Suc (Suc (Suc 0)))))) b CM_typ \<and>
    Decode (Suc (Suc (Suc (Suc (Suc (Suc 0)))))) b CM_typ \<noteq> None" for n
    by (auto simp: Decode_def CM_typ_def dbind_def split: option.split sum.split prod.split)
  then show "Decode (n + 6) b CM_typ = Decode 6 b CM_typ" "Decode 6 b CM_typ \<noteq> None"
    by (simp_all add: numeral_eq_Suc)
qed

definition hex_fits :: "hexbytes \<Rightarrow> bool" where
  "hex_fits h \<longleftrightarrow> (case h of None \<Rightarrow> True | Some b \<Rightarrow> length b < 2 ^ 63)"

lemma CM_val_fits: "hex_fits (CM_Cm c) \<Longrightarrow> length (rlp_enc (CM_val c)) < 2 ^ 64"
proof -
  assume f: "hex_fits (CM_Cm c)"
  have bool: "length (enc_string (if b then [1] else [])) = 1" for b by (simp add: enc_string_def rlp_head_def)
  define b where "b = (case CM_Cm c of None \<Rightarrow> [] | Some b \<Rightarrow> b)"
  have b: "length b < 2 ^ 63" using f by (auto simp: b_def hex_fits_def split: option.splits)
  have "rlp_enc (hex_val (CM_Cm c)) = enc_string b" by (cases "CM_Cm c") (simp_all add: hex_val_def b_def)
  moreover have "length (enc_string b) \<le> length b + 9"
    using b length_rlp_head_le [of "length b"] by (simp add: enc_string_def)
  ultimately have l: "length (concat (map rlp_enc [hex_val (CM_Cm c), VBool (CM_Spent c), VBool (CM_Lock c)])) \<le> length b + 11"
    using bool [of "CM_Spent c"] bool [of "CM_Lock c"] by simp
  let ?p = "concat (map rlp_enc [hex_val (CM_Cm c), VBool (CM_Spent c), VBool (CM_Lock c)])"
  have "length (enc_list ?p) \<le> length ?p + 9"
    using l b length_rlp_head_le [of "length ?p"] by (simp add: enc_list_def)
  then show ?thesis using l b by (simp add: CM_val_def)
qed

definition CM_wire :: "CM \<Rightarrow> CM" where
  "CM_wire c = c\<lparr>CM_Cm := fill (CM_Cm c)\<rparr>"

lemma Decode_CM:
  assumes "length (rlp_enc (CM_val c)) < 2 ^ 64"
  shows "Decode 6 (rlp_enc (CM_val c)) CM_typ = Some (Inr (CM_val (CM_wire c)))"
proof -
  have t: "has_type (CM_val (CM_wire c)) CM_typ"
    using hex_val_fill(1) [of "CM_Cm c"] by (simp add: CM_val_def CM_typ_def CM_wire_def del: has_type.simps(13))
  have e: "rlp_enc (CM_val (CM_wire c)) = rlp_enc (CM_val c)" by (simp add: CM_val_def CM_wire_def hex_val_fill(2))
  let ?b = "rlp_enc (CM_val c)"
  have ne: "?b \<noteq> []" using decodes_ne [OF has_type_decodes(1) [OF t]] e by simp
  have r: "stream_Reset ?b 0 = stream_Reset ?b (of_nat (length ?b))" by (simp add: stream_Reset_def)
  obtain N where "\<forall>n \<ge> N. DecodeBytes n ?b CM_typ = Some (Inr (CM_val (CM_wire c)))"
    using DecodeBytes_rlp_enc [OF t] assms e by auto
  then have "DecodeBytes (N + 6) ?b CM_typ = Some (Inr (CM_val (CM_wire c)))" by simp
  then have "Decode (N + 6) ?b CM_typ = Some (Inr (CM_val (CM_wire c)))"
    by (auto simp: DecodeBytes_def Decode_def r split: option.splits sum.splits if_splits)
  then show ?thesis using CM_fuel(1) by simp
qed

lemma WriteCM_eq:
  assumes "hex_fits (CM_Cm c)"
  shows "WriteCM db hash c = Some (db(CMKey hash \<mapsto> rlp_enc (CM_val c)))"
proof -
  have "encodable (CM_val c)" by (simp add: CM_val_def hex_val_fill(4))
  then show ?thesis using EncodeToBytes_rlp_enc [OF CM_val_fits [OF assms]] by (simp add: WriteCM_def)
qed

lemma WriteCM_spec:
  assumes "hex_fits (CM_Cm c)"
  obtains db' where "WriteCM db hash c = Some db'"
    and "\<And>h. ReadCM db' h = (if h = hash then Some (CM_wire c) else ReadCM db h)"
    and "\<And>h. HasCM db' h \<longleftrightarrow> h = hash \<or> HasCM db h"
proof -
  let ?db = "db(CMKey hash \<mapsto> rlp_enc (CM_val c))"
  have ne: "rlp_enc (CM_val c) \<noteq> []" by (simp add: CM_val_def enc_list_def rlp_head_def)
  have "CM_of (CM_val (CM_wire c)) = CM_wire c" by (simp add: CM_val_def hex_val_fill(3))
  then have "ReadCM ?db h = (if h = hash then Some (CM_wire c) else ReadCM db h)" for h
    using Decode_CM [OF CM_val_fits [OF assms]] ne by (simp add: ReadCM_def ReadCMRLP_def CMKey_def)
  moreover have "HasCM ?db h \<longleftrightarrow> h = hash \<or> HasCM db h" for h by (simp add: HasCM_def CMKey_def)
  ultimately show thesis using that WriteCM_eq [OF assms] by blast
qed

text \<open>
  C22: A commitment that was written is read back with its flags, under its own hash only; every other
  commitment is untouched.
\<close>

theorem ReadCM_WriteCM:
  assumes "hex_fits (CM_Cm c)"
  shows "\<exists>db'. WriteCM db hash c = Some db' \<and> ReadCM db' hash = Some (c\<lparr>CM_Cm := fill (CM_Cm c)\<rparr>) \<and>
    HasCM db' hash \<and> (\<forall>h. h \<noteq> hash \<longrightarrow> ReadCM db' h = ReadCM db h \<and> HasCM db' h = HasCM db h) \<and>
    \<not> HasCM (DeleteCM db' hash) hash"
  by (rule WriteCM_spec [OF assms, of db hash]) (auto simp: CM_wire_def DeleteCM_def HasCM_def)

theorem ReadCM_WriteCM_witness:
  "\<exists>db'. WriteCM Map.empty [7] \<lparr>CM_Cm = Some [1, 2], CM_Spent = False, CM_Lock = True\<rparr> = Some db' \<and>
    ReadCM db' [7] = Some \<lparr>CM_Cm = Some [1, 2], CM_Spent = False, CM_Lock = True\<rparr>"
  using ReadCM_WriteCM [of "\<lparr>CM_Cm = Some [1, 2], CM_Spent = False, CM_Lock = True\<rparr>" Map.empty "[7]"]
  by (auto simp: hex_fits_def fill_def)

section \<open>A ledger of coins\<close>

text \<open>
  The contract of the database: every commitment hash is a coin that is unknown, free to spend,
  locked by a transaction of the pool, or used up by a block.
\<close>

datatype coin = Fresh | Free | Locked | Used

type_synonym ledger = "bytes \<Rightarrow> coin"

definition coins :: "cmdb \<Rightarrow> ledger" where
  "coins db h =
     (case ReadCM db h of
        None \<Rightarrow> Fresh
      | Some c \<Rightarrow> if CM_Spent c then Used else if CM_Lock c then Locked else Free)"

definition cmdb_ok :: "cmdb \<Rightarrow> bool" where
  "cmdb_ok db \<longleftrightarrow> (\<forall>h. HasCM db h \<longrightarrow> ReadCM db h \<noteq> None)"

definition cmh :: "(bytes \<Rightarrow> bytes) \<Rightarrow> hexbytes \<Rightarrow> bytes" where
  "cmh keccak h = rlpHash keccak (hex_val h)"

text \<open>The coin a transaction lays claim to: the one it buys or the one it spends.\<close>

definition claim_of :: "(bytes \<Rightarrow> bytes) \<Rightarrow> Transaction \<Rightarrow> bytes option" where
  "claim_of keccak tx =
     (if tx_ID tx = 1 then Some (cmh keccak (tx_CmV tx)) else if tx_ID tx = 0 then Some (cmh keccak (tx_CmO tx)) else None)"

definition outputs_of :: "(bytes \<Rightarrow> bytes) \<Rightarrow> Transaction \<Rightarrow> bytes set" where
  "outputs_of keccak tx =
     (if tx_ID tx = 1 then {cmh keccak (tx_CmV tx)}
      else if tx_ID tx = 0 then {cmh keccak (tx_CmS tx), cmh keccak (tx_CmR tx)} else {})"

definition admits :: "(bytes \<Rightarrow> bytes) \<Rightarrow> ledger \<Rightarrow> Transaction \<Rightarrow> bool" where
  "admits keccak L tx \<longleftrightarrow>
     (tx_ID tx = 1 \<or> tx_ID tx = 0 \<and> L (cmh keccak (tx_CmO tx)) = Free) \<and> (\<forall>h \<in> outputs_of keccak tx. L h = Fresh)"

definition set_claim :: "(bytes \<Rightarrow> bytes) \<Rightarrow> ledger \<Rightarrow> Transaction \<Rightarrow> coin \<Rightarrow> ledger" where
  "set_claim keccak L tx c = (case claim_of keccak tx of None \<Rightarrow> L | Some h \<Rightarrow> L(h := c))"

definition mine_tx :: "(bytes \<Rightarrow> bytes) \<Rightarrow> ledger \<Rightarrow> Transaction \<Rightarrow> ledger" where
  "mine_tx keccak L tx h =
     (if h \<in> outputs_of keccak tx then Free else if claim_of keccak tx = Some h then Used else L h)"

definition tx_fits :: "Transaction \<Rightarrow> bool" where
  "tx_fits tx \<longleftrightarrow> hex_fits (tx_CmV tx) \<and> hex_fits (tx_CmO tx) \<and> hex_fits (tx_CmS tx) \<and> hex_fits (tx_CmR tx)"

lemma CM_Hash_cmh [simp]: "CM_Hash keccak c = cmh keccak (CM_Cm c)"
  by (simp add: CM_Hash_def cmh_def)

lemma ReadCM_HasCM: "ReadCM db h \<noteq> None \<Longrightarrow> HasCM db h"
  by (auto simp: ReadCM_def ReadCMRLP_def HasCM_def split: option.splits)

lemma HasCM_coins: "cmdb_ok db \<Longrightarrow> HasCM db h \<longleftrightarrow> coins db h \<noteq> Fresh"
  using ReadCM_HasCM [of db h] by (auto simp: cmdb_ok_def coins_def split: option.splits)

lemma WriteCM_coins:
  assumes "hex_fits (CM_Cm c)" and "cmdb_ok db"
  shows "\<exists>db'. WriteCM db hash c = Some db' \<and> cmdb_ok db' \<and>
    coins db' = (coins db)(hash := if CM_Spent c then Used else if CM_Lock c then Locked else Free)"
proof -
  obtain db' where w: "WriteCM db hash c = Some db'"
    and r: "\<And>h. ReadCM db' h = (if h = hash then Some (CM_wire c) else ReadCM db h)"
    and m: "\<And>h. HasCM db' h \<longleftrightarrow> h = hash \<or> HasCM db h"
    by (rule WriteCM_spec [OF assms(1), of db hash]) blast
  have "cmdb_ok db'" using assms(2) r m by (auto simp: cmdb_ok_def)
  moreover have "coins db' = (coins db)(hash := if CM_Spent c then Used else if CM_Lock c then Locked else Free)"
    by (rule ext) (simp add: coins_def r CM_wire_def)
  ultimately show ?thesis using w by blast
qed

lemma validateCM_admits:
  "cmdb_ok db \<Longrightarrow> validateCM keccak db tx = None \<longleftrightarrow> admits keccak (coins db) tx"
  by (auto simp: validateCM_def admits_def outputs_of_def HasCM_coins NewDefaultCM_def coins_def split: option.splits)

lemma processCM_coins:
  assumes "tx_fits tx" and "cmdb_ok db"
  shows "\<exists>db'. processCM keccak db tx = Some db' \<and> cmdb_ok db' \<and> coins db' = set_claim keccak (coins db) tx Locked"
  using WriteCM_coins [of "\<lparr>CM_Cm = tx_CmV tx, CM_Spent = False, CM_Lock = True\<rparr>" db]
    WriteCM_coins [of "\<lparr>CM_Cm = tx_CmO tx, CM_Spent = False, CM_Lock = True\<rparr>" db] assms
  by (fastforce simp: processCM_def set_claim_def claim_of_def tx_fits_def NewDefaultCM_def)

lemma reorgCM_coins:
  assumes "tx_fits tx" and "cmdb_ok db"
  shows "\<exists>db'. reorgCM keccak db tx = Some db' \<and> cmdb_ok db' \<and> coins db' = set_claim keccak (coins db) tx Free"
  using WriteCM_coins [of "\<lparr>CM_Cm = tx_CmV tx, CM_Spent = False, CM_Lock = False\<rparr>" db]
    WriteCM_coins [of "\<lparr>CM_Cm = tx_CmO tx, CM_Spent = False, CM_Lock = False\<rparr>" db] assms
  by (fastforce simp: reorgCM_def set_claim_def claim_of_def tx_fits_def NewDefaultCM_def)

lemma WriteAllCM_tx_coins:
  assumes "tx_fits tx" and "cmdb_ok db"
  shows "\<exists>db'. WriteAllCM_tx keccak db tx = Some db' \<and> cmdb_ok db' \<and> coins db' = mine_tx keccak (coins db) tx"
proof -
  have w: "\<exists>db'. WriteCM db h \<lparr>CM_Cm = x, CM_Spent = b, CM_Lock = False\<rparr> = Some db' \<and> cmdb_ok db' \<and>
      coins db' = (coins db)(h := if b then Used else Free)" if "hex_fits x" "cmdb_ok db" for db h x b
    using WriteCM_coins [of "\<lparr>CM_Cm = x, CM_Spent = b, CM_Lock = False\<rparr>" db h] that by (cases b) simp_all
  consider "tx_ID tx = 1" | "tx_ID tx = 0" | "tx_ID tx \<noteq> 1" "tx_ID tx \<noteq> 0" by blast
  then show ?thesis
  proof cases
    case 1
    then show ?thesis
      using w [of "tx_CmV tx" db "cmh keccak (tx_CmV tx)" False] assms
      by (auto simp: WriteAllCM_tx_def mine_tx_def claim_of_def outputs_of_def tx_fits_def NewDefaultCM_def fun_eq_iff)
  next
    case 2
    let ?o = "cmh keccak (tx_CmO tx)" and ?s = "cmh keccak (tx_CmS tx)" and ?r = "cmh keccak (tx_CmR tx)"
    obtain db1 where d1: "WriteCM db ?o \<lparr>CM_Cm = tx_CmO tx, CM_Spent = True, CM_Lock = False\<rparr> = Some db1" "cmdb_ok db1"
        "coins db1 = (coins db)(?o := Used)"
      using w [of "tx_CmO tx" db ?o True] assms by (auto simp: tx_fits_def)
    obtain db2 where d2: "WriteCM db1 ?s \<lparr>CM_Cm = tx_CmS tx, CM_Spent = False, CM_Lock = False\<rparr> = Some db2" "cmdb_ok db2"
        "coins db2 = (coins db1)(?s := Free)"
      using w [of "tx_CmS tx" db1 ?s False] assms d1 by (auto simp: tx_fits_def)
    obtain db3 where d3: "WriteCM db2 ?r \<lparr>CM_Cm = tx_CmR tx, CM_Spent = False, CM_Lock = False\<rparr> = Some db3" "cmdb_ok db3"
        "coins db3 = (coins db2)(?r := Free)"
      using w [of "tx_CmR tx" db2 ?r False] assms d2 by (auto simp: tx_fits_def)
    from 2 d1 d2 d3 show ?thesis
      by (auto simp: WriteAllCM_tx_def mine_tx_def claim_of_def outputs_of_def NewDefaultCM_def NewCM_def fun_eq_iff)
  next
    case 3
    then have "mine_tx keccak (coins db) tx = coins db" by (simp add: mine_tx_def claim_of_def outputs_of_def fun_eq_iff)
    with 3 assms show ?thesis by (simp add: WriteAllCM_tx_def)
  qed
qed

lemma WriteAllCM_coins:
  "list_all tx_fits txs \<Longrightarrow> cmdb_ok db \<Longrightarrow>
    \<exists>db'. WriteAllCM keccak db txs = Some db' \<and> cmdb_ok db' \<and> coins db' = fold (\<lambda>tx L. mine_tx keccak L tx) txs (coins db)"
proof (induction txs arbitrary: db)
  case (Cons tx txs)
  then obtain db1 where "WriteAllCM_tx keccak db tx = Some db1" "cmdb_ok db1" "coins db1 = mine_tx keccak (coins db) tx"
    using WriteAllCM_tx_coins [of tx db keccak] by auto
  with Cons.IH [of db1] Cons.prems show ?case by auto
qed simp

text \<open>
  C1: The database implements the ledger of coins. \<open>validateCM\<close> accepts exactly the transactions whose
  outputs are fresh and whose input, if they spend one, is free; \<open>processCM\<close> locks the claimed coin,
  \<open>reorgCM\<close> frees it, and \<open>WriteAllCM\<close> uses up the inputs of a block and frees its outputs. None of
  them fails or damages the database.
\<close>

theorem cmdb_refines_ledger:
  assumes "cmdb_ok db" and "tx_fits tx" and "list_all tx_fits block"
  shows "(validateCM keccak db tx = None \<longleftrightarrow> admits keccak (coins db) tx) \<and>
    (\<exists>db'. processCM keccak db tx = Some db' \<and> cmdb_ok db' \<and> coins db' = set_claim keccak (coins db) tx Locked) \<and>
    (\<exists>db'. reorgCM keccak db tx = Some db' \<and> cmdb_ok db' \<and> coins db' = set_claim keccak (coins db) tx Free) \<and>
    (\<exists>db'. WriteAllCM keccak db block = Some db' \<and> cmdb_ok db' \<and>
      coins db' = fold (\<lambda>tx L. mine_tx keccak L tx) block (coins db))"
  using validateCM_admits [OF assms(1)] processCM_coins [OF assms(2,1)] reorgCM_coins [OF assms(2,1)]
    WriteAllCM_coins [OF assms(3,1)] by blast

lemma cmdb_ok_empty [simp]: "cmdb_ok Map.empty" "coins Map.empty = (\<lambda>_. Fresh)"
  by (auto simp: cmdb_ok_def HasCM_def coins_def ReadCM_def ReadCMRLP_def)

text \<open>A purchase and a transfer for the examples, with the identity as hash function.\<close>

definition ex_purchase :: "u8 \<Rightarrow> Transaction" where
  "ex_purchase v = Tx (blank_data\<lparr>td_ID := 1, td_CmV := Some [v]\<rparr>)"

definition ex_transfer :: "u8 \<Rightarrow> u8 \<Rightarrow> u8 \<Rightarrow> Transaction" where
  "ex_transfer c s r = Tx (blank_data\<lparr>td_ID := 0, td_CmO := Some [c], td_CmS := Some [s], td_CmR := Some [r]\<rparr>)"

lemma ex_fits [simp]: "tx_fits (ex_purchase v)" "tx_fits (ex_transfer c s r)"
  by (simp_all add: tx_fits_def hex_fits_def blank_data_def txdata_of_def ex_purchase_def ex_transfer_def
      tx_CmV_def tx_CmO_def tx_CmS_def tx_CmR_def)

lemma ex_sel [simp]:
  "tx_ID (ex_purchase v) = 1" "tx_CmV (ex_purchase v) = Some [v]" "tx_ID (ex_transfer c s r) = 0"
  "tx_CmO (ex_transfer c s r) = Some [c]" "tx_CmS (ex_transfer c s r) = Some [s]" "tx_CmR (ex_transfer c s r) = Some [r]"
  by (simp_all add: ex_purchase_def ex_transfer_def tx_ID_def tx_CmV_def tx_CmO_def tx_CmS_def tx_CmR_def)

lemma ex_cmh [simp]: "v \<le> 0x7F \<Longrightarrow> cmh (\<lambda>b. b) (Some [v]) = [v]"
  using Encode_bytes_eq [of "hex_val (Some [v])"] by (simp add: cmh_def rlpHash_def hex_val_def enc_string_def)

theorem cmdb_refines_ledger_witness:
  "validateCM (\<lambda>b. b) Map.empty (ex_purchase 1) = None \<and>
   (\<exists>db'. processCM (\<lambda>b. b) Map.empty (ex_purchase 1) = Some db' \<and> coins db' [1] = Locked)"
proof -
  note r = cmdb_refines_ledger [of Map.empty "ex_purchase 1" "[]" "\<lambda>b. b", simplified]
  from conjunct1 [OF r] conjunct1 [OF conjunct2 [OF r]] show ?thesis
    by (auto simp: admits_def outputs_of_def set_claim_def claim_of_def)
qed

section \<open>Used coins and the two ways around them\<close>

lemma mine_fold_Used:
  assumes "L h = Used" and "\<And>tx. tx \<in> set txs \<Longrightarrow> h \<notin> outputs_of keccak tx"
  shows "fold (\<lambda>tx L. mine_tx keccak L tx) txs L h = Used"
  using assms
proof (induction txs arbitrary: L)
  case (Cons tx txs)
  then have "mine_tx keccak L tx h = Used" by (simp add: mine_tx_def)
  with Cons show ?case by simp
qed simp

lemma mine_fold_Free:
  assumes "L h = Free" and "\<And>tx. tx \<in> set txs \<Longrightarrow> claim_of keccak tx = Some h \<Longrightarrow> h \<in> outputs_of keccak tx"
  shows "fold (\<lambda>tx L. mine_tx keccak L tx) txs L h = Free"
  using assms
proof (induction txs arbitrary: L)
  case (Cons tx txs)
  then have "mine_tx keccak L tx h = Free" by (simp add: mine_tx_def)
  with Cons show ?case by simp
qed simp

lemma mine_fold_created:
  assumes "tx \<in> set txs" and "h \<in> outputs_of keccak tx"
    and "\<And>tx. tx \<in> set txs \<Longrightarrow> claim_of keccak tx = Some h \<Longrightarrow> h \<in> outputs_of keccak tx"
  shows "fold (\<lambda>tx L. mine_tx keccak L tx) txs L h = Free"
proof -
  obtain as bs where "txs = as @ tx # bs" using split_list [OF assms(1)] by blast
  then show ?thesis using assms(2,3) by (simp add: mine_fold_Free mine_tx_def)
qed

text \<open>
  C5: When the last transfer of a block that spends a coin has been imported, \<open>validateCM\<close> refuses every
  further transfer of the coin exactly if neither that transfer nor what follows it in the block
  creates the coin anew, as one of its outputs. The import does not check this: a transfer with
  its input among its outputs, or a later purchase of the commitment, makes the coin spendable again.
\<close>

theorem validateCM_after_block:
  assumes "cmdb_ok db" and "list_all tx_fits (before @ tx # after)" and "tx_ID tx = 0"
    and "\<forall>tx' \<in> set after. tx_ID tx' = 0 \<longrightarrow> cmh keccak (tx_CmO tx') \<noteq> cmh keccak (tx_CmO tx)"
    and "tx_ID tx2 = 0" and "cmh keccak (tx_CmO tx2) = cmh keccak (tx_CmO tx)"
  shows "\<exists>db'. WriteAllCM keccak db (before @ tx # after) = Some db' \<and>
    (validateCM keccak db' tx2 = Some ErrInvalidCM \<longleftrightarrow> (\<forall>tx' \<in> set (tx # after). cmh keccak (tx_CmO tx) \<notin> outputs_of keccak tx'))"
proof -
  obtain db' where db': "WriteAllCM keccak db (before @ tx # after) = Some db'" "cmdb_ok db'"
      "coins db' = fold (\<lambda>tx L. mine_tx keccak L tx) (before @ tx # after) (coins db)"
    using WriteAllCM_coins [OF assms(2,1)] by blast
  let ?h = "cmh keccak (tx_CmO tx)" and ?new = "\<exists>tx' \<in> set (tx # after). cmh keccak (tx_CmO tx) \<in> outputs_of keccak tx'"
  have later: "?h \<in> outputs_of keccak tx'" if "tx' \<in> set after" "claim_of keccak tx' = Some ?h" for tx'
    using that assms(4) by (auto simp: claim_of_def outputs_of_def split: if_splits)
  have "coins db' ?h = (if ?new then Free else Used)"
  proof (cases "\<exists>tx' \<in> set after. ?h \<in> outputs_of keccak tx'")
    case True
    then show ?thesis unfolding db'(3) using mine_fold_created [of _ after ?h keccak] later by auto
  next
    case False
    let ?L = "mine_tx keccak (fold (\<lambda>tx L. mine_tx keccak L tx) before (coins db)) tx"
    have "?L ?h = (if ?h \<in> outputs_of keccak tx then Free else Used)" using assms(3) by (simp add: mine_tx_def claim_of_def)
    moreover have "fold (\<lambda>tx L. mine_tx keccak L tx) after ?L ?h = ?L ?h"
      using False mine_fold_Free [of ?L ?h after keccak, OF _ later] mine_fold_Used [of ?L ?h after keccak] calculation by auto
    ultimately show ?thesis unfolding db'(3) using False by simp
  qed
  then have "validateCM keccak db' tx2 = Some ErrInvalidCM \<longleftrightarrow> \<not> ?new"
    using assms(5,6) by (auto simp: validateCM_def NewDefaultCM_def coins_def split: option.splits if_splits)
  with db'(1) show ?thesis by auto
qed

theorem validateCM_after_block_witness:
  "(\<exists>db'. WriteAllCM (\<lambda>b. b) Map.empty ([ex_purchase 1] @ ex_transfer 1 2 3 # [ex_purchase 6]) = Some db' \<and>
    validateCM (\<lambda>b. b) db' (ex_transfer 1 4 5) = Some ErrInvalidCM) \<and>
   (\<exists>db'. WriteAllCM (\<lambda>b. b) Map.empty ([ex_purchase 1] @ ex_transfer 1 2 3 # [ex_purchase 1]) = Some db' \<and>
    validateCM (\<lambda>b. b) db' (ex_transfer 1 4 5) \<noteq> Some ErrInvalidCM)"
  using validateCM_after_block [of Map.empty "[ex_purchase 1]" "ex_transfer 1 2 3" "[ex_purchase 6]" "\<lambda>b. b" "ex_transfer 1 4 5"]
    validateCM_after_block [of Map.empty "[ex_purchase 1]" "ex_transfer 1 2 3" "[ex_purchase 1]" "\<lambda>b. b" "ex_transfer 1 4 5"]
  by (simp add: outputs_of_def)

text \<open>
  C26: A purchase that is dropped from the pool leaves its coin behind: after \<open>processCM\<close> and
  \<open>reorgCM\<close> of a purchase that no block contains, \<open>validateCM\<close> admits a transfer that spends the coin,
  and refuses the purchase itself when it is submitted again.
\<close>

theorem dropped_purchase_spendable:
  assumes "cmdb_ok db" and "tx_fits p" and "tx_ID p = 1" and "validateCM keccak db p = None"
    and "tx_ID t = 0" and "tx_CmO t = tx_CmV p"
    and "\<forall>h \<in> outputs_of keccak t. coins db h = Fresh \<and> h \<noteq> cmh keccak (tx_CmV p)"
  shows "\<exists>db1 db2. processCM keccak db p = Some db1 \<and> reorgCM keccak db1 p = Some db2 \<and>
    validateCM keccak db2 t = None \<and> validateCM keccak db2 p = Some ErrExistedCM"
proof -
  obtain db1 where db1: "processCM keccak db p = Some db1" "cmdb_ok db1" "coins db1 = set_claim keccak (coins db) p Locked"
    using processCM_coins [OF assms(2,1)] by blast
  obtain db2 where db2: "reorgCM keccak db1 p = Some db2" "cmdb_ok db2" "coins db2 = set_claim keccak (coins db1) p Free"
    using reorgCM_coins [OF assms(2) db1(2)] by blast
  have c: "coins db2 = (coins db)(cmh keccak (tx_CmV p) := Free)"
    using db2(3) db1(3) assms(3) by (simp add: set_claim_def claim_of_def)
  have "validateCM keccak db2 t = None"
    using assms(5-7) unfolding validateCM_admits [OF db2(2)] c by (simp add: admits_def)
  moreover have "validateCM keccak db2 p = Some ErrExistedCM"
    using assms(3) HasCM_coins [OF db2(2)] c by (simp add: validateCM_def NewDefaultCM_def)
  ultimately show ?thesis using db1(1) db2(1) by blast
qed

theorem dropped_purchase_spendable_witness:
  "\<exists>db1 db2. processCM (\<lambda>b. b) Map.empty (ex_purchase 1) = Some db1 \<and> reorgCM (\<lambda>b. b) db1 (ex_purchase 1) = Some db2 \<and>
    validateCM (\<lambda>b. b) db2 (ex_transfer 1 2 3) = None \<and> validateCM (\<lambda>b. b) db2 (ex_purchase 1) = Some ErrExistedCM"
  by (rule dropped_purchase_spendable)
    (simp_all add: outputs_of_def validateCM_def HasCM_def)

text \<open>
  C28: \<open>reorgCM\<close> on a transfer that a block has already spent frees the coin again: a second transfer
  of the same coin is then admitted. \<open>promoteExecutables\<close> makes this call for every queued
  transaction whose nonce has become too low, mined ones included.
\<close>

theorem reorgCM_revives_spent:
  assumes "cmdb_ok db" and "tx_fits t" and "tx_ID t = 0" and "tx_ID t2 = 0" and "tx_CmO t2 = tx_CmO t"
    and "cmh keccak (tx_CmO t) \<notin> outputs_of keccak t"
    and "\<forall>h \<in> outputs_of keccak t2. coins db h = Fresh \<and> h \<noteq> cmh keccak (tx_CmO t) \<and> h \<notin> outputs_of keccak t"
  shows "\<exists>db1 db2. WriteAllCM keccak db [t] = Some db1 \<and> validateCM keccak db1 t2 = Some ErrInvalidCM \<and>
    reorgCM keccak db1 t = Some db2 \<and> validateCM keccak db2 t2 = None"
proof -
  obtain db1 where db1: "WriteAllCM keccak db [t] = Some db1" "cmdb_ok db1" "coins db1 = mine_tx keccak (coins db) t"
    using WriteAllCM_coins [of "[t]", OF _ assms(1)] assms(2) by auto
  obtain db2 where db2: "reorgCM keccak db1 t = Some db2" "cmdb_ok db2" "coins db2 = set_claim keccak (coins db1) t Free"
    using reorgCM_coins [OF assms(2) db1(2)] by blast
  have "coins db1 (cmh keccak (tx_CmO t2)) = Used"
    using db1(3) assms(3,5,6) by (simp add: mine_tx_def claim_of_def)
  then have "validateCM keccak db1 t2 = Some ErrInvalidCM"
    using assms(4) by (auto simp: validateCM_def NewDefaultCM_def coins_def split: option.splits if_splits)
  moreover have "validateCM keccak db2 t2 = None"
    using assms(3-7) unfolding validateCM_admits [OF db2(2)] db2(3) db1(3)
    by (auto simp: admits_def set_claim_def claim_of_def mine_tx_def)
  ultimately show ?thesis using db1(1) db2(1) by blast
qed

theorem reorgCM_revives_spent_witness:
  "\<exists>db1 db2. WriteAllCM (\<lambda>b. b) Map.empty [ex_transfer 1 2 3] = Some db1 \<and>
    validateCM (\<lambda>b. b) db1 (ex_transfer 1 4 5) = Some ErrInvalidCM \<and>
    reorgCM (\<lambda>b. b) db1 (ex_transfer 1 2 3) = Some db2 \<and> validateCM (\<lambda>b. b) db2 (ex_transfer 1 4 5) = None"
  by (rule reorgCM_revives_spent) (simp_all add: outputs_of_def)

end
