(* ===== verification/Tx_List.thy ===== *)
theory Tx_List
  imports Cm_Db "HOL-Library.AList"
begin

text \<open>
  The transaction containers of \<open>core/tx_list.go\<close> and the lookup table and account set of
  \<open>core/tx_pool.go\<close>. A Go map is an association list in the order in which \<open>range\<close> visits it; no
  theorem depends on that order. A result list may hold nil (\<open>None\<close>), as in the code, where an index
  entry has no transaction; \<open>None\<close> as a whole result is a panic (a slice bound out of range).
\<close>

section \<open>txSortedMap\<close>

record txSortedMap =
  sm_items :: "(u64 \<times> Transaction) list"
  sm_index :: "u64 list"
  sm_cache :: "Transaction list option"

definition newTxSortedMap :: txSortedMap where
  "newTxSortedMap = \<lparr>sm_items = [], sm_index = [], sm_cache = None\<rparr>"

definition sm_Get :: "txSortedMap \<Rightarrow> u64 \<Rightarrow> Transaction option" where
  "sm_Get m nonce = map_of (sm_items m) nonce"

definition sm_Put :: "txSortedMap \<Rightarrow> Transaction \<Rightarrow> txSortedMap" where
  "sm_Put m tx =
     (let nonce = tx_Nonce tx;
          index = (if map_of (sm_items m) nonce = None then heap_Push (<) (sm_index m) nonce else sm_index m)
      in \<lparr>sm_items = AList.update nonce tx (sm_items m), sm_index = index, sm_cache = None\<rparr>)"

lemma length_heap_Pop: "heap_Pop lt xs = Some (x, ys) \<Longrightarrow> length xs = Suc (length ys)"
proof -
  have "length (fst (down lt zs i n)) = length zs" for zs i n
  proof (induction lt zs i n rule: down_loop.induct)
    case (1 lt xs i n)
    then show ?case by (subst down_def, subst down_loop.simps) (auto simp: Let_def down_def split: prod.splits)
  qed
  then show "heap_Pop lt xs = Some (x, ys) \<Longrightarrow> length xs = Suc (length ys)"
    by (cases xs) (auto simp: heap_Pop_def Let_def)
qed

function Forward_loop ::
  "u64 \<Rightarrow> Transaction option list \<Rightarrow> (u64 \<times> Transaction) list \<Rightarrow> u64 list \<Rightarrow>
    Transaction option list \<times> (u64 \<times> Transaction) list \<times> u64 list" where
  "Forward_loop threshold removed items index =
     (if index \<noteq> [] \<and> index ! 0 < threshold then
        (case heap_Pop (<) index of
           None \<Rightarrow> (removed, items, index)
         | Some (nonce, index') \<Rightarrow>
             Forward_loop threshold (removed @ [map_of items nonce]) (AList.delete nonce items) index')
      else (removed, items, index))"
  by auto
termination
  by (relation "measure (\<lambda>(t, r, i, index). length index)") (auto dest: length_heap_Pop)

declare Forward_loop.simps [simp del]

definition sm_Forward :: "txSortedMap \<Rightarrow> u64 \<Rightarrow> (Transaction option list \<times> txSortedMap) option" where
  "sm_Forward m threshold =
     (let (removed, items, index) = Forward_loop threshold [] (sm_items m) (sm_index m) in
      case sm_cache m of
        None \<Rightarrow> Some (removed, \<lparr>sm_items = items, sm_index = index, sm_cache = None\<rparr>)
      | Some c \<Rightarrow>
          if length c < length removed then None
          else Some (removed, \<lparr>sm_items = items, sm_index = index, sm_cache = Some (drop (length removed) c)\<rparr>))"

definition sm_Filter :: "txSortedMap \<Rightarrow> (Transaction \<Rightarrow> bool) \<Rightarrow> Transaction list \<times> txSortedMap" where
  "sm_Filter m f =
     (let removed = map snd (filter (f \<circ> snd) (sm_items m));
          items = filter (Not \<circ> f \<circ> snd) (sm_items m)
      in if removed \<noteq> [] then
           (removed, \<lparr>sm_items = items, sm_index = heap_Init (<) (map fst items), sm_cache = None\<rparr>)
         else (removed, m))"

fun Cap_loop ::
  "nat \<Rightarrow> nat \<Rightarrow> u64 list \<Rightarrow> Transaction option list \<Rightarrow> (u64 \<times> Transaction) list \<Rightarrow>
    (Transaction option list \<times> (u64 \<times> Transaction) list) option" where
  "Cap_loop 0 threshold index drops items = Some (drops, items)"
| "Cap_loop (Suc k) threshold index drops items =
     (if Suc k \<le> threshold then Some (drops, items)
      else if length index \<le> k then None
      else Cap_loop k threshold index (drops @ [map_of items (index ! k)]) (AList.delete (index ! k) items))"

definition sm_Cap :: "txSortedMap \<Rightarrow> int \<Rightarrow> (Transaction option list \<times> txSortedMap) option" where
  "sm_Cap m threshold =
     (if int (length (sm_items m)) \<le> threshold then Some ([], m)
      else if threshold < 0 then None
      else do {
        let index = sort (sm_index m);
        (drops, items) \<leftarrow> Cap_loop (length (sm_items m)) (nat threshold) index [] (sm_items m);
        let index' = heap_Init (<) (take (nat threshold) index);
        (case sm_cache m of
           None \<Rightarrow> Some (drops, \<lparr>sm_items = items, sm_index = index', sm_cache = None\<rparr>)
         | Some c \<Rightarrow>
             if length c < length drops then None
             else Some (drops, \<lparr>sm_items = items, sm_index = index', sm_cache = Some (take (length c - length drops) c)\<rparr>)) })"

fun find_index :: "u64 \<Rightarrow> u64 list \<Rightarrow> nat \<Rightarrow> nat option" where
  "find_index nonce [] i = None"
| "find_index nonce (x # xs) i = (if x = nonce then Some i else find_index nonce xs (Suc i))"

definition sm_Remove :: "txSortedMap \<Rightarrow> u64 \<Rightarrow> bool \<times> txSortedMap" where
  "sm_Remove m nonce =
     (if map_of (sm_items m) nonce = None then (False, m)
      else
        let index = (case find_index nonce (sm_index m) 0 of
            None \<Rightarrow> sm_index m
          | Some i \<Rightarrow> (case heap_Remove (<) (sm_index m) i of None \<Rightarrow> sm_index m | Some (_, index') \<Rightarrow> index'))
        in (True, \<lparr>sm_items = AList.delete nonce (sm_items m), sm_index = index, sm_cache = None\<rparr>))"

function Ready_loop ::
  "u64 \<Rightarrow> Transaction option list \<Rightarrow> (u64 \<times> Transaction) list \<Rightarrow> u64 list \<Rightarrow>
    Transaction option list \<times> (u64 \<times> Transaction) list \<times> u64 list" where
  "Ready_loop next ready items index =
     (if index \<noteq> [] \<and> index ! 0 = next then
        (case heap_Pop (<) index of
           None \<Rightarrow> (ready, items, index)
         | Some (_, index') \<Rightarrow>
             Ready_loop (next + 1) (ready @ [map_of items next]) (AList.delete next items) index')
      else (ready, items, index))"
  by auto
termination
  by (relation "measure (\<lambda>(t, r, i, index). length index)") (auto dest: length_heap_Pop)

declare Ready_loop.simps [simp del]

definition sm_Ready :: "txSortedMap \<Rightarrow> u64 \<Rightarrow> Transaction option list \<times> txSortedMap" where
  "sm_Ready m start =
     (if sm_index m = [] \<or> start < sm_index m ! 0 then ([], m)
      else
        let (ready, items, index) = Ready_loop (sm_index m ! 0) [] (sm_items m) (sm_index m)
        in (ready, \<lparr>sm_items = items, sm_index = index, sm_cache = None\<rparr>))"

definition sm_Len :: "txSortedMap \<Rightarrow> nat" where
  "sm_Len m = length (sm_items m)"

definition sm_Flatten :: "txSortedMap \<Rightarrow> Transaction list \<times> txSortedMap" where
  "sm_Flatten m =
     (case sm_cache m of
        Some c \<Rightarrow> (c, m)
      | None \<Rightarrow>
          let c = sort_key tx_Nonce (map snd (sm_items m)) in (c, m\<lparr>sm_cache := Some c\<rparr>))"

section \<open>txList\<close>

record txList =
  tl_strict :: bool
  tl_txs :: txSortedMap
  tl_costcap :: int
  tl_gascap :: u64

definition newTxList :: "bool \<Rightarrow> txList" where
  "newTxList strict = \<lparr>tl_strict = strict, tl_txs = newTxSortedMap, tl_costcap = 0, tl_gascap = 0\<rparr>"

definition tl_Overlaps :: "txList \<Rightarrow> Transaction \<Rightarrow> bool" where
  "tl_Overlaps l tx \<longleftrightarrow> sm_Get (tl_txs l) (tx_Nonce tx) \<noteq> None"

text \<open>The price a replacement must reach; the factor is a signed 64-bit sum.\<close>

definition bump_threshold :: "int \<Rightarrow> u64 \<Rightarrow> int" where
  "bump_threshold price priceBump = price * sint (100 + priceBump) div 100"

definition tl_Add :: "txList \<Rightarrow> Transaction \<Rightarrow> u64 \<Rightarrow> bool \<times> Transaction option \<times> txList" where
  "tl_Add l tx priceBump =
     (let old = sm_Get (tl_txs l) (tx_Nonce tx) in
      if (case old of None \<Rightarrow> False
          | Some o' \<Rightarrow> tx_GasPrice tx \<le> tx_GasPrice o' \<or> tx_GasPrice tx < bump_threshold (tx_GasPrice o') priceBump)
      then (False, None, l)
      else (True, old, l\<lparr>tl_txs := sm_Put (tl_txs l) tx, tl_costcap := max (tl_costcap l) (tx_Cost tx),
        tl_gascap := max (tl_gascap l) (tx_Gas tx)\<rparr>))"

definition tl_Forward :: "txList \<Rightarrow> u64 \<Rightarrow> (Transaction option list \<times> txList) option" where
  "tl_Forward l threshold = map_option (\<lambda>(r, m). (r, l\<lparr>tl_txs := m\<rparr>)) (sm_Forward (tl_txs l) threshold)"

definition tl_Filter :: "txList \<Rightarrow> int \<Rightarrow> u64 \<Rightarrow> Transaction list \<times> Transaction list \<times> txList" where
  "tl_Filter l costLimit gasLimit =
     (if tl_costcap l \<le> costLimit \<and> tl_gascap l \<le> gasLimit then ([], [], l)
      else
        let (removed, m) = sm_Filter (tl_txs l) (\<lambda>tx. costLimit < tx_Cost tx \<or> gasLimit < tx_Gas tx);
            (invalids, m') =
              (if tl_strict l \<and> removed \<noteq> [] then
                 let lowest = fold (\<lambda>tx low. if tx_Nonce tx < low then tx_Nonce tx else low) removed (- 1)
                 in sm_Filter m (\<lambda>tx. lowest < tx_Nonce tx)
               else ([], m))
        in (removed, invalids, l\<lparr>tl_txs := m', tl_costcap := costLimit, tl_gascap := gasLimit\<rparr>))"

definition tl_Cap :: "txList \<Rightarrow> int \<Rightarrow> (Transaction option list \<times> txList) option" where
  "tl_Cap l threshold = map_option (\<lambda>(r, m). (r, l\<lparr>tl_txs := m\<rparr>)) (sm_Cap (tl_txs l) threshold)"

definition tl_Remove :: "txList \<Rightarrow> Transaction \<Rightarrow> bool \<times> Transaction list \<times> txList" where
  "tl_Remove l tx =
     (let nonce = tx_Nonce tx; (removed, m) = sm_Remove (tl_txs l) nonce in
      if \<not> removed then (False, [], l)
      else if tl_strict l then
        (let (invalids, m') = sm_Filter m (\<lambda>tx. nonce < tx_Nonce tx) in (True, invalids, l\<lparr>tl_txs := m'\<rparr>))
      else (True, [], l\<lparr>tl_txs := m\<rparr>))"

definition tl_Ready :: "txList \<Rightarrow> u64 \<Rightarrow> Transaction option list \<times> txList" where
  "tl_Ready l start = (let (r, m) = sm_Ready (tl_txs l) start in (r, l\<lparr>tl_txs := m\<rparr>))"

definition tl_Len :: "txList \<Rightarrow> nat" where
  "tl_Len l = sm_Len (tl_txs l)"

definition tl_Empty :: "txList \<Rightarrow> bool" where
  "tl_Empty l \<longleftrightarrow> tl_Len l = 0"

definition tl_Flatten :: "txList \<Rightarrow> Transaction list \<times> txList" where
  "tl_Flatten l = (let (r, m) = sm_Flatten (tl_txs l) in (r, l\<lparr>tl_txs := m\<rparr>))"

section \<open>The sorted view\<close>

abbreviation nonce_lt :: "Transaction \<Rightarrow> Transaction \<Rightarrow> bool" where
  "nonce_lt a b \<equiv> tx_Nonce a < tx_Nonce b"

definition sorted_items :: "(u64 \<times> Transaction) list \<Rightarrow> Transaction list" where
  "sorted_items items = sort_key tx_Nonce (map snd items)"

definition sorted_txs :: "txSortedMap \<Rightarrow> Transaction list" where
  "sorted_txs m = sorted_items (sm_items m)"

definition items_ok :: "(u64 \<times> Transaction) list \<Rightarrow> bool" where
  "items_ok items \<longleftrightarrow> distinct (map fst items) \<and> (\<forall>(n, tx) \<in> set items. tx_Nonce tx = n)"

definition index_ok :: "(u64 \<times> Transaction) list \<Rightarrow> u64 list \<Rightarrow> bool" where
  "index_ok items index \<longleftrightarrow> items_ok items \<and> is_heap (<) index \<and> mset index = mset (map fst items)"

definition sm_ok :: "txSortedMap \<Rightarrow> bool" where
  "sm_ok m \<longleftrightarrow> index_ok (sm_items m) (sm_index m) \<and> (\<forall>c. sm_cache m = Some c \<longrightarrow> c = sorted_txs m)"

lemma items_nonces: "items_ok items \<Longrightarrow> map tx_Nonce (map snd items) = map fst items"
  by (auto simp: items_ok_def)

lemma sorted_wrt_nonce_unique:
  "sorted_wrt nonce_lt xs \<Longrightarrow> sorted_wrt nonce_lt ys \<Longrightarrow> set xs = set ys \<Longrightarrow> xs = ys"
proof (induction xs arbitrary: ys)
  case (Cons x xs)
  then obtain y ys' where ys: "ys = y # ys'" by (cases ys) auto
  have "x = y"
  proof (rule ccontr)
    assume "x \<noteq> y"
    then have "x \<in> set ys'" "y \<in> set xs" using Cons.prems(3) ys by auto
    then have "nonce_lt y x" "nonce_lt x y" using Cons.prems(1,2) ys by auto
    then show False by simp
  qed
  moreover have "x \<notin> set xs" "y \<notin> set ys'" using Cons.prems(1,2) ys by auto
  ultimately have "set xs = set ys'" using Cons.prems(3) ys by auto
  with Cons.IH [of ys'] Cons.prems(1,2) ys \<open>x = y\<close> show ?case by simp
qed simp

lemma set_sorted_items [simp]: "set (sorted_items items) = snd ` set items"
  by (simp add: sorted_items_def)

lemma length_sorted_items [simp]: "length (sorted_items items) = length items"
  by (simp add: sorted_items_def)

lemma sorted_wrt_sorted_items: "items_ok items \<Longrightarrow> sorted_wrt nonce_lt (sorted_items items)"
proof -
  assume ok: "items_ok items"
  have "mset (map tx_Nonce (sorted_items items)) = mset (map tx_Nonce (map snd items))"
    by (simp only: sorted_items_def mset_map mset_sort)
  then have "mset (map tx_Nonce (sorted_items items)) = mset (map fst items)"
    by (simp only: items_nonces [OF ok])
  then have "distinct (map tx_Nonce (sorted_items items))"
    using ok mset_eq_imp_distinct_iff unfolding items_ok_def by blast
  moreover have "sorted (map tx_Nonce (sorted_items items))" by (simp add: sorted_items_def)
  ultimately have "sorted_wrt (<) (map tx_Nonce (sorted_items items))"
    by (simp add: strict_sorted_iff)
  then show ?thesis by (simp add: sorted_wrt_map)
qed

lemma sorted_items_eqI:
  "items_ok items \<Longrightarrow> sorted_wrt nonce_lt xs \<Longrightarrow> set xs = snd ` set items \<Longrightarrow> sorted_items items = xs"
  using sorted_wrt_nonce_unique sorted_wrt_sorted_items by auto

lemma items_ok_delete [simp]: "items_ok items \<Longrightarrow> items_ok (AList.delete n items)"
  by (auto simp: items_ok_def AList.delete_eq distinct_map_filter)

lemma items_ok_filter: "items_ok items \<Longrightarrow> items_ok (filter P items)"
  by (auto simp: items_ok_def distinct_map_filter)

lemma items_ok_update: "items_ok items \<Longrightarrow> tx_Nonce tx = n \<Longrightarrow> items_ok (AList.update n tx items)"
proof -
  assume ok: "items_ok items" and n: "tx_Nonce tx = n"
  have "distinct (map fst (AList.update n tx items))" using ok by (simp add: items_ok_def AList.distinct_update)
  moreover have "(a, t) \<in> set (AList.update n tx items) \<Longrightarrow> (a, t) = (n, tx) \<or> (a, t) \<in> set items" for a t
    by (induction items) (auto split: if_splits)
  ultimately show ?thesis using ok n by (fastforce simp: items_ok_def)
qed

lemma snd_set_delete: "items_ok items \<Longrightarrow> snd ` set (AList.delete n items) = {tx \<in> snd ` set items. tx_Nonce tx \<noteq> n}"
  by (fastforce simp: items_ok_def AList.delete_eq)

lemma map_of_items: "items_ok items \<Longrightarrow> map_of items n = Some tx \<longleftrightarrow> tx \<in> snd ` set items \<and> tx_Nonce tx = n"
  by (force simp: items_ok_def)

lemma map_of_items_None: "items_ok items \<Longrightarrow> map_of items n = None \<longleftrightarrow> (\<forall>tx \<in> snd ` set items. tx_Nonce tx \<noteq> n)"
  using map_of_items [of items n] by (cases "map_of items n") auto

lemma sorted_items_delete:
  "items_ok items \<Longrightarrow> sorted_items (AList.delete n items) = filter (\<lambda>tx. tx_Nonce tx \<noteq> n) (sorted_items items)"
  by (rule sorted_items_eqI) (auto simp: snd_set_delete sorted_wrt_sorted_items sorted_wrt_filter)

lemma sorted_items_filter:
  "items_ok items \<Longrightarrow> sorted_items (filter (P \<circ> snd) items) = filter P (sorted_items items)"
  by (rule sorted_items_eqI) (auto simp: items_ok_filter sorted_wrt_sorted_items sorted_wrt_filter)

lemma keys_delete: "fst ` set (AList.delete n items) = fst ` set items - {n}"
  by (force simp: AList.delete_eq)

lemma index_ok_delete:
  assumes "index_ok items index" and "is_heap (<) index'" and "add_mset n (mset index') = mset index"
  shows "index_ok (AList.delete n items) index'"
proof -
  have ok: "items_ok items" and m: "mset index = mset (map fst items)" using assms(1) by (auto simp: index_ok_def)
  have d: "distinct (map fst items)" using ok by (simp add: items_ok_def)
  then have di: "distinct index" using m mset_eq_imp_distinct_iff by blast
  have dn: "distinct (n # index')" using di assms(3) mset_eq_imp_distinct_iff [of "n # index'" index] by simp
  then have "n \<notin> set index'" by simp
  moreover have "set (n # index') = set (map fst items)"
    using assms(3) m by (intro mset_eq_setD) simp
  ultimately have "set index' = set (map fst (AList.delete n items))" using keys_delete [of n items] by auto
  moreover have "distinct index'" using dn by simp
  moreover have "distinct (map fst (AList.delete n items))" using items_ok_delete [OF ok] by (simp add: items_ok_def)
  ultimately have "mset index' = mset (map fst (AList.delete n items))"
    using set_eq_iff_mset_eq_distinct [of index' "map fst (AList.delete n items)"] by blast
  with assms(2) ok show ?thesis by (simp add: index_ok_def)
qed

text \<open>The root of the index is the nonce of the first transaction.\<close>

lemma index_min:
  assumes "index_ok items index" and "index \<noteq> []"
  obtains tx rest index' where "sorted_items items = tx # rest" and "tx_Nonce tx = index ! 0"
    and "heap_Pop (<) index = Some (index ! 0, index')" and "index_ok (AList.delete (index ! 0) items) index'"
    and "sorted_items (AList.delete (index ! 0) items) = rest" and "map_of items (index ! 0) = Some tx"
proof -
  have ok: "items_ok items" and h: "is_heap (<) index" and m: "mset index = mset (map fst items)"
    using assms(1) by (auto simp: index_ok_def)
  obtain index' where p: "heap_Pop (<) index = Some (hd index, index')" "is_heap (<) index'"
      "add_mset (hd index) (mset index') = mset index" "\<And>x. x \<in> set index \<Longrightarrow> \<not> x < hd index"
    by (rule nonce.heap_Pop_spec [OF h assms(2)]) blast
  have hd: "hd index = index ! 0" using assms(2) by (simp add: hd_conv_nth)
  have set: "set index = fst ` set items" using mset_eq_setD [OF m] by simp
  then have "fst ` set items \<noteq> {}" using assms(2) by auto
  then have "sorted_items items \<noteq> []" using set_sorted_items [of items] by force
  then obtain tx rest where s: "sorted_items items = tx # rest" by (cases "sorted_items items") auto
  have srt: "sorted_wrt nonce_lt (tx # rest)" using sorted_wrt_sorted_items [OF ok] s by simp
  have non: "tx_Nonce ` snd ` set items = fst ` set items" using ok by (force simp: items_ok_def)
  have tx: "tx \<in> snd ` set items" using s by (metis list.set_intros(1) set_sorted_items)
  have "tx_Nonce tx \<in> set index" using tx set non by blast
  moreover have "hd index \<in> tx_Nonce ` set (tx # rest)"
    using set non assms(2) s by (metis hd_in_set set_sorted_items)
  moreover from this have "tx_Nonce tx \<le> hd index" using srt by auto
  ultimately have n: "tx_Nonce tx = hd index" using p(4) by fastforce
  have "filter (\<lambda>t. tx_Nonce t \<noteq> hd index) (tx # rest) = rest"
    using srt n by (auto simp: filter_id_conv)
  then have r: "sorted_items (AList.delete (hd index) items) = rest" using sorted_items_delete [OF ok] s by simp
  have "map_of items (hd index) = Some tx" using map_of_items [OF ok] tx n by simp
  with s n p r index_ok_delete [OF assms(1) p(2,3)] that hd show thesis by simp
qed

section \<open>The operations on the sorted view\<close>

lemma Forward_loop_spec:
  "index_ok items index \<Longrightarrow>
    \<exists>items' index'. Forward_loop t r items index =
      (r @ map Some (takeWhile (\<lambda>tx. tx_Nonce tx < t) (sorted_items items)), items', index') \<and>
      index_ok items' index' \<and> sorted_items items' = dropWhile (\<lambda>tx. tx_Nonce tx < t) (sorted_items items)"
proof (induction "length index" arbitrary: r items index)
  case 0
  then have "index = []" "items = []" by (auto simp: index_ok_def)
  then show ?case using 0(2) by (subst Forward_loop.simps) (simp add: sorted_items_def)
next
  case (Suc k)
  then have "index \<noteq> []" by auto
  then obtain tx rest index' where m: "sorted_items items = tx # rest" "tx_Nonce tx = index ! 0"
      "heap_Pop (<) index = Some (index ! 0, index')" "index_ok (AList.delete (index ! 0) items) index'"
      "sorted_items (AList.delete (index ! 0) items) = rest" "map_of items (index ! 0) = Some tx"
    using index_min [OF Suc.prems] by metis
  show ?case
  proof (cases "index ! 0 < t")
    case True
    have "k = length index'" using length_heap_Pop [OF m(3)] Suc.hyps(2) by simp
    from Suc.hyps(1) [OF this m(4), of "r @ [Some tx]"] True m \<open>index \<noteq> []\<close> show ?thesis
      by (subst Forward_loop.simps) simp
  next
    case False
    with m Suc.prems show ?thesis by (subst Forward_loop.simps) simp
  qed
qed

lemma sm_Forward_spec:
  assumes "sm_ok m"
  shows "\<exists>m'. sm_Forward m t = Some (map Some (takeWhile (\<lambda>tx. tx_Nonce tx < t) (sorted_txs m)), m') \<and>
    sm_ok m' \<and> sorted_txs m' = dropWhile (\<lambda>tx. tx_Nonce tx < t) (sorted_txs m)"
proof -
  obtain items' index' where f: "Forward_loop t [] (sm_items m) (sm_index m) =
      (map Some (takeWhile (\<lambda>tx. tx_Nonce tx < t) (sorted_txs m)), items', index')"
      "index_ok items' index'" "sorted_items items' = dropWhile (\<lambda>tx. tx_Nonce tx < t) (sorted_txs m)"
    using Forward_loop_spec [of "sm_items m" "sm_index m" t "[]"] assms by (auto simp: sm_ok_def sorted_txs_def)
  show ?thesis
  proof (cases "sm_cache m")
    case None
    with f show ?thesis by (simp add: sm_Forward_def sm_ok_def sorted_txs_def)
  next
    case (Some c)
    then have c: "c = sorted_txs m" using assms by (simp add: sm_ok_def)
    have "length (takeWhile (\<lambda>tx. tx_Nonce tx < t) c) \<le> length c" by (rule length_takeWhile_le)
    then show ?thesis using Some f c by (simp add: sm_Forward_def sm_ok_def sorted_txs_def dropWhile_eq_drop)
  qed
qed

lemma sm_Filter_spec:
  assumes "sm_ok m"
  shows "sm_ok (snd (sm_Filter m f)) \<and> sorted_txs (snd (sm_Filter m f)) = filter (Not \<circ> f) (sorted_txs m) \<and>
    mset (fst (sm_Filter m f)) = mset (filter f (sorted_txs m))"
proof -
  have ok: "items_ok (sm_items m)" using assms by (simp add: sm_ok_def index_ok_def)
  have s: "sorted_items (filter ((Not \<circ> f) \<circ> snd) (sm_items m)) = filter (Not \<circ> f) (sorted_txs m)"
    unfolding sorted_txs_def by (rule sorted_items_filter [OF ok])
  have "mset (filter f (sorted_txs m)) = mset (filter f (map snd (sm_items m)))"
    by (simp only: sorted_txs_def sorted_items_def mset_filter mset_sort)
  then have mm: "mset (map snd (filter (f \<circ> snd) (sm_items m))) = mset (filter f (sorted_txs m))"
    by (simp only: filter_map)
  show ?thesis
  proof (cases "map snd (filter (f \<circ> snd) (sm_items m)) = []")
    case True
    then have "filter f (sorted_txs m) = []" using mm by simp
    then have "filter (Not \<circ> f) (sorted_txs m) = sorted_txs m" by (auto simp: filter_empty_conv filter_id_conv)
    with True mm assms show ?thesis by (simp add: sm_Filter_def)
  next
    case False
    have "index_ok (filter ((Not \<circ> f) \<circ> snd) (sm_items m)) (heap_Init (<) (map fst (filter ((Not \<circ> f) \<circ> snd) (sm_items m))))"
      using ok items_ok_filter nonce.heap_Init_heap nonce.heap_Init_mset by (simp add: index_ok_def)
    with False s mm show ?thesis
      by (simp add: sm_Filter_def sm_ok_def sorted_txs_def comp_assoc Let_def)
  qed
qed

lemma insort_sorted_wrt:
  "sorted_wrt nonce_lt xs \<Longrightarrow> \<forall>t \<in> set xs. tx_Nonce t \<noteq> tx_Nonce tx \<Longrightarrow>
    sorted_wrt nonce_lt (insort_key tx_Nonce tx xs)"
  by (induction xs) (auto simp: set_insort_key not_le_imp_less order_le_less)

lemma snd_set_update:
  "items_ok items \<Longrightarrow> tx_Nonce tx = n \<Longrightarrow>
    snd ` set (AList.update n tx items) = insert tx {t \<in> snd ` set items. tx_Nonce t \<noteq> n}"
proof -
  assume ok: "items_ok items" and n: "tx_Nonce tx = n"
  show ?thesis
  proof (rule set_eqI)
    fix t
    have "t \<in> snd ` set (AList.update n tx items) \<longleftrightarrow> (\<exists>k. map_of (AList.update n tx items) k = Some t)"
      using map_of_items [OF items_ok_update [OF ok n]] by blast
    also have "\<dots> \<longleftrightarrow> t = tx \<or> (\<exists>k. k \<noteq> n \<and> map_of items k = Some t)" by (auto simp: AList.update_conv)
    also have "\<dots> \<longleftrightarrow> t \<in> insert tx {t \<in> snd ` set items. tx_Nonce t \<noteq> n}"
      by (auto simp only: map_of_items [OF ok] insert_iff mem_Collect_eq)
    finally show "t \<in> snd ` set (AList.update n tx items) \<longleftrightarrow> t \<in> insert tx {t \<in> snd ` set items. tx_Nonce t \<noteq> n}" .
  qed
qed

lemma sm_Put_spec:
  assumes "sm_ok m"
  shows "sm_ok (sm_Put m tx)"
    and "sorted_txs (sm_Put m tx) =
      insort_key tx_Nonce tx (filter (\<lambda>t. tx_Nonce t \<noteq> tx_Nonce tx) (sorted_txs m))"
proof -
  let ?n = "tx_Nonce tx"
  have ok: "items_ok (sm_items m)" and ix: "index_ok (sm_items m) (sm_index m)"
    using assms by (auto simp: sm_ok_def index_ok_def)
  have ok': "items_ok (AList.update ?n tx (sm_items m))" by (rule items_ok_update [OF ok refl])
  have k: "map fst (AList.update ?n tx (sm_items m)) =
      (if map_of (sm_items m) ?n = None then map fst (sm_items m) @ [?n] else map fst (sm_items m))"
    by (simp add: AList.update_keys map_of_eq_None_iff)
  have "index_ok (AList.update ?n tx (sm_items m)) (sm_index (sm_Put m tx))"
    using ix ok' k nonce.heap_Push_heap nonce.heap_Push_mset by (auto simp: index_ok_def sm_Put_def Let_def)
  then show "sm_ok (sm_Put m tx)" by (simp add: sm_ok_def sm_Put_def Let_def)
  show "sorted_txs (sm_Put m tx) = insort_key tx_Nonce tx (filter (\<lambda>t. tx_Nonce t \<noteq> ?n) (sorted_txs m))"
    unfolding sorted_txs_def sm_Put_def Let_def
    by (simp, rule sorted_items_eqI [OF ok'])
      (auto simp: set_insort_key snd_set_update [OF ok refl] intro!: insort_sorted_wrt sorted_wrt_filter sorted_wrt_sorted_items ok)
qed

lemma find_index_spec:
  "nonce \<in> set xs \<Longrightarrow> \<exists>j < length xs. find_index nonce xs i = Some (i + j) \<and> xs ! j = nonce"
proof (induction xs arbitrary: i)
  case (Cons x xs)
  show ?case
  proof (cases "x = nonce")
    case False
    then obtain j where "j < length xs" "find_index nonce xs (Suc i) = Some (Suc i + j)" "xs ! j = nonce"
      using Cons.IH [of "Suc i"] Cons.prems by auto
    with False show ?thesis by (intro exI [of _ "Suc j"]) simp
  qed auto
qed simp

lemma sm_Remove_spec:
  assumes "sm_ok m"
  shows "sm_ok (snd (sm_Remove m n))"
    and "sorted_txs (snd (sm_Remove m n)) = filter (\<lambda>t. tx_Nonce t \<noteq> n) (sorted_txs m)"
    and "fst (sm_Remove m n) \<longleftrightarrow> (\<exists>t \<in> set (sorted_txs m). tx_Nonce t = n)"
proof -
  have ix: "index_ok (sm_items m) (sm_index m)" and ok: "items_ok (sm_items m)"
    using assms by (auto simp: sm_ok_def index_ok_def)
  have none: "map_of (sm_items m) n = None \<longleftrightarrow> (\<forall>t \<in> set (sorted_txs m). tx_Nonce t \<noteq> n)"
    using map_of_items_None [OF ok] by (simp add: sorted_txs_def)
  show "fst (sm_Remove m n) \<longleftrightarrow> (\<exists>t \<in> set (sorted_txs m). tx_Nonce t = n)"
    using none by (simp add: sm_Remove_def)
  have "sm_ok (snd (sm_Remove m n)) \<and> sorted_txs (snd (sm_Remove m n)) = filter (\<lambda>t. tx_Nonce t \<noteq> n) (sorted_txs m)"
  proof (cases "map_of (sm_items m) n = None")
    case True
    then have "filter (\<lambda>t. tx_Nonce t \<noteq> n) (sorted_txs m) = sorted_txs m" using none by (simp add: filter_id_conv)
    with True assms show ?thesis by (simp add: sm_Remove_def)
  next
    case False
    have "set (sm_index m) = fst ` set (sm_items m)"
      using ix mset_eq_setD [of "sm_index m" "map fst (sm_items m)"] by (simp add: index_ok_def)
    then have "n \<in> set (sm_index m)" using False by (simp add: map_of_eq_None_iff)
    then obtain j where j: "j < length (sm_index m)" "find_index n (sm_index m) 0 = Some j" "sm_index m ! j = n"
      using find_index_spec [of n "sm_index m" 0] by auto
    obtain index' where r: "heap_Remove (<) (sm_index m) j = Some (n, index')" "is_heap (<) index'"
        "add_mset n (mset index') = mset (sm_index m)"
      using nonce.heap_Remove_spec [OF _ j(1)] ix j(3) by (auto simp: index_ok_def)
    have "sm_Remove m n = (True, \<lparr>sm_items = AList.delete n (sm_items m), sm_index = index', sm_cache = None\<rparr>)"
      using False j(2) r(1) by (simp add: sm_Remove_def)
    with index_ok_delete [OF ix r(2,3)] sorted_items_delete [OF ok] show ?thesis
      by (simp add: sm_ok_def sorted_txs_def)
  qed
  then show "sm_ok (snd (sm_Remove m n))"
    "sorted_txs (snd (sm_Remove m n)) = filter (\<lambda>t. tx_Nonce t \<noteq> n) (sorted_txs m)" by auto
qed

text \<open>The longest run of consecutive nonces from \<open>n\<close>.\<close>

fun run :: "u64 \<Rightarrow> Transaction list \<Rightarrow> Transaction list" where
  "run n [] = []"
| "run n (tx # txs) = (if tx_Nonce tx = n then tx # run (n + 1) txs else [])"

lemma Ready_loop_spec:
  "index_ok items index \<Longrightarrow>
    \<exists>items' index'. Ready_loop n r items index = (r @ map Some (run n (sorted_items items)), items', index') \<and>
      index_ok items' index' \<and> sorted_items items' = drop (length (run n (sorted_items items))) (sorted_items items)"
proof (induction "length index" arbitrary: n r items index)
  case 0
  then have "index = []" "items = []" by (auto simp: index_ok_def)
  then show ?case using 0(2) by (subst Ready_loop.simps) (simp add: sorted_items_def)
next
  case (Suc k)
  then have "index \<noteq> []" by auto
  then obtain tx rest index' where m: "sorted_items items = tx # rest" "tx_Nonce tx = index ! 0"
      "heap_Pop (<) index = Some (index ! 0, index')" "index_ok (AList.delete (index ! 0) items) index'"
      "sorted_items (AList.delete (index ! 0) items) = rest" "map_of items (index ! 0) = Some tx"
    using index_min [OF Suc.prems] by metis
  show ?case
  proof (cases "index ! 0 = n")
    case True
    have "k = length index'" using length_heap_Pop [OF m(3)] Suc.hyps(2) by simp
    from Suc.hyps(1) [OF this m(4), of "n + 1" "r @ [Some tx]"] True m \<open>index \<noteq> []\<close> show ?thesis
      by (subst Ready_loop.simps) auto
  next
    case False
    with m Suc.prems show ?thesis by (subst Ready_loop.simps) simp
  qed
qed

definition ready_of :: "u64 \<Rightarrow> Transaction list \<Rightarrow> Transaction list" where
  "ready_of start txs =
     (case txs of [] \<Rightarrow> [] | tx # _ \<Rightarrow> if start < tx_Nonce tx then [] else run (tx_Nonce tx) txs)"

lemma sm_Ready_spec:
  assumes "sm_ok m"
  shows "fst (sm_Ready m start) = map Some (ready_of start (sorted_txs m))" and "sm_ok (snd (sm_Ready m start))"
    and "sorted_txs (snd (sm_Ready m start)) = drop (length (ready_of start (sorted_txs m))) (sorted_txs m)"
proof -
  have ix: "index_ok (sm_items m) (sm_index m)" using assms by (simp add: sm_ok_def)
  have "fst (sm_Ready m start) = map Some (ready_of start (sorted_txs m)) \<and> sm_ok (snd (sm_Ready m start)) \<and>
    sorted_txs (snd (sm_Ready m start)) = drop (length (ready_of start (sorted_txs m))) (sorted_txs m)"
  proof (cases "sm_index m = []")
    case True
    then have "sm_items m = []" using ix by (auto simp: index_ok_def)
    then show ?thesis using True assms by (simp add: sm_Ready_def ready_of_def sorted_txs_def sorted_items_def)
  next
    case False
    obtain tx rest where t: "sorted_txs m = tx # rest" "tx_Nonce tx = sm_index m ! 0"
      using index_min [OF ix False] by (metis sorted_txs_def)
    show ?thesis
    proof (cases "start < sm_index m ! 0")
      case True
      with t assms show ?thesis by (simp add: sm_Ready_def ready_of_def)
    next
      case nl: False
      obtain items' index' where r: "Ready_loop (sm_index m ! 0) [] (sm_items m) (sm_index m) =
          (map Some (run (sm_index m ! 0) (sorted_txs m)), items', index')" "index_ok items' index'"
          "sorted_items items' = drop (length (run (sm_index m ! 0) (sorted_txs m))) (sorted_txs m)"
        using Ready_loop_spec [OF ix, of "sm_index m ! 0" "[]"] by (auto simp: sorted_txs_def)
      with False nl t show ?thesis by (simp add: sm_Ready_def ready_of_def sm_ok_def sorted_txs_def)
    qed
  qed
  then show "fst (sm_Ready m start) = map Some (ready_of start (sorted_txs m))" "sm_ok (snd (sm_Ready m start))"
    "sorted_txs (snd (sm_Ready m start)) = drop (length (ready_of start (sorted_txs m))) (sorted_txs m)" by auto
qed

lemma sm_Flatten_spec:
  assumes "sm_ok m"
  shows "fst (sm_Flatten m) = sorted_txs m" and "sm_ok (snd (sm_Flatten m))" and "sorted_txs (snd (sm_Flatten m)) = sorted_txs m"
  using assms by (auto simp: sm_Flatten_def sm_ok_def sorted_txs_def sorted_items_def Let_def split: option.split)

lemma sort_index:
  assumes "index_ok items index"
  shows "sort index = map tx_Nonce (sorted_items items)"
proof (rule properties_for_sort)
  have ok: "items_ok items" and m: "mset index = mset (map fst items)" using assms by (auto simp: index_ok_def)
  have "mset (map tx_Nonce (sorted_items items)) = mset (map tx_Nonce (map snd items))"
    by (simp only: sorted_items_def mset_map mset_sort)
  then show "mset (map tx_Nonce (sorted_items items)) = mset index"
    by (simp only: items_nonces [OF ok] m)
  show "sorted (map tx_Nonce (sorted_items items))" by (simp add: sorted_items_def)
qed

lemma Cap_loop_spec:
  "items_ok items \<Longrightarrow> sorted_wrt nonce_lt S \<Longrightarrow> sorted_items items = take k S \<Longrightarrow> k \<le> length S \<Longrightarrow> t \<le> k \<Longrightarrow>
    \<exists>items'. Cap_loop k t (map tx_Nonce S) drops items = Some (drops @ map Some (rev (drop t (take k S))), items') \<and>
      items_ok items' \<and> sorted_items items' = take t S"
proof (induction k arbitrary: drops items)
  case (Suc k)
  show ?case
  proof (cases "t = Suc k")
    case False
    have k: "k < length S" using Suc.prems(4) by simp
    have snoc: "take (Suc k) S = take k S @ [S ! k]" using k by (rule take_Suc_conv_app_nth)
    have lt: "nonce_lt x (S ! k)" if "x \<in> set (take k S)" for x
      using that Suc.prems(2) k sorted_wrt_nth_less [of nonce_lt S] by (fastforce simp: in_set_conv_nth)
    have "S ! k \<in> snd ` set items" using Suc.prems(3) snoc set_sorted_items [of items] by auto
    then have g: "map_of items (tx_Nonce (S ! k)) = Some (S ! k)" by (simp add: map_of_items [OF Suc.prems(1)])
    have "filter (\<lambda>t. tx_Nonce t \<noteq> tx_Nonce (S ! k)) (take k S) = take k S"
      using lt by (fastforce simp: filter_id_conv)
    then have d: "sorted_items (AList.delete (tx_Nonce (S ! k)) items) = take k S"
      using sorted_items_delete [OF Suc.prems(1), of "tx_Nonce (S ! k)"] Suc.prems(3) snoc by simp
    have tk: "t \<le> k" using False Suc.prems(5) by simp
    obtain items' where i: "Cap_loop k t (map tx_Nonce S) (drops @ [Some (S ! k)])
        (AList.delete (tx_Nonce (S ! k)) items) =
        Some (drops @ [Some (S ! k)] @ map Some (rev (drop t (take k S))), items')"
        "items_ok items'" "sorted_items items' = take t S"
      using Suc.IH [OF items_ok_delete [OF Suc.prems(1)] Suc.prems(2) d, of "drops @ [Some (S ! k)]"] k tk by auto
    have "rev (drop t (take (Suc k) S)) = S ! k # rev (drop t (take k S))" using tk k by (simp add: snoc)
    with i g k tk show ?thesis by simp
  qed (use Suc.prems in auto)
qed auto

lemma sm_Cap_spec:
  assumes "sm_ok m" and "0 \<le> t"
  shows "\<exists>m'. sm_Cap m t = Some (map Some (rev (drop (nat t) (sorted_txs m))), m') \<and> sm_ok m' \<and>
    sorted_txs m' = take (nat t) (sorted_txs m)"
proof (cases "int (length (sm_items m)) \<le> t")
  case True
  then have "length (sorted_txs m) \<le> nat t" by (simp add: sorted_txs_def)
  with True assms(1) show ?thesis by (simp add: sm_Cap_def)
next
  case False
  let ?S = "sorted_txs m"
  have ix: "index_ok (sm_items m) (sm_index m)" and ok: "items_ok (sm_items m)"
    using assms(1) by (auto simp: sm_ok_def index_ok_def)
  have l: "nat t \<le> length (sm_items m)" "length ?S = length (sm_items m)" using False by (simp_all add: sorted_txs_def)
  have srt: "sorted_wrt nonce_lt ?S" unfolding sorted_txs_def by (rule sorted_wrt_sorted_items [OF ok])
  obtain items' where i: "Cap_loop (length (sm_items m)) (nat t) (map tx_Nonce ?S) [] (sm_items m) =
      Some (map Some (rev (drop (nat t) ?S)), items')" "items_ok items'" "sorted_items items' = take (nat t) ?S"
    using Cap_loop_spec [OF ok srt, of "length (sm_items m)" "nat t" "[]"] l by (auto simp: sorted_txs_def)
  have ind: "sort (sm_index m) = map tx_Nonce ?S" using sort_index [OF ix] by (simp add: sorted_txs_def)
  have "mset (take (nat t) (map tx_Nonce ?S)) = mset (map tx_Nonce (sorted_items items'))"
    by (simp add: i(3) take_map)
  also have "\<dots> = mset (map tx_Nonce (map snd items'))" by (simp only: sorted_items_def mset_map mset_sort)
  also have "\<dots> = mset (map fst items')" by (simp only: items_nonces [OF i(2)])
  finally have ix': "index_ok items' (heap_Init (<) (take (nat t) (map tx_Nonce ?S)))"
    using i(2) nonce.heap_Init_heap nonce.heap_Init_mset by (simp add: index_ok_def)
  show ?thesis
  proof (cases "sm_cache m")
    case None
    with False assms(2) i ind ix' show ?thesis by (simp add: sm_Cap_def sm_ok_def sorted_txs_def)
  next
    case (Some c)
    then have c: "c = ?S" using assms(1) by (simp add: sm_ok_def)
    have "length c - (length c - nat t) = nat t" using l c by simp
    with Some c False assms(2) i ind ix' l show ?thesis by (simp add: sm_Cap_def sm_ok_def sorted_txs_def)
  qed
qed

text \<open>
  C7: The heap-indexed, cached map of transactions implements a list sorted by nonce. On every
  well-formed map, \<open>Put\<close> replaces or inserts, \<open>Forward\<close> cuts off the nonces below a threshold and
  returns them in order, \<open>Filter\<close> removes exactly the matching transactions, \<open>Cap\<close> keeps the lowest
  nonces, \<open>Remove\<close> deletes one nonce, \<open>Ready\<close> takes the run of consecutive nonces, \<open>Flatten\<close> returns
  the list, and all of them keep the map well-formed: the heap holds exactly the stored nonces and
  the cache, if any, is the sorted list. No slice bound is ever exceeded.
\<close>

theorem txSortedMap_refines:
  assumes "sm_ok m" and "0 \<le> cap"
  shows "sm_ok (sm_Put m tx) \<and> sorted_txs (sm_Put m tx) =
      insort_key tx_Nonce tx (filter (\<lambda>t. tx_Nonce t \<noteq> tx_Nonce tx) (sorted_txs m)) \<and>
    (\<exists>m'. sm_Forward m n = Some (map Some (takeWhile (\<lambda>t. tx_Nonce t < n) (sorted_txs m)), m') \<and>
      sm_ok m' \<and> sorted_txs m' = dropWhile (\<lambda>t. tx_Nonce t < n) (sorted_txs m)) \<and>
    sm_ok (snd (sm_Filter m f)) \<and> sorted_txs (snd (sm_Filter m f)) = filter (Not \<circ> f) (sorted_txs m) \<and>
      mset (fst (sm_Filter m f)) = mset (filter f (sorted_txs m)) \<and>
    (\<exists>m'. sm_Cap m cap = Some (map Some (rev (drop (nat cap) (sorted_txs m))), m') \<and> sm_ok m' \<and>
      sorted_txs m' = take (nat cap) (sorted_txs m)) \<and>
    sm_ok (snd (sm_Remove m n)) \<and> sorted_txs (snd (sm_Remove m n)) = filter (\<lambda>t. tx_Nonce t \<noteq> n) (sorted_txs m) \<and>
    fst (sm_Ready m n) = map Some (ready_of n (sorted_txs m)) \<and> sm_ok (snd (sm_Ready m n)) \<and>
      sorted_txs (snd (sm_Ready m n)) = drop (length (ready_of n (sorted_txs m))) (sorted_txs m) \<and>
    fst (sm_Flatten m) = sorted_txs m \<and> sm_ok (snd (sm_Flatten m)) \<and> sorted_txs (snd (sm_Flatten m)) = sorted_txs m"
  by (intro conjI sm_Put_spec [OF assms(1)] sm_Forward_spec [OF assms(1)] sm_Cap_spec [OF assms]
      sm_Remove_spec(1,2) [OF assms(1)] sm_Ready_spec [OF assms(1)] sm_Flatten_spec [OF assms(1)]
      conjunct1 [OF sm_Filter_spec [OF assms(1)]] conjunct1 [OF conjunct2 [OF sm_Filter_spec [OF assms(1)]]]
      conjunct2 [OF conjunct2 [OF sm_Filter_spec [OF assms(1)]]])

lemma sm_ok_new [simp]: "sm_ok newTxSortedMap" "sorted_txs newTxSortedMap = []"
  by (simp_all add: sm_ok_def newTxSortedMap_def index_ok_def items_ok_def sorted_txs_def sorted_items_def)

text \<open>A transaction with the given nonce.\<close>

definition ex_nonce :: "u64 \<Rightarrow> Transaction" where
  "ex_nonce n = Tx (blank_data\<lparr>td_AccountNonce := n\<rparr>)"

lemma ex_nonce_sel [simp]: "tx_Nonce (ex_nonce n) = n"
  by (simp add: ex_nonce_def tx_Nonce_def)

theorem txSortedMap_refines_witness:
  "sorted_txs (sm_Put (sm_Put newTxSortedMap (ex_nonce 7)) (ex_nonce 5)) = [ex_nonce 5, ex_nonce 7] \<and>
   fst (sm_Ready (sm_Put (sm_Put newTxSortedMap (ex_nonce 7)) (ex_nonce 5)) 6) = [Some (ex_nonce 5)]"
proof -
  let ?m = "sm_Put newTxSortedMap (ex_nonce 7)"
  have m: "sm_ok ?m" "sorted_txs ?m = [ex_nonce 7]"
    using txSortedMap_refines [of newTxSortedMap 0 "ex_nonce 7"] by simp_all
  have m2: "sm_ok (sm_Put ?m (ex_nonce 5))" "sorted_txs (sm_Put ?m (ex_nonce 5)) = [ex_nonce 5, ex_nonce 7]"
    using txSortedMap_refines [OF m(1), of 0 "ex_nonce 5"] m(2) by simp_all
  have "fst (sm_Ready (sm_Put ?m (ex_nonce 5)) 6) = map Some (ready_of 6 [ex_nonce 5, ex_nonce 7])"
    using txSortedMap_refines [OF m2(1), of 0 "ex_nonce 5" 6] m2(2) by simp
  with m2 show ?thesis by (simp add: ready_of_def)
qed

end
