(* ===== verification/Tx_Priced.thy ===== *)
theory Tx_Priced
  imports Tx_List
begin

text \<open>
  The pool's lookup table, its set of local accounts (\<open>core/tx_pool.go\<close>) and its list of
  transactions by price (\<open>txPricedList\<close> of \<open>core/tx_list.go\<close>), a heap whose entries may be stale.
  Sizes of transactions are far below the range in which the code's floating point is inexact.
\<close>

section \<open>Lookup and accounts\<close>

record txLookup =
  lk_all :: "(bytes \<times> Transaction) list"
  lk_slots :: int

definition numSlots :: "Transaction \<Rightarrow> nat" where
  "numSlots tx = (tx_Size tx + 32768 - 1) div 32768"

definition newTxLookup :: txLookup where
  "newTxLookup = \<lparr>lk_all = [], lk_slots = 0\<rparr>"

definition lk_Get :: "txLookup \<Rightarrow> bytes \<Rightarrow> Transaction option" where
  "lk_Get t hash = map_of (lk_all t) hash"

definition lk_Count :: "txLookup \<Rightarrow> nat" where
  "lk_Count t = length (lk_all t)"

definition lk_Add :: "(bytes \<Rightarrow> bytes) \<Rightarrow> txLookup \<Rightarrow> Transaction \<Rightarrow> txLookup" where
  "lk_Add keccak t tx =
     \<lparr>lk_all = AList.update (tx_Hash keccak tx) tx (lk_all t), lk_slots = lk_slots t + int (numSlots tx)\<rparr>"

text \<open>Removing an unknown hash asks for the size of a nil transaction, which panics.\<close>

definition lk_Remove :: "txLookup \<Rightarrow> bytes \<Rightarrow> txLookup option" where
  "lk_Remove t hash =
     (case map_of (lk_all t) hash of
        None \<Rightarrow> None
      | Some tx \<Rightarrow> Some \<lparr>lk_all = AList.delete hash (lk_all t), lk_slots = lk_slots t - int (numSlots tx)\<rparr>)"

type_synonym sender = "Transaction \<Rightarrow> address option"

definition containsTx :: "sender \<Rightarrow> address set \<Rightarrow> Transaction \<Rightarrow> bool" where
  "containsTx sender accounts tx = (case sender tx of None \<Rightarrow> False | Some addr \<Rightarrow> addr \<in> accounts)"

section \<open>txPricedList\<close>

record txPricedList =
  pl_items :: "Transaction list"
  pl_stales :: int

definition price_less :: "Transaction \<Rightarrow> Transaction \<Rightarrow> bool" where
  "price_less a b \<longleftrightarrow>
     (if tx_GasPrice a < tx_GasPrice b then True else if tx_GasPrice b < tx_GasPrice a then False
      else tx_Nonce b < tx_Nonce a)"

definition newTxPricedList :: txPricedList where
  "newTxPricedList = \<lparr>pl_items = [], pl_stales = 0\<rparr>"

definition pl_Put :: "txPricedList \<Rightarrow> Transaction \<Rightarrow> txPricedList" where
  "pl_Put l tx = l\<lparr>pl_items := heap_Push price_less (pl_items l) tx\<rparr>"

definition pl_Removed :: "txLookup \<Rightarrow> txPricedList \<Rightarrow> nat \<Rightarrow> txPricedList" where
  "pl_Removed all l cnt =
     (let stales = pl_stales l + int cnt in
      if stales \<le> int (length (pl_items l)) div 4 then l\<lparr>pl_stales := stales\<rparr>
      else \<lparr>pl_items = heap_Init price_less (map snd (lk_all all)), pl_stales = 0\<rparr>)"

text \<open>The loops pop the heap; \<open>None\<close> of \<open>heap_Pop\<close> cannot occur on a non-empty one.\<close>

function pl_Cap_loop ::
  "(Transaction \<Rightarrow> bool) \<Rightarrow> (Transaction \<Rightarrow> bool) \<Rightarrow> int \<Rightarrow> Transaction list \<Rightarrow> int \<Rightarrow> Transaction list \<Rightarrow> Transaction list \<Rightarrow>
    Transaction list \<times> int \<times> Transaction list \<times> Transaction list" where
  "pl_Cap_loop known local threshold items stales drops save =
     (case heap_Pop price_less items of
        None \<Rightarrow> (items, stales, drops, save)
      | Some (tx, items') \<Rightarrow>
          if \<not> known tx then pl_Cap_loop known local threshold items' (stales - 1) drops save
          else if threshold \<le> tx_GasPrice tx then (items', stales, drops, save @ [tx])
          else if local tx then pl_Cap_loop known local threshold items' stales drops (save @ [tx])
          else pl_Cap_loop known local threshold items' stales (drops @ [tx]) save)"
  by auto
termination
  by (relation "measure (\<lambda>(k, l, t, items, s). length items)") (auto dest: length_heap_Pop)

declare pl_Cap_loop.simps [simp del]

definition known_tx :: "(bytes \<Rightarrow> bytes) \<Rightarrow> txLookup \<Rightarrow> Transaction \<Rightarrow> bool" where
  "known_tx keccak all tx \<longleftrightarrow> lk_Get all (tx_Hash keccak tx) \<noteq> None"

definition pl_Cap ::
  "(bytes \<Rightarrow> bytes) \<Rightarrow> sender \<Rightarrow> txLookup \<Rightarrow> txPricedList \<Rightarrow> int \<Rightarrow> address set \<Rightarrow> Transaction list \<times> txPricedList" where
  "pl_Cap keccak sender all l threshold local =
     (let (items, stales, drops, save) =
        pl_Cap_loop (known_tx keccak all) (containsTx sender local) threshold (pl_items l) (pl_stales l) [] []
      in (drops, \<lparr>pl_items = fold (\<lambda>tx h. heap_Push price_less h tx) save items, pl_stales = stales\<rparr>))"

function pl_Underpriced_loop :: "(Transaction \<Rightarrow> bool) \<Rightarrow> Transaction list \<Rightarrow> int \<Rightarrow> Transaction list \<times> int" where
  "pl_Underpriced_loop known items stales =
     (case items of
        [] \<Rightarrow> (items, stales)
      | head # _ \<Rightarrow>
          if known head then (items, stales)
          else (case heap_Pop price_less items of
              None \<Rightarrow> (items, stales)
            | Some (_, items') \<Rightarrow> pl_Underpriced_loop known items' (stales - 1)))"
  by auto
termination
  by (relation "measure (\<lambda>(k, items, s). length items)") (auto dest: length_heap_Pop)

declare pl_Underpriced_loop.simps [simp del]

definition pl_Underpriced ::
  "(bytes \<Rightarrow> bytes) \<Rightarrow> sender \<Rightarrow> txLookup \<Rightarrow> txPricedList \<Rightarrow> Transaction \<Rightarrow> address set \<Rightarrow> bool \<times> txPricedList" where
  "pl_Underpriced keccak sender all l tx local =
     (if containsTx sender local tx then (False, l)
      else
        let (items, stales) = pl_Underpriced_loop (known_tx keccak all) (pl_items l) (pl_stales l);
            l' = \<lparr>pl_items = items, pl_stales = stales\<rparr>
        in case items of [] \<Rightarrow> (False, l') | cheapest # _ \<Rightarrow> (tx_GasPrice tx \<le> tx_GasPrice cheapest, l'))"

function pl_Discard_loop ::
  "(Transaction \<Rightarrow> bool) \<Rightarrow> (Transaction \<Rightarrow> bool) \<Rightarrow> int \<Rightarrow> Transaction list \<Rightarrow> int \<Rightarrow> Transaction list \<Rightarrow> Transaction list \<Rightarrow>
    Transaction list \<times> int \<times> Transaction list \<times> Transaction list" where
  "pl_Discard_loop known local slots items stales drops save =
     (if slots \<le> 0 then (items, stales, drops, save)
      else case heap_Pop price_less items of
        None \<Rightarrow> (items, stales, drops, save)
      | Some (tx, items') \<Rightarrow>
          if \<not> known tx then pl_Discard_loop known local slots items' (stales - 1) drops save
          else if local tx then pl_Discard_loop known local slots items' stales drops (save @ [tx])
          else pl_Discard_loop known local (slots - int (numSlots tx)) items' stales (drops @ [tx]) save)"
  by auto
termination
  by (relation "measure (\<lambda>(k, l, t, items, s). length items)") (auto dest: length_heap_Pop)

declare pl_Discard_loop.simps [simp del]

text \<open>\<open>Discard\<close> allocates a slice of capacity \<open>slots\<close>, which panics for a negative number.\<close>

definition pl_Discard ::
  "(bytes \<Rightarrow> bytes) \<Rightarrow> sender \<Rightarrow> txLookup \<Rightarrow> txPricedList \<Rightarrow> int \<Rightarrow> address set \<Rightarrow> (Transaction list \<times> txPricedList) option" where
  "pl_Discard keccak sender all l slots local =
     (if slots < 0 then None
      else
        let (items, stales, drops, save) =
          pl_Discard_loop (known_tx keccak all) (containsTx sender local) slots (pl_items l) (pl_stales l) [] []
        in Some (drops, \<lparr>pl_items = fold (\<lambda>tx h. heap_Push price_less h tx) save items, pl_stales = stales\<rparr>))"

section \<open>Discarding the cheapest\<close>

interpretation price: heap_order price_less
  by unfold_locales (auto simp: price_less_def split: if_splits)

lemma Discard_loop_spec:
  "is_heap price_less items \<Longrightarrow> pl_Discard_loop k l slots items stales drops save = (items', stales', drops', save') \<Longrightarrow>
    \<exists>new kept. drops' = drops @ new \<and> save' = save @ kept \<and> is_heap price_less items' \<and>
      (\<forall>tx \<in> set new. k tx \<and> \<not> l tx) \<and> (\<forall>tx \<in> set kept. l tx) \<and>
      set items' \<union> set new \<union> set kept \<subseteq> set items \<and>
      (\<forall>tx \<in> set items. k tx \<longrightarrow> tx \<in> set items' \<union> set new \<union> set kept) \<and>
      (items' = [] \<or> slots \<le> (\<Sum>tx\<leftarrow>new. int (numSlots tx))) \<and>
      (\<forall>d \<in> set new. \<forall>tx \<in> set items'. \<not> price_less tx d)"
proof (induction "length items" arbitrary: items slots stales drops save rule: less_induct)
  case less
  show ?case
  proof (cases "slots \<le> 0 \<or> items = []")
    case True
    then have "pl_Discard_loop k l slots items stales drops save = (items, stales, drops, save)"
      by (subst pl_Discard_loop.simps) (auto simp: heap_Pop_def)
    with less.prems True show ?thesis by auto
  next
    case False
    then have slots: "\<not> slots \<le> 0" and ne: "items \<noteq> []" by auto
    obtain rest where p: "heap_Pop price_less items = Some (hd items, rest)" "is_heap price_less rest"
        "add_mset (hd items) (mset rest) = mset items" "\<And>x. x \<in> set items \<Longrightarrow> \<not> price_less x (hd items)"
      by (rule price.heap_Pop_spec [OF less.prems(1) ne]) blast
    let ?tx = "hd items"
    have set: "set items = insert ?tx (set rest)" using p(3) by (metis set_mset_add_mset_insert set_mset_mset)
    have len: "length rest < length items" using length_heap_Pop [OF p(1)] by simp
    have step: "pl_Discard_loop k l slots items stales drops save =
        (if \<not> k ?tx then pl_Discard_loop k l slots rest (stales - 1) drops save
         else if l ?tx then pl_Discard_loop k l slots rest stales drops (save @ [?tx])
         else pl_Discard_loop k l (slots - int (numSlots ?tx)) rest stales (drops @ [?tx]) save)"
      using slots p(1) by (subst pl_Discard_loop.simps) simp
    let ?P = "\<lambda>slots drops save items new kept. drops' = drops @ new \<and> save' = save @ kept \<and> is_heap price_less items' \<and>
      (\<forall>tx \<in> set new. k tx \<and> \<not> l tx) \<and> (\<forall>tx \<in> set kept. l tx) \<and> set items' \<union> set new \<union> set kept \<subseteq> set items \<and>
      (\<forall>tx \<in> set items. k tx \<longrightarrow> tx \<in> set items' \<union> set new \<union> set kept) \<and>
      (items' = [] \<or> slots \<le> (\<Sum>tx\<leftarrow>new. int (numSlots tx))) \<and> (\<forall>d \<in> set new. \<forall>tx \<in> set items'. \<not> price_less tx d)"
    have IH: "\<exists>new kept. ?P sl dr sa rest new kept"
      if "pl_Discard_loop k l sl rest st dr sa = (items', stales', drops', save')" for sl st dr sa
      using less.hyps [OF len p(2) that] .
    consider "\<not> k ?tx" | "k ?tx" "l ?tx" | "k ?tx" "\<not> l ?tx" by blast
    then show ?thesis
    proof cases
      case 1
      with step less.prems(2) IH obtain new kept where "?P slots drops save rest new kept" by force
      with 1 have "?P slots drops save items new kept" unfolding set by (intro conjI) (blast | simp)+
      then show ?thesis by blast
    next
      case 2
      with step less.prems(2) IH obtain new kept where "?P slots drops (save @ [?tx]) rest new kept" by force
      with 2 have "?P slots drops save items new (?tx # kept)" unfolding set by (intro conjI) (auto; fail)+
      then show ?thesis by blast
    next
      case 3
      with step less.prems(2) IH
      obtain new kept where "?P (slots - int (numSlots ?tx)) (drops @ [?tx]) save rest new kept" by force
      with 3 p(4) have "?P slots drops save items (?tx # new) kept" unfolding set by (intro conjI) (auto; fail)+
      then show ?thesis by blast
    qed
  qed
qed

lemma fold_Push:
  "is_heap price_less h \<Longrightarrow> is_heap price_less (fold (\<lambda>tx h. heap_Push price_less h tx) save h) \<and>
    set (fold (\<lambda>tx h. heap_Push price_less h tx) save h) = set save \<union> set h"
proof (induction save arbitrary: h)
  case (Cons tx save)
  have "set (heap_Push price_less h tx) = insert tx (set h)"
    using price.heap_Push_mset [of h tx] by (metis set_mset_add_mset_insert set_mset_mset)
  with Cons.IH [OF price.heap_Push_heap [OF Cons.prems, of tx]] show ?case by auto
qed simp

lemma pl_Discard_spec:
  assumes "is_heap price_less (pl_items l)" and "0 \<le> slots"
  shows "\<exists>drops l'. pl_Discard keccak sender all l slots local = Some (drops, l') \<and> is_heap price_less (pl_items l') \<and>
    (\<forall>tx \<in> set drops. tx \<in> set (pl_items l) \<and> known_tx keccak all tx \<and> \<not> containsTx sender local tx) \<and>
    (\<forall>tx \<in> set (pl_items l). known_tx keccak all tx \<longrightarrow> tx \<in> set drops \<union> set (pl_items l')) \<and>
    (\<forall>d \<in> set drops. \<forall>tx \<in> set (pl_items l'). containsTx sender local tx \<or> tx_GasPrice d \<le> tx_GasPrice tx) \<and>
    (slots \<le> (\<Sum>tx\<leftarrow>drops. int (numSlots tx)) \<or> (\<forall>tx \<in> set (pl_items l'). containsTx sender local tx))"
proof -
  obtain items stales new kept where d: "pl_Discard_loop (known_tx keccak all) (containsTx sender local) slots
      (pl_items l) (pl_stales l) [] [] = (items, stales, new, kept)" by (metis prod_cases4)
  let ?l = "\<lparr>pl_items = fold (\<lambda>tx h. heap_Push price_less h tx) kept items, pl_stales = stales\<rparr>"
  from d assms(2) have l': "pl_Discard keccak sender all l slots local = Some (new, ?l)"
    by (auto simp: pl_Discard_def)
  from Discard_loop_spec [OF assms(1) d] have
    s: "is_heap price_less items" "\<forall>tx \<in> set new. known_tx keccak all tx \<and> \<not> containsTx sender local tx"
    "\<forall>tx \<in> set kept. containsTx sender local tx" "set items \<union> set new \<union> set kept \<subseteq> set (pl_items l)"
    "\<forall>tx \<in> set (pl_items l). known_tx keccak all tx \<longrightarrow> tx \<in> set items \<union> set new \<union> set kept"
    "items = [] \<or> slots \<le> (\<Sum>tx\<leftarrow>new. int (numSlots tx))" "\<forall>d \<in> set new. \<forall>tx \<in> set items. \<not> price_less tx d"
    by auto
  have "tx_GasPrice d \<le> tx_GasPrice tx" if "\<not> price_less tx d" for d tx
    using that by (simp add: price_less_def split: if_splits)
  with s fold_Push [OF s(1), of kept] show ?thesis by (intro exI [of _ new] exI [of _ ?l] conjI l') auto
qed

text \<open>
  C18: \<open>Discard\<close> drops only known transactions of remote accounts, never one that is dearer than a
  remote transaction it keeps, and it frees the requested slots unless no remote transaction is left.
  No known transaction is lost: what is not dropped stays in the list, which remains a heap.
\<close>

theorem Discard_cheapest:
  assumes "is_heap price_less (pl_items l)" and "0 \<le> slots"
  shows "\<exists>drops l'. pl_Discard keccak sender all l slots local = Some (drops, l') \<and> is_heap price_less (pl_items l') \<and>
    (\<forall>tx \<in> set drops. tx \<in> set (pl_items l) \<and> known_tx keccak all tx \<and> \<not> containsTx sender local tx) \<and>
    (\<forall>tx \<in> set (pl_items l). known_tx keccak all tx \<longrightarrow> tx \<in> set drops \<union> set (pl_items l')) \<and>
    (\<forall>d \<in> set drops. \<forall>tx \<in> set (pl_items l'). containsTx sender local tx \<or> tx_GasPrice d \<le> tx_GasPrice tx) \<and>
    (slots \<le> (\<Sum>tx\<leftarrow>drops. int (numSlots tx)) \<or> (\<forall>tx \<in> set (pl_items l'). containsTx sender local tx))"
  by (rule pl_Discard_spec [OF assms])

theorem Discard_cheapest_witness:
  "let l = \<lparr>pl_items = [Tx blank_data], pl_stales = 0\<rparr>; all = \<lparr>lk_all = [(tx_Hash (\<lambda>b. b) (Tx blank_data), Tx blank_data)], lk_slots = 1\<rparr>
   in is_heap price_less (pl_items l) \<and>
     (\<exists>drops l'. pl_Discard (\<lambda>b. b) (\<lambda>_. None) all l 1 {} = Some (drops, l') \<and> is_heap price_less (pl_items l') \<and>
       set drops \<union> set (pl_items l') \<noteq> {})"
proof -
  let ?l = "\<lparr>pl_items = [Tx blank_data], pl_stales = 0\<rparr>"
    and ?all = "\<lparr>lk_all = [(tx_Hash (\<lambda>b. b) (Tx blank_data), Tx blank_data)], lk_slots = 1\<rparr>"
  have h: "is_heap price_less (pl_items ?l)" by (simp add: is_heap_def pairs_def)
  have k: "known_tx (\<lambda>b. b) ?all (Tx blank_data)" by (simp add: known_tx_def lk_Get_def)
  from Discard_cheapest [OF h, of 1 "\<lambda>b. b" "\<lambda>_. None" ?all "{}"] h k show ?thesis by fastforce
qed

end
