(* ===== verification/Prque.thy ===== *)
theory Prque
  imports Go_Heap
begin

text \<open>
  The priority queue of \<open>common/prque\<close>: a heap of items whose \<open>Less\<close> puts the highest priority
  first. The growable array of \<open>sstack.go\<close>, kept in blocks of 4096 slots, is a list here; priorities
  are list lengths, for which the difference that \<open>Less\<close> forms does not overflow.
\<close>

type_synonym 'a item = "'a \<times> int"

definition sstack_Less :: "'a item \<Rightarrow> 'a item \<Rightarrow> bool" where
  "sstack_Less a b \<longleftrightarrow> 0 < snd a - snd b"

definition prque_New :: "'a item list" where
  "prque_New = []"

definition prque_Push :: "'a item list \<Rightarrow> 'a \<Rightarrow> int \<Rightarrow> 'a item list" where
  "prque_Push q data priority = heap_Push sstack_Less q (data, priority)"

definition prque_Pop :: "'a item list \<Rightarrow> (('a \<times> int) \<times> 'a item list) option" where
  "prque_Pop q = heap_Pop sstack_Less q"

definition prque_Empty :: "'a item list \<Rightarrow> bool" where
  "prque_Empty q \<longleftrightarrow> length q = 0"

interpretation prio: heap_order sstack_Less
  by unfold_locales (auto simp: sstack_Less_def)

definition prque_ok :: "'a item list \<Rightarrow> bool" where
  "prque_ok q \<longleftrightarrow> is_heap sstack_Less q"

lemma prque_ok_New [simp]: "prque_ok prque_New"
  by (simp add: prque_ok_def prque_New_def is_heap_def pairs_def)

lemma prque_Push_spec:
  assumes "prque_ok q"
  shows "prque_ok (prque_Push q x n)" "mset (prque_Push q x n) = add_mset (x, n) (mset q)"
  using assms prio.heap_Push_heap [of q "(x, n)"] prio.heap_Push_mset [of q "(x, n)"]
  by (simp_all add: prque_ok_def prque_Push_def)

text \<open>\<open>Pop\<close> on a non-empty queue returns an entry of highest priority.\<close>

lemma prque_Pop_spec:
  assumes "prque_ok q" and "\<not> prque_Empty q"
  obtains x n q' where "prque_Pop q = Some ((x, n), q')" and "prque_ok q'"
    and "mset q = add_mset (x, n) (mset q')" and "\<And>y k. (y, k) \<in> set q \<Longrightarrow> k \<le> n"
proof -
  have ne: "q \<noteq> []" using assms(2) by (simp add: prque_Empty_def)
  obtain q' where p: "heap_Pop sstack_Less q = Some (hd q, q')" "is_heap sstack_Less q'"
      "add_mset (hd q) (mset q') = mset q" "\<And>x. x \<in> set q \<Longrightarrow> \<not> sstack_Less x (hd q)"
    using prio.heap_Pop_spec [OF assms(1) [unfolded prque_ok_def] ne] by blast
  have "k \<le> snd (hd q)" if "(y, k) \<in> set q" for y k
    using p(4) [OF that] by (simp add: sstack_Less_def)
  then show thesis
    using p(1-3) by (intro that [of "fst (hd q)" "snd (hd q)" q']) (simp_all add: prque_Pop_def prque_ok_def)
qed

end
