(* ===== verification/Tx_Pool.thy ===== *)
theory Tx_Pool
  imports Zkp Tx_Priced Prque
begin

text \<open>
  The transaction pool (\<open>core/tx_pool.go\<close>) and its virtual nonces (\<open>core/tx_noncer.go\<close>). The pool is
  a record; every operation that the code runs under the pool's lock is a function on it. The result
  \<open>None\<close> is a panic. Parameters are the hash functions, the sender recovered from a signature, and
  the current time; the state of the chain head is read through \<open>GetNonce\<close> and \<open>GetBalance\<close>. Locks,
  metrics, log lines, the disk journal and the event feed do not change the pool.
\<close>

section \<open>Virtual nonces\<close>

record StateView =
  st_GetNonce :: "address \<Rightarrow> u64"
  st_GetBalance :: "address \<Rightarrow> int"

record txNoncer =
  nc_fallback :: StateView
  nc_nonces :: "(address \<times> u64) list"

definition newTxNoncer :: "StateView \<Rightarrow> txNoncer" where
  "newTxNoncer statedb = \<lparr>nc_fallback = statedb, nc_nonces = []\<rparr>"

definition nc_get :: "txNoncer \<Rightarrow> address \<Rightarrow> u64 \<times> txNoncer" where
  "nc_get txn addr =
     (case map_of (nc_nonces txn) addr of
        Some n \<Rightarrow> (n, txn)
      | None \<Rightarrow>
          let n = st_GetNonce (nc_fallback txn) addr
          in (n, txn\<lparr>nc_nonces := AList.update addr n (nc_nonces txn)\<rparr>))"

definition nc_set :: "txNoncer \<Rightarrow> address \<Rightarrow> u64 \<Rightarrow> txNoncer" where
  "nc_set txn addr nonce = txn\<lparr>nc_nonces := AList.update addr nonce (nc_nonces txn)\<rparr>"

definition nc_setIfLower :: "txNoncer \<Rightarrow> address \<Rightarrow> u64 \<Rightarrow> txNoncer" where
  "nc_setIfLower txn addr nonce =
     (let (cur, txn1) = nc_get txn addr in if cur \<le> nonce then txn1 else nc_set txn1 addr nonce)"

section \<open>Configuration\<close>

record TxPoolConfig =
  cfg_Locals :: "address list"
  cfg_NoLocals :: bool
  cfg_Journal :: string
  cfg_Rejournal :: int
  cfg_PriceLimit :: u64
  cfg_PriceBump :: u64
  cfg_AccountSlots :: u64
  cfg_GlobalSlots :: u64
  cfg_AccountQueue :: u64
  cfg_GlobalQueue :: u64
  cfg_Exchange :: PublicKey
  cfg_Regulator :: PublicKey
  cfg_Lifetime :: int

text \<open>Durations are in nanoseconds. The keys of exchange and regulator are set from the genesis block.\<close>

definition DefaultTxPoolConfig :: "PublicKey \<Rightarrow> PublicKey \<Rightarrow> TxPoolConfig" where
  "DefaultTxPoolConfig exchange regulator =
     \<lparr>cfg_Locals = [], cfg_NoLocals = False, cfg_Journal = ''transactions.rlp'', cfg_Rejournal = 3600 * 10 ^ 9,
      cfg_PriceLimit = 1, cfg_PriceBump = 10, cfg_AccountSlots = 16, cfg_GlobalSlots = 4096,
      cfg_AccountQueue = 64, cfg_GlobalQueue = 1024, cfg_Exchange = exchange, cfg_Regulator = regulator,
      cfg_Lifetime = 3 * 3600 * 10 ^ 9\<rparr>"

definition sanitize :: "TxPoolConfig \<Rightarrow> TxPoolConfig" where
  "sanitize config =
     (let dflt = DefaultTxPoolConfig (cfg_Exchange config) (cfg_Regulator config);
          conf = config;
          conf = (if cfg_Rejournal conf < 10 ^ 9 then conf\<lparr>cfg_Rejournal := 10 ^ 9\<rparr> else conf);
          conf = (if cfg_PriceLimit conf < 1 then conf\<lparr>cfg_PriceLimit := cfg_PriceLimit dflt\<rparr> else conf);
          conf = (if cfg_PriceBump conf < 1 then conf\<lparr>cfg_PriceBump := cfg_PriceBump dflt\<rparr> else conf);
          conf = (if cfg_AccountSlots conf < 1 then conf\<lparr>cfg_AccountSlots := cfg_AccountSlots dflt\<rparr> else conf);
          conf = (if cfg_GlobalSlots conf < 1 then conf\<lparr>cfg_GlobalSlots := cfg_GlobalSlots dflt\<rparr> else conf);
          conf = (if cfg_AccountQueue conf < 1 then conf\<lparr>cfg_AccountQueue := cfg_AccountQueue dflt\<rparr> else conf);
          conf = (if cfg_GlobalQueue conf < 1 then conf\<lparr>cfg_GlobalQueue := cfg_GlobalQueue dflt\<rparr> else conf);
          conf = (if cfg_Lifetime conf < 1 then conf\<lparr>cfg_Lifetime := cfg_Lifetime dflt\<rparr> else conf)
      in conf)"

section \<open>The pool\<close>

type_synonym accounts = "(address \<times> txList) list"

record TxPool =
  tp_config :: TxPoolConfig
  tp_gasPrice :: int
  tp_istanbul :: bool
  tp_currentState :: StateView
  tp_pendingNonces :: txNoncer
  tp_currentMaxGas :: u64
  tp_locals :: "address set"
  tp_pending :: accounts
  tp_queue :: accounts
  tp_beats :: "(address \<times> int) list"
  tp_all :: txLookup
  tp_priced :: txPricedList
  tp_CMdb :: cmdb

text \<open>\<open>from, _ := types.Sender(...)\<close>: the zero address when recovery fails.\<close>

definition sender_of :: "sender \<Rightarrow> Transaction \<Rightarrow> address" where
  "sender_of sender tx = (case sender tx of None \<Rightarrow> replicate 20 0 | Some from \<Rightarrow> from)"

subsection \<open>Validation\<close>

text \<open>The checks against overflow are commented out in the source; the error is always nil.\<close>

definition IntrinsicGas :: "bytes \<Rightarrow> bool \<Rightarrow> bool \<Rightarrow> bool \<Rightarrow> pool_error + u64" where
  "IntrinsicGas data contractCreation isHomestead isEIP2028 =
     (let gas = (if contractCreation \<and> isHomestead then 53000 else 21000 :: u64) in
      if data \<noteq> [] then
        (let nz = (of_nat (length (filter (\<lambda>b. b \<noteq> 0) data)) :: u64);
             nonZeroGas = (if isEIP2028 then 16 else 68);
             gas = gas + nz * nonZeroGas;
             z = of_nat (length data) - nz
         in Inr (gas + z * 4))
      else Inr gas)"

definition validateTx :: "sender \<Rightarrow> TxPool \<Rightarrow> Transaction \<Rightarrow> bool \<Rightarrow> pool_error option" where
  "validateTx sender pool tx local =
     (if (of_nat (tx_Size tx) :: u64) > 2 * 32768 then Some ErrOversizedData
      else if tx_Value tx < 0 then Some ErrNegativeValue
      else if tp_currentMaxGas pool < tx_Gas tx then Some ErrGasLimit
      else case sender tx of
        None \<Rightarrow> Some ErrInvalidSender
      | Some from \<Rightarrow>
          if st_GetNonce (tp_currentState pool) from > tx_Nonce tx then Some ErrNonceTooLow
          else case IntrinsicGas (tx_Payload tx) (tx_To tx = None) True (tp_istanbul pool) of
              Inl err \<Rightarrow> Some err
            | Inr intrGas \<Rightarrow> if tx_Gas tx < intrGas then None else None)"

definition validateSign :: "(bytes \<Rightarrow> bytes) \<Rightarrow> TxPool \<Rightarrow> Transaction \<Rightarrow> pool_error option option" where
  "validateSign sha pool tx = do {
     M \<leftarrow> Btob (tx_SigM tx);
     M_hash \<leftarrow> Btob (tx_SigMHash tx);
     R \<leftarrow> Btob (tx_SigR tx);
     S \<leftarrow> Btob (tx_SigS tx);
     v \<leftarrow> Verify sha (cfg_Exchange (tp_config pool)) \<lparr>sig_M = M, sig_M_hash = M_hash, sig_R = R, sig_S = S\<rparr>;
     Some (if \<not> v then Some ErrVerifySig else None) }"

definition verifyzkp :: "(bytes \<Rightarrow> bytes) \<Rightarrow> TxPool \<Rightarrow> Transaction \<Rightarrow> pool_error option option" where
  "verifyzkp sha pool tx = do {
     let pub = cfg_Regulator (tp_config pool);
     evs \<leftarrow> EVS tx; cmsfp \<leftarrow> CMsFP tx;
     verify1 \<leftarrow> VerifyFormatProof sha evs pub cmsfp;
     if \<not> verify1 then Some (Some ErrVerifyEvSFormatProof) else do {
     evr \<leftarrow> EVR tx; cmrfp \<leftarrow> CMrFP tx;
     verify2 \<leftarrow> VerifyFormatProof sha evr pub cmrfp;
     if \<not> verify2 then Some (Some ErrVerifyEvRFormatProof) else do {
     cmr \<leftarrow> Btob (tx_CmR tx); cms \<leftarrow> Btob (tx_CmS tx); cmo \<leftarrow> Btob (tx_CmO tx); bp \<leftarrow> BP tx;
     verify3 \<leftarrow> VerifyBalanceProof sha cmr cms cmo pub bp;
     if \<not> verify3 then Some (Some ErrVerifyBalanceProof) else do {
     evo \<leftarrow> EVO tx; evoep \<leftarrow> EvoEP tx;
     verify4 \<leftarrow> VerifyEqualityProof sha pub pub evo \<lparr>ct_C1 = [], ct_C2 = cmo\<rparr> evoep;
     if \<not> verify4 then Some (Some ErrVerifyTotalEqualityProof) else do {
     erpk \<leftarrow> ERPK tx; cmrpk \<leftarrow> Btob (tx_CMRpk tx); erpkep \<leftarrow> ErpkEP tx;
     verify5 \<leftarrow> VerifyEqualityProof sha pub pub erpk \<lparr>ct_C1 = [], ct_C2 = cmrpk\<rparr> erpkep;
     if \<not> verify5 then Some (Some ErrVerifyRpkEqualityProof) else do {
     espk \<leftarrow> ESPK tx; cmspk \<leftarrow> Btob (tx_CMSpk tx); espkep \<leftarrow> EspkEP tx;
     verify6 \<leftarrow> VerifyEqualityProof sha pub pub espk \<lparr>ct_C1 = [], ct_C2 = cmspk\<rparr> espkep;
     Some (if \<not> verify6 then Some ErrVerifySpkEqualityProof else None) } } } } } }"

subsection \<open>Entering and leaving the tables\<close>

text \<open>
  \<open>reorgCM\<close>, \<open>all.Remove\<close> and the entry \<open>processCM\<close>, \<open>all.Add\<close>, \<open>priced.Put\<close>, which the operations
  below repeat.
\<close>

definition drop_tx :: "(bytes \<Rightarrow> bytes) \<Rightarrow> TxPool \<Rightarrow> Transaction \<Rightarrow> TxPool option" where
  "drop_tx keccak pool tx = do {
     db \<leftarrow> reorgCM keccak (tp_CMdb pool) tx;
     al \<leftarrow> lk_Remove (tp_all pool) (tx_Hash keccak tx);
     Some (pool\<lparr>tp_CMdb := db, tp_all := al\<rparr>) }"

definition priced_Removed :: "TxPool \<Rightarrow> nat \<Rightarrow> TxPool" where
  "priced_Removed pool n = pool\<lparr>tp_priced := pl_Removed (tp_all pool) (tp_priced pool) n\<rparr>"

definition enter_tx :: "(bytes \<Rightarrow> bytes) \<Rightarrow> TxPool \<Rightarrow> Transaction \<Rightarrow> TxPool option" where
  "enter_tx keccak pool tx = do {
     db \<leftarrow> processCM keccak (tp_CMdb pool) tx;
     Some (pool\<lparr>tp_CMdb := db, tp_all := lk_Add keccak (tp_all pool) tx, tp_priced := pl_Put (tp_priced pool) tx\<rparr>) }"

definition drop_old :: "(bytes \<Rightarrow> bytes) \<Rightarrow> TxPool \<Rightarrow> Transaction option \<Rightarrow> TxPool option" where
  "drop_old keccak pool old =
     (case old of
        None \<Rightarrow> Some pool
      | Some o' \<Rightarrow> do { pool1 \<leftarrow> drop_tx keccak pool o'; Some (priced_Removed pool1 1) })"

text \<open>A loop over a list of transactions; a nil entry panics.\<close>

fun drop_txs :: "(bytes \<Rightarrow> bytes) \<Rightarrow> TxPool \<Rightarrow> Transaction option list \<Rightarrow> TxPool option" where
  "drop_txs keccak pool [] = Some pool"
| "drop_txs keccak pool (None # txs) = None"
| "drop_txs keccak pool (Some tx # txs) = do { pool1 \<leftarrow> drop_tx keccak pool tx; drop_txs keccak pool1 txs }"

definition enqueueTx ::
  "(bytes \<Rightarrow> bytes) \<Rightarrow> sender \<Rightarrow> TxPool \<Rightarrow> bytes \<Rightarrow> Transaction \<Rightarrow> ((pool_error + bool) \<times> TxPool) option" where
  "enqueueTx keccak sender pool hash tx =
     (let from = sender_of sender tx;
          l = (case map_of (tp_queue pool) from of None \<Rightarrow> newTxList False | Some l \<Rightarrow> l);
          (inserted, old, l') = tl_Add l tx (cfg_PriceBump (tp_config pool));
          pool1 = pool\<lparr>tp_queue := AList.update from l' (tp_queue pool)\<rparr>
      in if \<not> inserted then Some (Inl ErrReplaceUnderpriced, pool1)
         else do {
           pool2 \<leftarrow> drop_old keccak pool1 old;
           pool3 \<leftarrow> (if lk_Get (tp_all pool2) hash = None then enter_tx keccak pool2 tx else Some pool2);
           Some (Inr (old \<noteq> None), pool3) })"

fun enqueue_txs :: "(bytes \<Rightarrow> bytes) \<Rightarrow> sender \<Rightarrow> TxPool \<Rightarrow> Transaction option list \<Rightarrow> TxPool option" where
  "enqueue_txs keccak sender pool [] = Some pool"
| "enqueue_txs keccak sender pool (None # txs) = None"
| "enqueue_txs keccak sender pool (Some tx # txs) = do {
     (_, pool1) \<leftarrow> enqueueTx keccak sender pool (tx_Hash keccak tx) tx;
     enqueue_txs keccak sender pool1 txs }"

definition promoteTx ::
  "(bytes \<Rightarrow> bytes) \<Rightarrow> int \<Rightarrow> TxPool \<Rightarrow> address \<Rightarrow> bytes \<Rightarrow> Transaction \<Rightarrow> (bool \<times> TxPool) option" where
  "promoteTx keccak now pool addr hash tx =
     (let l = (case map_of (tp_pending pool) addr of None \<Rightarrow> newTxList True | Some l \<Rightarrow> l);
          (inserted, old, l') = tl_Add l tx (cfg_PriceBump (tp_config pool));
          pool1 = pool\<lparr>tp_pending := AList.update addr l' (tp_pending pool)\<rparr>
      in if \<not> inserted then do {
           db \<leftarrow> reorgCM keccak (tp_CMdb pool1) tx;
           al \<leftarrow> lk_Remove (tp_all pool1) hash;
           Some (False, priced_Removed (pool1\<lparr>tp_CMdb := db, tp_all := al\<rparr>) 1) }
         else do {
           pool2 \<leftarrow> drop_old keccak pool1 old;
           pool3 \<leftarrow> (if lk_Get (tp_all pool2) hash = None then enter_tx keccak pool2 tx else Some pool2);
           Some (True, pool3\<lparr>tp_beats := AList.update addr now (tp_beats pool3),
             tp_pendingNonces := nc_set (tp_pendingNonces pool3) addr (tx_Nonce tx + 1)\<rparr>) })"

subsection \<open>removeTx\<close>

definition set_pending :: "TxPool \<Rightarrow> address \<Rightarrow> txList \<Rightarrow> TxPool" where
  "set_pending pool addr l =
     (if tl_Empty l then pool\<lparr>tp_pending := AList.delete addr (tp_pending pool), tp_beats := AList.delete addr (tp_beats pool)\<rparr>
      else pool\<lparr>tp_pending := AList.update addr l (tp_pending pool)\<rparr>)"

definition set_queue :: "TxPool \<Rightarrow> address \<Rightarrow> txList \<Rightarrow> TxPool" where
  "set_queue pool addr l =
     (if tl_Empty l then pool\<lparr>tp_queue := AList.delete addr (tp_queue pool)\<rparr>
      else pool\<lparr>tp_queue := AList.update addr l (tp_queue pool)\<rparr>)"

definition remove_queued :: "TxPool \<Rightarrow> address \<Rightarrow> Transaction \<Rightarrow> TxPool" where
  "remove_queued pool addr tx =
     (case map_of (tp_queue pool) addr of
        None \<Rightarrow> pool
      | Some future \<Rightarrow> let (removed, _, l) = tl_Remove future tx in set_queue pool addr l)"

definition removeTx :: "(bytes \<Rightarrow> bytes) \<Rightarrow> sender \<Rightarrow> TxPool \<Rightarrow> bytes \<Rightarrow> bool \<Rightarrow> TxPool option" where
  "removeTx keccak sender pool hash outofbound =
     (case lk_Get (tp_all pool) hash of
        None \<Rightarrow> Some pool
      | Some tx \<Rightarrow> do {
          let addr = sender_of sender tx;
          db \<leftarrow> reorgCM keccak (tp_CMdb pool) tx;
          al \<leftarrow> lk_Remove (tp_all pool) hash;
          let pool1 = pool\<lparr>tp_CMdb := db, tp_all := al\<rparr>;
          let pool2 = (if outofbound then priced_Removed pool1 1 else pool1);
          (case map_of (tp_pending pool2) addr of
             None \<Rightarrow> Some (remove_queued pool2 addr tx)
           | Some l \<Rightarrow>
               let (removed, invalids, l') = tl_Remove l tx in
               if \<not> removed then Some (remove_queued pool2 addr tx)
               else do {
                 pool3 \<leftarrow> enqueue_txs keccak sender (set_pending pool2 addr l') (map Some invalids);
                 Some (pool3\<lparr>tp_pendingNonces := nc_setIfLower (tp_pendingNonces pool3) addr (tx_Nonce tx)\<rparr>) }) })"

fun remove_txs :: "(bytes \<Rightarrow> bytes) \<Rightarrow> sender \<Rightarrow> TxPool \<Rightarrow> Transaction list \<Rightarrow> bool \<Rightarrow> TxPool option" where
  "remove_txs keccak sender pool [] oob = Some pool"
| "remove_txs keccak sender pool (tx # txs) oob = do {
     pool1 \<leftarrow> removeTx keccak sender pool (tx_Hash keccak tx) oob;
     remove_txs keccak sender pool1 txs oob }"

subsection \<open>Adding transactions\<close>

text \<open>A full pool refuses an underpriced transaction or makes room for the new one.\<close>

definition make_room ::
  "(bytes \<Rightarrow> bytes) \<Rightarrow> sender \<Rightarrow> TxPool \<Rightarrow> Transaction \<Rightarrow> bool \<Rightarrow> ((pool_error option) \<times> TxPool) option" where
  "make_room keccak sender pool tx local =
     (let limit = cfg_GlobalSlots (tp_config pool) + cfg_GlobalQueue (tp_config pool) in
      if (of_nat (lk_Count (tp_all pool)) :: u64) \<ge> limit then
        let (under, pr) =
          (if local then (False, tp_priced pool)
           else pl_Underpriced keccak sender (tp_all pool) (tp_priced pool) tx (tp_locals pool));
            pool1 = pool\<lparr>tp_priced := pr\<rparr>
        in if under then Some (Some ErrUnderpriced, pool1)
           else do {
             (drops, pr') \<leftarrow> pl_Discard keccak sender (tp_all pool1) (tp_priced pool1)
               (lk_slots (tp_all pool1) - sint limit + int (numSlots tx)) (tp_locals pool1);
             pool2 \<leftarrow> remove_txs keccak sender (pool1\<lparr>tp_priced := pr'\<rparr>) drops False;
             Some (None, pool2) }
      else Some (None, pool))"

text \<open>The last part of \<open>add\<close>: a transaction that replaces no pending one is queued.\<close>

definition add_queued ::
  "(bytes \<Rightarrow> bytes) \<Rightarrow> sender \<Rightarrow> TxPool \<Rightarrow> Transaction \<Rightarrow> bool \<Rightarrow> ((pool_error + bool) \<times> TxPool) option" where
  "add_queued keccak sender pool tx local = do {
     (res, pool1) \<leftarrow> enqueueTx keccak sender pool (tx_Hash keccak tx) tx;
     (case res of
        Inl err \<Rightarrow> Some (Inl err, pool1)
      | Inr replaced \<Rightarrow>
          Some (Inr replaced,
            if local then pool1\<lparr>tp_locals := insert (sender_of sender tx) (tp_locals pool1)\<rparr> else pool1)) }"

definition add_checked ::
  "(bytes \<Rightarrow> bytes) \<Rightarrow> sender \<Rightarrow> TxPool \<Rightarrow> Transaction \<Rightarrow> bool \<Rightarrow> ((pool_error + bool) \<times> TxPool) option" where
  "add_checked keccak sender pool tx local =
     (let from = sender_of sender tx; hash = tx_Hash keccak tx in
      case map_of (tp_pending pool) from of
        Some l \<Rightarrow>
          if tl_Overlaps l tx then
            (let (inserted, old, l') = tl_Add l tx (cfg_PriceBump (tp_config pool)) in
             if \<not> inserted then Some (Inl ErrReplaceUnderpriced, pool)
             else do {
               pool2 \<leftarrow> drop_old keccak (pool\<lparr>tp_pending := AList.update from l' (tp_pending pool)\<rparr>) old;
               pool3 \<leftarrow> enter_tx keccak pool2 tx;
               Some (Inr (old \<noteq> None), pool3) })
          else add_queued keccak sender pool tx local
      | None \<Rightarrow> add_queued keccak sender pool tx local)"

definition pool_add ::
  "(bytes \<Rightarrow> bytes) \<Rightarrow> (bytes \<Rightarrow> bytes) \<Rightarrow> sender \<Rightarrow> TxPool \<Rightarrow> Transaction \<Rightarrow> bool \<Rightarrow> ((pool_error + bool) \<times> TxPool) option" where
  "pool_add keccak sha sender pool tx local =
     (if lk_Get (tp_all pool) (tx_Hash keccak tx) \<noteq> None then Some (Inl ErrAlreadyKnown, pool)
      else case validateCM keccak (tp_CMdb pool) tx of
        Some err \<Rightarrow> Some (Inl err, pool)
      | None \<Rightarrow> do {
          proof_err \<leftarrow> (if tx_ID tx = 1 then validateSign sha pool tx
            else if tx_ID tx = 0 then verifyzkp sha pool tx else Some (Some ErrIDFormat));
          (case proof_err of
             Some err \<Rightarrow> Some (Inl err, pool)
           | None \<Rightarrow>
               (case validateTx sender pool tx local of
                  Some err \<Rightarrow> Some (Inl err, pool)
                | None \<Rightarrow> do {
                    (full, pool1) \<leftarrow> make_room keccak sender pool tx local;
                    (case full of
                       Some err \<Rightarrow> Some (Inl err, pool1)
                     | None \<Rightarrow> add_checked keccak sender pool1 tx local) })) })"

text \<open>\<open>addTxsLocked\<close>: the errors in order, and the accounts with a new transaction.\<close>

fun addTxsLocked ::
  "(bytes \<Rightarrow> bytes) \<Rightarrow> (bytes \<Rightarrow> bytes) \<Rightarrow> sender \<Rightarrow> TxPool \<Rightarrow> Transaction list \<Rightarrow> bool \<Rightarrow>
    (pool_error option list \<times> address list \<times> TxPool) option" where
  "addTxsLocked keccak sha sender pool [] local = Some ([], [], pool)"
| "addTxsLocked keccak sha sender pool (tx # txs) local = do {
     (res, pool1) \<leftarrow> pool_add keccak sha sender pool tx local;
     (errs, dirty, pool2) \<leftarrow> addTxsLocked keccak sha sender pool1 txs local;
     Some ((case res of Inl err \<Rightarrow> Some err | Inr _ \<Rightarrow> None) # errs,
       (if res = Inr False then (case sender tx of None \<Rightarrow> dirty | Some a \<Rightarrow> List.insert a dirty) else dirty), pool2) }"

text \<open>The loop that merges the errors of the new transactions into the slots of all of them.\<close>

function next_nil :: "'e option list \<Rightarrow> nat \<Rightarrow> nat option" where
  "next_nil errs slot =
     (if length errs \<le> slot then None else if errs ! slot = None then Some slot else next_nil errs (Suc slot))"
  by auto
termination
  by (relation "measure (\<lambda>(errs, slot). length errs - slot)") auto

declare next_nil.simps [simp del]

fun merge_errs :: "'e option list \<Rightarrow> nat \<Rightarrow> 'e option list \<Rightarrow> 'e option list option" where
  "merge_errs errs slot [] = Some errs"
| "merge_errs errs slot (err # new) = do {
     slot1 \<leftarrow> next_nil errs slot;
     merge_errs (errs[slot1 := err]) slot1 new }"

definition addTxs ::
  "(bytes \<Rightarrow> bytes) \<Rightarrow> (bytes \<Rightarrow> bytes) \<Rightarrow> sender \<Rightarrow> TxPool \<Rightarrow> Transaction list \<Rightarrow> bool \<Rightarrow>
    (pool_error option list \<times> address list \<times> TxPool) option" where
  "addTxs keccak sha sender pool txs local =
     (let known = (\<lambda>tx. lk_Get (tp_all pool) (tx_Hash keccak tx) \<noteq> None);
          errs = map (\<lambda>tx. if known tx then Some ErrAlreadyKnown else None) txs;
          news = filter (\<lambda>tx. \<not> known tx) txs
      in if news = [] then Some (errs, [], pool)
         else do {
           (newErrs, dirtyAddrs, pool1) \<leftarrow> addTxsLocked keccak sha sender pool news local;
           errs1 \<leftarrow> merge_errs errs 0 newErrs;
           Some (errs1, dirtyAddrs, pool1) })"

subsection \<open>promoteExecutables\<close>

fun promote_txs ::
  "(bytes \<Rightarrow> bytes) \<Rightarrow> int \<Rightarrow> TxPool \<Rightarrow> address \<Rightarrow> Transaction option list \<Rightarrow> (Transaction list \<times> TxPool) option" where
  "promote_txs keccak now pool addr [] = Some ([], pool)"
| "promote_txs keccak now pool addr (None # txs) = None"
| "promote_txs keccak now pool addr (Some tx # txs) = do {
     (ok, pool1) \<leftarrow> promoteTx keccak now pool addr (tx_Hash keccak tx) tx;
     (promoted, pool2) \<leftarrow> promote_txs keccak now pool1 addr txs;
     Some (if ok then tx # promoted else promoted, pool2) }"

text \<open>The queue of a remote account is cut to its limit.\<close>

definition cap_queue ::
  "(bytes \<Rightarrow> bytes) \<Rightarrow> TxPool \<Rightarrow> address \<Rightarrow> txList \<Rightarrow> (Transaction option list \<times> txList \<times> TxPool) option" where
  "cap_queue keccak pool addr l =
     (if addr \<notin> tp_locals pool then do {
        (caps, l') \<leftarrow> tl_Cap l (sint (cfg_AccountQueue (tp_config pool)));
        pool' \<leftarrow> drop_txs keccak pool caps;
        Some (caps, l', pool') }
      else Some ([], l, pool))"

definition promote_account ::
  "(bytes \<Rightarrow> bytes) \<Rightarrow> int \<Rightarrow> TxPool \<Rightarrow> address \<Rightarrow> txList \<Rightarrow> (Transaction list \<times> TxPool) option" where
  "promote_account keccak now pool addr l = do {
     (forwards, l1) \<leftarrow> tl_Forward l (st_GetNonce (tp_currentState pool) addr);
     pool1 \<leftarrow> drop_txs keccak pool forwards;
     let (drops, _, l2) = tl_Filter l1 (st_GetBalance (tp_currentState pool1) addr) (tp_currentMaxGas pool1);
     pool2 \<leftarrow> drop_txs keccak pool1 (map Some drops);
     let (nonce, nc) = nc_get (tp_pendingNonces pool2) addr;
     let (readies, l3) = tl_Ready l2 nonce;
     (promoted, pool3) \<leftarrow> promote_txs keccak now (pool2\<lparr>tp_pendingNonces := nc\<rparr>) addr readies;
     (caps, l4, pool4) \<leftarrow> cap_queue keccak pool3 addr l3;
     let pool5 = priced_Removed pool4 (length forwards + length drops + length caps);
     Some (promoted, set_queue pool5 addr l4) }"

fun promoteExecutables ::
  "(bytes \<Rightarrow> bytes) \<Rightarrow> int \<Rightarrow> TxPool \<Rightarrow> address list \<Rightarrow> (Transaction list \<times> TxPool) option" where
  "promoteExecutables keccak now pool [] = Some ([], pool)"
| "promoteExecutables keccak now pool (addr # accounts) =
     (case map_of (tp_queue pool) addr of
        None \<Rightarrow> promoteExecutables keccak now pool accounts
      | Some l \<Rightarrow> do {
          (promoted, pool1) \<leftarrow> promote_account keccak now pool addr l;
          (more, pool2) \<leftarrow> promoteExecutables keccak now pool1 accounts;
          Some (promoted @ more, pool2) })"

subsection \<open>truncatePending\<close>

text \<open>The number of transactions in the lists of a map, as the code sums it up.\<close>

definition count_txs :: "accounts \<Rightarrow> u64" where
  "count_txs m = fold (\<lambda>(_, l) n. n + of_nat (tl_Len l)) m 0"

fun drop_fair :: "(bytes \<Rightarrow> bytes) \<Rightarrow> TxPool \<Rightarrow> address \<Rightarrow> Transaction option list \<Rightarrow> TxPool option" where
  "drop_fair keccak pool addr [] = Some pool"
| "drop_fair keccak pool addr (None # txs) = None"
| "drop_fair keccak pool addr (Some tx # txs) = do {
     pool1 \<leftarrow> drop_tx keccak pool tx;
     drop_fair keccak (pool1\<lparr>tp_pendingNonces := nc_setIfLower (tp_pendingNonces pool1) addr (tx_Nonce tx)\<rparr>) addr txs }"

text \<open>One transaction less for each of the accounts: the body of both inner loops.\<close>

definition cap_one :: "(bytes \<Rightarrow> bytes) \<Rightarrow> TxPool \<Rightarrow> address \<Rightarrow> TxPool option" where
  "cap_one keccak pool addr =
     (case map_of (tp_pending pool) addr of
        None \<Rightarrow> None
      | Some l \<Rightarrow> do {
          (caps, l') \<leftarrow> tl_Cap l (int (tl_Len l) - 1);
          pool1 \<leftarrow> drop_fair keccak (pool\<lparr>tp_pending := AList.update addr l' (tp_pending pool)\<rparr>) addr caps;
          Some (priced_Removed pool1 (length caps)) })"

fun cap_each :: "(bytes \<Rightarrow> bytes) \<Rightarrow> TxPool \<Rightarrow> u64 \<Rightarrow> address list \<Rightarrow> (u64 \<times> TxPool) option" where
  "cap_each keccak pool pending [] = Some (pending, pool)"
| "cap_each keccak pool pending (addr # addrs) = do {
     pool1 \<leftarrow> cap_one keccak pool addr;
     cap_each keccak pool1 (pending - 1) addrs }"

text \<open>
  Both inner loops: while there are too many pending transactions and the list of \<open>watch\<close> is longer
  than the threshold, every account in \<open>addrs\<close> loses one.
\<close>

partial_function (option) equalize ::
  "(bytes \<Rightarrow> bytes) \<Rightarrow> TxPool \<Rightarrow> u64 \<Rightarrow> address \<Rightarrow> int \<Rightarrow> address list \<Rightarrow> (u64 \<times> TxPool) option" where
  "equalize keccak pool pending watch threshold addrs =
     (if pending > cfg_GlobalSlots (tp_config pool) then
        (case map_of (tp_pending pool) watch of
           None \<Rightarrow> None
         | Some l \<Rightarrow>
             if int (tl_Len l) > threshold then do {
               (pending1, pool1) \<leftarrow> cap_each keccak pool pending addrs;
               equalize keccak pool1 pending1 watch threshold addrs }
             else Some (pending, pool))
      else Some (pending, pool))"

definition spam_order :: "TxPool \<Rightarrow> address item list" where
  "spam_order pool =
     fold (\<lambda>(addr, l) spammers.
         if addr \<notin> tp_locals pool \<and> int (tl_Len l) > uint (cfg_AccountSlots (tp_config pool))
         then prque_Push spammers addr (int (tl_Len l)) else spammers)
       (tp_pending pool) prque_New"

partial_function (option) offenders_loop ::
  "(bytes \<Rightarrow> bytes) \<Rightarrow> TxPool \<Rightarrow> u64 \<Rightarrow> address item list \<Rightarrow> address list \<Rightarrow> (u64 \<times> address list \<times> TxPool) option" where
  "offenders_loop keccak pool pending spammers offenders =
     (if pending > cfg_GlobalSlots (tp_config pool) \<and> \<not> prque_Empty spammers then do {
        ((offender, _), spammers1) \<leftarrow> prque_Pop spammers;
        (if offenders \<noteq> [] then
           (case map_of (tp_pending pool) offender of
              None \<Rightarrow> None
            | Some l \<Rightarrow> do {
                (pending1, pool1) \<leftarrow> equalize keccak pool pending (List.last offenders) (int (tl_Len l)) offenders;
                offenders_loop keccak pool1 pending1 spammers1 (offenders @ [offender]) })
         else offenders_loop keccak pool pending spammers1 [offender]) }
      else Some (pending, offenders, pool))"

definition truncatePending :: "(bytes \<Rightarrow> bytes) \<Rightarrow> TxPool \<Rightarrow> TxPool option" where
  "truncatePending keccak pool =
     (let pending = count_txs (tp_pending pool) in
      if pending \<le> cfg_GlobalSlots (tp_config pool) then Some pool
      else do {
        (pending1, offenders, pool1) \<leftarrow> offenders_loop keccak pool pending (spam_order pool) [];
        (if pending1 > cfg_GlobalSlots (tp_config pool1) \<and> offenders \<noteq> [] then do {
           (_, pool2) \<leftarrow> equalize keccak pool1 pending1 (List.last offenders) (uint (cfg_AccountSlots (tp_config pool1))) offenders;
           Some pool2 }
         else Some pool1) })"

subsection \<open>truncateQueue\<close>

text \<open>The accounts that may be cut, by heartbeat; a missing heartbeat is the zero time.\<close>

definition by_heartbeat :: "TxPool \<Rightarrow> address list" where
  "by_heartbeat pool =
     map fst (sort_key snd
       (map (\<lambda>addr. (addr, case map_of (tp_beats pool) addr of None \<Rightarrow> 0 | Some t \<Rightarrow> t))
         (filter (\<lambda>addr. addr \<notin> tp_locals pool) (map fst (tp_queue pool)))))"

text \<open>Drop the last transactions of a list, at most \<open>drops\<close> of them.\<close>

fun drop_last :: "(bytes \<Rightarrow> bytes) \<Rightarrow> sender \<Rightarrow> TxPool \<Rightarrow> u64 \<Rightarrow> Transaction list \<Rightarrow> (u64 \<times> TxPool) option" where
  "drop_last keccak sender pool drops [] = Some (drops, pool)"
| "drop_last keccak sender pool drops (tx # txs) =
     (if drops > 0 then do {
        pool1 \<leftarrow> removeTx keccak sender pool (tx_Hash keccak tx) True;
        drop_last keccak sender pool1 (drops - 1) txs }
      else Some (drops, pool))"

fun truncate_accounts :: "(bytes \<Rightarrow> bytes) \<Rightarrow> sender \<Rightarrow> TxPool \<Rightarrow> u64 \<Rightarrow> address list \<Rightarrow> TxPool option" where
  "truncate_accounts keccak sender pool drops [] = Some pool"
| "truncate_accounts keccak sender pool drops (addr # addrs) =
     (if drops > 0 then
        (case map_of (tp_queue pool) addr of
           None \<Rightarrow> None
         | Some l \<Rightarrow>
             let (txs, l') = tl_Flatten l;
                 pool1 = pool\<lparr>tp_queue := AList.update addr l' (tp_queue pool)\<rparr>;
                 sz = (of_nat (tl_Len l) :: u64)
             in if sz \<le> drops then do {
                  pool2 \<leftarrow> remove_txs keccak sender pool1 txs True;
                  truncate_accounts keccak sender pool2 (drops - sz) addrs }
                else do {
                  (drops1, pool2) \<leftarrow> drop_last keccak sender pool1 drops (rev txs);
                  truncate_accounts keccak sender pool2 drops1 addrs })
      else Some pool)"

definition truncateQueue :: "(bytes \<Rightarrow> bytes) \<Rightarrow> sender \<Rightarrow> TxPool \<Rightarrow> TxPool option" where
  "truncateQueue keccak sender pool =
     (let queued = count_txs (tp_queue pool) in
      if queued \<le> cfg_GlobalQueue (tp_config pool) then Some pool
      else truncate_accounts keccak sender pool (queued - cfg_GlobalQueue (tp_config pool)) (rev (by_heartbeat pool)))"

subsection \<open>demoteUnexecutables\<close>

text \<open>Transactions below the account's nonce leave the lookup; their commitments stay as they are.\<close>

fun forget_txs :: "(bytes \<Rightarrow> bytes) \<Rightarrow> TxPool \<Rightarrow> Transaction option list \<Rightarrow> TxPool option" where
  "forget_txs keccak pool [] = Some pool"
| "forget_txs keccak pool (None # txs) = None"
| "forget_txs keccak pool (Some tx # txs) = do {
     al \<leftarrow> lk_Remove (tp_all pool) (tx_Hash keccak tx);
     forget_txs keccak (pool\<lparr>tp_all := al\<rparr>) txs }"

text \<open>A list whose first transaction is missing goes back to the queue.\<close>

definition requeue_gapped ::
  "(bytes \<Rightarrow> bytes) \<Rightarrow> sender \<Rightarrow> TxPool \<Rightarrow> txList \<Rightarrow> u64 \<Rightarrow> (txList \<times> TxPool) option" where
  "requeue_gapped keccak sender pool l nonce =
     (if 0 < tl_Len l \<and> sm_Get (tl_txs l) nonce = None then do {
        (gapped, l') \<leftarrow> tl_Cap l 0;
        pool' \<leftarrow> enqueue_txs keccak sender pool gapped;
        Some (l', pool') }
      else Some (l, pool))"

definition demote_account :: "(bytes \<Rightarrow> bytes) \<Rightarrow> sender \<Rightarrow> TxPool \<Rightarrow> address \<Rightarrow> txList \<Rightarrow> TxPool option" where
  "demote_account keccak sender pool addr l = do {
     let nonce = st_GetNonce (tp_currentState pool) addr;
     (olds, l1) \<leftarrow> tl_Forward l nonce;
     pool1 \<leftarrow> forget_txs keccak pool olds;
     let (drops, invalids, l2) = tl_Filter l1 (st_GetBalance (tp_currentState pool1) addr) (tp_currentMaxGas pool1);
     pool2 \<leftarrow> drop_txs keccak pool1 (map Some drops);
     let pool3 = priced_Removed pool2 (length olds + length drops);
     pool4 \<leftarrow> enqueue_txs keccak sender pool3 (map Some invalids);
     (l3, pool5) \<leftarrow> requeue_gapped keccak sender pool4 l2 nonce;
     Some (set_pending pool5 addr l3) }"

text \<open>The loop ranges over the accounts that are pending at its start; it deletes only the current one.\<close>

fun demote_accounts :: "(bytes \<Rightarrow> bytes) \<Rightarrow> sender \<Rightarrow> TxPool \<Rightarrow> address list \<Rightarrow> TxPool option" where
  "demote_accounts keccak sender pool [] = Some pool"
| "demote_accounts keccak sender pool (addr # addrs) =
     (case map_of (tp_pending pool) addr of
        None \<Rightarrow> demote_accounts keccak sender pool addrs
      | Some l \<Rightarrow> do {
          pool1 \<leftarrow> demote_account keccak sender pool addr l;
          demote_accounts keccak sender pool1 addrs })"

definition demoteUnexecutables :: "(bytes \<Rightarrow> bytes) \<Rightarrow> sender \<Rightarrow> TxPool \<Rightarrow> TxPool option" where
  "demoteUnexecutables keccak sender pool = demote_accounts keccak sender pool (map fst (tp_pending pool))"

subsection \<open>reset\<close>

text \<open>
  What the pool reads of the chain: headers with their hash, blocks, the state at a root and the block
  from which Istanbul rules hold.
\<close>

record Header =
  hd_Hash :: bytes
  hd_ParentHash :: bytes
  hd_Number :: int
  hd_Root :: bytes
  hd_GasLimit :: u64

record Block =
  bl_Header :: Header
  bl_Transactions :: "Transaction list"

record Chain =
  ch_GetBlock :: "bytes \<Rightarrow> u64 \<Rightarrow> Block option"
  ch_CurrentHeader :: Header
  ch_StateAt :: "bytes \<Rightarrow> StateView option"
  ch_IsIstanbul :: "int \<Rightarrow> bool"

definition NumberU64 :: "Block \<Rightarrow> u64" where
  "NumberU64 b = big_Uint64 (hd_Number (bl_Header b))"

definition parent_block :: "Chain \<Rightarrow> Block \<Rightarrow> Block option" where
  "parent_block chain b = ch_GetBlock chain (hd_ParentHash (bl_Header b)) (NumberU64 b - 1)"

text \<open>
  The three loops that walk back to the common ancestor. The inner \<open>None\<close> stands for an unrooted
  chain, where \<open>reset\<close> returns at once; the outer one for a loop that does not end.
\<close>

partial_function (option) walk_down ::
  "Chain \<Rightarrow> Block \<Rightarrow> u64 \<Rightarrow> Transaction list \<Rightarrow> (Transaction list \<times> Block) option option" where
  "walk_down chain b n txs =
     (if NumberU64 b > n then
        (case parent_block chain b of
           None \<Rightarrow> Some None
         | Some b' \<Rightarrow> walk_down chain b' n (txs @ bl_Transactions b))
      else Some (Some (txs, b)))"

partial_function (option) walk_both ::
  "Chain \<Rightarrow> Block \<Rightarrow> Block \<Rightarrow> Transaction list \<Rightarrow> Transaction list \<Rightarrow> (Transaction list \<times> Transaction list) option option" where
  "walk_both chain rem ad discarded included =
     (if hd_Hash (bl_Header rem) \<noteq> hd_Hash (bl_Header ad) then
        (case parent_block chain rem of
           None \<Rightarrow> Some None
         | Some rem' \<Rightarrow>
             (case parent_block chain ad of
                None \<Rightarrow> Some None
              | Some ad' \<Rightarrow>
                  walk_both chain rem' ad' (discarded @ bl_Transactions rem) (included @ bl_Transactions ad)))
      else Some (Some (discarded, included)))"

text \<open>The transactions to reinject; the inner \<open>None\<close> makes \<open>reset\<close> return without effect.\<close>

definition reinject_txs ::
  "(bytes \<Rightarrow> bytes) \<Rightarrow> Chain \<Rightarrow> Header option \<Rightarrow> Header \<Rightarrow> Transaction list option option" where
  "reinject_txs keccak chain oldHead newHead =
     (case oldHead of
        None \<Rightarrow> Some (Some [])
      | Some old \<Rightarrow>
          if hd_Hash old = hd_ParentHash newHead then Some (Some [])
          else
            let oldNum = big_Uint64 (hd_Number old); newNum = big_Uint64 (hd_Number newHead) in
            if \<bar>uint oldNum - uint newNum\<bar> > 64 then Some (Some [])
            else (case ch_GetBlock chain (hd_Hash old) oldNum of
                None \<Rightarrow> Some None
              | Some rem \<Rightarrow>
                  (case ch_GetBlock chain (hd_Hash newHead) newNum of
                     None \<Rightarrow> None
                   | Some ad \<Rightarrow> do {
                       r1 \<leftarrow> walk_down chain rem (NumberU64 ad) [];
                       (case r1 of None \<Rightarrow> Some None
                        | Some (discarded, rem1) \<Rightarrow> do {
                            r2 \<leftarrow> walk_down chain ad (NumberU64 rem1) [];
                            (case r2 of None \<Rightarrow> Some None
                             | Some (included, ad1) \<Rightarrow> do {
                                 r3 \<leftarrow> walk_both chain rem1 ad1 discarded included;
                                 Some (map_option (\<lambda>(d, i). TxDifference keccak d i) r3) }) }) })))"

definition reset_state ::
  "(bytes \<Rightarrow> bytes) \<Rightarrow> (bytes \<Rightarrow> bytes) \<Rightarrow> sender \<Rightarrow> Chain \<Rightarrow> TxPool \<Rightarrow> Header \<Rightarrow> Transaction list \<Rightarrow> TxPool option" where
  "reset_state keccak sha sender chain pool newHead reinject =
     (case ch_StateAt chain (hd_Root newHead) of
        None \<Rightarrow> Some pool
      | Some statedb \<Rightarrow> do {
          (_, _, pool1) \<leftarrow> addTxsLocked keccak sha sender
            (pool\<lparr>tp_currentState := statedb, tp_pendingNonces := newTxNoncer statedb,
              tp_currentMaxGas := hd_GasLimit newHead\<rparr>) reinject False;
          Some (pool1\<lparr>tp_istanbul := ch_IsIstanbul chain (hd_Number newHead + 1)\<rparr>) })"

definition pool_reset ::
  "(bytes \<Rightarrow> bytes) \<Rightarrow> (bytes \<Rightarrow> bytes) \<Rightarrow> sender \<Rightarrow> Chain \<Rightarrow> TxPool \<Rightarrow> Header option \<Rightarrow> Header option \<Rightarrow> TxPool option" where
  "pool_reset keccak sha sender chain pool oldHead newHead =
     (case newHead of
        None \<Rightarrow>
          if oldHead \<noteq> None then None
          else reset_state keccak sha sender chain pool (ch_CurrentHeader chain) []
      | Some head \<Rightarrow> do {
          r \<leftarrow> reinject_txs keccak chain oldHead head;
          (case r of
             None \<Rightarrow> Some pool
           | Some reinject \<Rightarrow> reset_state keccak sha sender chain pool head reinject) })"

subsection \<open>The reorganisation run and the other entry points\<close>

type_synonym events = "(address \<times> txSortedMap) list"

text \<open>Events of transactions that a reset has made stale are dropped.\<close>

fun forward_events :: "TxPool \<Rightarrow> events \<Rightarrow> (events \<times> TxPool) option" where
  "forward_events pool [] = Some ([], pool)"
| "forward_events pool ((addr, m) # evs) = do {
     let (nonce, nc) = nc_get (tp_pendingNonces pool) addr;
     (_, m') \<leftarrow> sm_Forward m nonce;
     (evs', pool') \<leftarrow> forward_events (pool\<lparr>tp_pendingNonces := nc\<rparr>) evs;
     Some (if sm_Len m' = 0 then evs' else (addr, m') # evs', pool') }"

definition put_event :: "sender \<Rightarrow> Transaction \<Rightarrow> events \<Rightarrow> events" where
  "put_event sender tx evs =
     (let addr = sender_of sender tx;
          m = (case map_of evs addr of None \<Rightarrow> newTxSortedMap | Some m \<Rightarrow> m)
      in AList.update addr (sm_Put m tx) evs)"

text \<open>The pending nonce of every account follows its last pending transaction.\<close>

fun update_nonces :: "TxPool \<Rightarrow> accounts \<Rightarrow> TxPool option" where
  "update_nonces pool [] = Some pool"
| "update_nonces pool ((addr, l) # ls) =
     (let (txs, l') = tl_Flatten l in
      if txs = [] then None
      else update_nonces (pool\<lparr>tp_pending := AList.update addr l' (tp_pending pool),
        tp_pendingNonces := nc_set (tp_pendingNonces pool) addr (tx_Nonce (List.last txs) + 1)\<rparr>) ls)"

text \<open>The transactions it returns are the ones announced on the feed.\<close>

definition runReorg ::
  "(bytes \<Rightarrow> bytes) \<Rightarrow> (bytes \<Rightarrow> bytes) \<Rightarrow> sender \<Rightarrow> Chain \<Rightarrow> int \<Rightarrow> TxPool \<Rightarrow> (Header option \<times> Header option) option \<Rightarrow>
    address list \<Rightarrow> events \<Rightarrow> (Transaction list \<times> TxPool) option" where
  "runReorg keccak sha sender chain now pool reset dirtyAccounts evs = do {
     (evs1, promoteAddrs, pool1) \<leftarrow>
       (case reset of
          None \<Rightarrow> Some (evs, dirtyAccounts, pool)
        | Some (oldHead, newHead) \<Rightarrow> do {
            p \<leftarrow> pool_reset keccak sha sender chain pool oldHead newHead;
            (evs1, p1) \<leftarrow> forward_events p evs;
            Some (evs1, map fst (tp_queue p1), p1) });
     (promoted, pool2) \<leftarrow> promoteExecutables keccak now pool1 promoteAddrs;
     let evs2 = fold (put_event sender) promoted evs1;
     pool3 \<leftarrow> (if reset \<noteq> None then demoteUnexecutables keccak sender pool2 else Some pool2);
     pool4 \<leftarrow> truncatePending keccak pool3;
     pool5 \<leftarrow> truncateQueue keccak sender pool4;
     pool6 \<leftarrow> update_nonces pool5 (tp_pending pool5);
     Some (concat (map (\<lambda>(_, m). fst (sm_Flatten m)) evs2), pool6) }"

definition SetGasPrice :: "(bytes \<Rightarrow> bytes) \<Rightarrow> sender \<Rightarrow> TxPool \<Rightarrow> int \<Rightarrow> TxPool option" where
  "SetGasPrice keccak sender pool price =
     (let (drops, pr) = pl_Cap keccak sender (tp_all pool) (tp_priced pool) price (tp_locals pool)
      in remove_txs keccak sender (pool\<lparr>tp_gasPrice := price, tp_priced := pr\<rparr>) drops False)"

text \<open>The eviction tick of \<open>loop\<close>: remote accounts whose heartbeat is too old lose their queue.\<close>

fun evict_accounts :: "(bytes \<Rightarrow> bytes) \<Rightarrow> sender \<Rightarrow> int \<Rightarrow> TxPool \<Rightarrow> address list \<Rightarrow> TxPool option" where
  "evict_accounts keccak sender now pool [] = Some pool"
| "evict_accounts keccak sender now pool (addr # addrs) =
     (case map_of (tp_queue pool) addr of
        None \<Rightarrow> evict_accounts keccak sender now pool addrs
      | Some l \<Rightarrow>
          if addr \<in> tp_locals pool then evict_accounts keccak sender now pool addrs
          else if now - (case map_of (tp_beats pool) addr of None \<Rightarrow> 0 | Some t \<Rightarrow> t) > cfg_Lifetime (tp_config pool) then
            (let (txs, l') = tl_Flatten l in do {
               pool1 \<leftarrow> remove_txs keccak sender (pool\<lparr>tp_queue := AList.update addr l' (tp_queue pool)\<rparr>) txs True;
               evict_accounts keccak sender now pool1 addrs })
          else evict_accounts keccak sender now pool addrs)"

definition evict_tick :: "(bytes \<Rightarrow> bytes) \<Rightarrow> sender \<Rightarrow> int \<Rightarrow> TxPool \<Rightarrow> TxPool option" where
  "evict_tick keccak sender now pool = evict_accounts keccak sender now pool (map fst (tp_queue pool))"

text \<open>A new pool before its journal is loaded.\<close>

definition NewTxPool ::
  "(bytes \<Rightarrow> bytes) \<Rightarrow> (bytes \<Rightarrow> bytes) \<Rightarrow> sender \<Rightarrow> Chain \<Rightarrow> StateView \<Rightarrow> TxPoolConfig \<Rightarrow> cmdb \<Rightarrow> TxPool option" where
  "NewTxPool keccak sha sender chain nostate config CMdb =
     (let conf = sanitize config;
          pool = \<lparr>tp_config = conf, tp_gasPrice = uint (cfg_PriceLimit conf), tp_istanbul = False,
            tp_currentState = nostate, tp_pendingNonces = newTxNoncer nostate, tp_currentMaxGas = 0,
            tp_locals = set (cfg_Locals conf), tp_pending = [], tp_queue = [], tp_beats = [],
            tp_all = newTxLookup, tp_priced = newTxPricedList, tp_CMdb = CMdb\<rparr>
      in pool_reset keccak sha sender chain pool None (Some (ch_CurrentHeader chain)))"

subsection \<open>Queries\<close>

definition pool_Nonce :: "TxPool \<Rightarrow> address \<Rightarrow> u64 \<times> TxPool" where
  "pool_Nonce pool addr =
     (let (n, nc) = nc_get (tp_pendingNonces pool) addr in (n, pool\<lparr>tp_pendingNonces := nc\<rparr>))"

definition pool_Stats :: "TxPool \<Rightarrow> nat \<times> nat" where
  "pool_Stats pool =
     (sum_list (map (tl_Len \<circ> snd) (tp_pending pool)), sum_list (map (tl_Len \<circ> snd) (tp_queue pool)))"

definition flatten_accounts :: "accounts \<Rightarrow> (address \<times> Transaction list) list \<times> accounts" where
  "flatten_accounts m =
     (map (\<lambda>(a, l). (a, fst (tl_Flatten l))) m, map (\<lambda>(a, l). (a, snd (tl_Flatten l))) m)"

definition pool_Pending :: "TxPool \<Rightarrow> (address \<times> Transaction list) list \<times> TxPool" where
  "pool_Pending pool = (let (r, m) = flatten_accounts (tp_pending pool) in (r, pool\<lparr>tp_pending := m\<rparr>))"

definition pool_Content ::
  "TxPool \<Rightarrow> ((address \<times> Transaction list) list \<times> (address \<times> Transaction list) list) \<times> TxPool" where
  "pool_Content pool =
     (let (p, m) = flatten_accounts (tp_pending pool); (q, k) = flatten_accounts (tp_queue pool)
      in ((p, q), pool\<lparr>tp_pending := m, tp_queue := k\<rparr>))"

datatype TxStatus = TxStatusUnknown | TxStatusQueued | TxStatusPending | TxStatusIncluded

definition tx_status :: "sender \<Rightarrow> TxPool \<Rightarrow> bytes \<Rightarrow> TxStatus" where
  "tx_status sender pool hash =
     (case lk_Get (tp_all pool) hash of
        None \<Rightarrow> TxStatusUnknown
      | Some tx \<Rightarrow>
          let from = sender_of sender tx;
              holds = (\<lambda>m. case map_of m from of None \<Rightarrow> False
                | Some l \<Rightarrow> map_of (sm_items (tl_txs l)) (tx_Nonce tx) \<noteq> None)
          in if holds (tp_pending pool) then TxStatusPending
             else if holds (tp_queue pool) then TxStatusQueued else TxStatusUnknown)"

definition pool_Status :: "sender \<Rightarrow> TxPool \<Rightarrow> bytes list \<Rightarrow> TxStatus list" where
  "pool_Status sender pool hashes = map (tx_status sender pool) hashes"

end
