(* ===== verification/Pool_Lists.thy ===== *)
theory Pool_Lists
  imports Tx_Pool
begin

text \<open>
  The lists of the pool as sets of transactions: what every operation of \<open>txList\<close> does to the set, and
  the invariant of the maps from accounts to lists. An account's list holds only transactions of
  that account, at most one per nonce, and is never empty.
\<close>

section \<open>txList\<close>

definition txs_of :: "txList \<Rightarrow> Transaction list" where
  "txs_of l = sorted_txs (tl_txs l)"

text \<open>The caps bound the cost and the gas of every transaction of the list.\<close>

definition tl_ok :: "txList \<Rightarrow> bool" where
  "tl_ok l \<longleftrightarrow> sm_ok (tl_txs l) \<and> (\<forall>tx \<in> set (txs_of l). tx_Cost tx \<le> tl_costcap l \<and> tx_Gas tx \<le> tl_gascap l)"

lemma sorted_txs_of: "tl_ok l \<Longrightarrow> sorted_wrt nonce_lt (txs_of l)"
  by (simp add: tl_ok_def txs_of_def sorted_txs_def sm_ok_def index_ok_def sorted_wrt_sorted_items)

lemma sorted_wrt_nonce_distinct: "sorted_wrt nonce_lt xs \<Longrightarrow> distinct (map tx_Nonce xs)"
proof -
  assume "sorted_wrt nonce_lt xs"
  then have "sorted_wrt (<) (map tx_Nonce xs)" by (simp only: sorted_wrt_map)
  then show ?thesis by (simp only: strict_sorted_iff)
qed

lemma sorted_wrt_nonce_inj:
  "sorted_wrt nonce_lt xs \<Longrightarrow> x \<in> set xs \<Longrightarrow> y \<in> set xs \<Longrightarrow> tx_Nonce x = tx_Nonce y \<Longrightarrow> x = y"
  by (blast dest: sorted_wrt_nonce_distinct [unfolded distinct_map] inj_onD)

lemma tl_nonce_inj:
  "tl_ok l \<Longrightarrow> x \<in> set (txs_of l) \<Longrightarrow> y \<in> set (txs_of l) \<Longrightarrow> tx_Nonce x = tx_Nonce y \<Longrightarrow> x = y"
  using sorted_wrt_nonce_inj [OF sorted_txs_of] by blast

lemma distinct_txs_of: "tl_ok l \<Longrightarrow> distinct (txs_of l)"
  using sorted_wrt_nonce_distinct [OF sorted_txs_of] by (simp only: distinct_map)

lemma tl_ok_new [simp]: "tl_ok (newTxList b)" "txs_of (newTxList b) = []" "tl_strict (newTxList b) = b"
  by (simp_all add: tl_ok_def txs_of_def newTxList_def)

lemma set_txs_of: "set (txs_of l) = snd ` set (sm_items (tl_txs l))"
  by (simp add: txs_of_def sorted_txs_def)

lemma tl_ok_items: "tl_ok l \<Longrightarrow> items_ok (sm_items (tl_txs l))"
  by (simp add: tl_ok_def sm_ok_def index_ok_def)

lemma tl_Get:
  assumes "tl_ok l"
  shows "sm_Get (tl_txs l) n = Some tx \<longleftrightarrow> tx \<in> set (txs_of l) \<and> tx_Nonce tx = n"
    and "sm_Get (tl_txs l) n = None \<longleftrightarrow> (\<forall>x \<in> set (txs_of l). tx_Nonce x \<noteq> n)"
  unfolding sm_Get_def set_txs_of by (rule map_of_items map_of_items_None; rule tl_ok_items [OF assms])+

lemma tl_Overlaps: "tl_ok l \<Longrightarrow> tl_Overlaps l tx \<longleftrightarrow> (\<exists>x \<in> set (txs_of l). tx_Nonce x = tx_Nonce tx)"
  using tl_Get(2) by (auto simp: tl_Overlaps_def)

lemma tl_Len_length: "tl_Len l = length (txs_of l)"
  by (simp add: tl_Len_def sm_Len_def txs_of_def sorted_txs_def)

lemma tl_Empty_iff: "tl_Empty l \<longleftrightarrow> txs_of l = []"
  by (simp add: tl_Empty_def tl_Len_length)

lemma tl_Add_spec:
  assumes "tl_ok l" and "tl_Add l tx pb = (ins, old, l')"
  shows "\<not> ins \<Longrightarrow> l' = l \<and> old = None \<and> (\<exists>x \<in> set (txs_of l). tx_Nonce x = tx_Nonce tx)"
    and "ins \<Longrightarrow> tl_ok l' \<and> tl_strict l' = tl_strict l \<and>
      set (txs_of l') = insert tx {x \<in> set (txs_of l). tx_Nonce x \<noteq> tx_Nonce tx} \<and>
      old = sm_Get (tl_txs l) (tx_Nonce tx)"
proof -
  have sm: "sm_ok (tl_txs l)" using assms(1) by (simp add: tl_ok_def)
  show "\<not> ins \<Longrightarrow> l' = l \<and> old = None \<and> (\<exists>x \<in> set (txs_of l). tx_Nonce x = tx_Nonce tx)"
    using assms(2) tl_Get(1) [OF assms(1)] by (auto simp: tl_Add_def Let_def split: if_splits option.splits)
  assume ins
  then have old: "old = sm_Get (tl_txs l) (tx_Nonce tx)" and
    l': "l' = l\<lparr>tl_txs := sm_Put (tl_txs l) tx, tl_costcap := max (tl_costcap l) (tx_Cost tx),
        tl_gascap := max (tl_gascap l) (tx_Gas tx)\<rparr>"
    using assms(2) by (auto simp: tl_Add_def Let_def split: if_splits)
  have st: "set (txs_of l') = insert tx {x \<in> set (txs_of l). tx_Nonce x \<noteq> tx_Nonce tx}"
    using sm_Put_spec(2) [OF sm, of tx] by (auto simp: l' txs_of_def set_insort_key)
  have "tl_ok l'" using assms(1) sm_Put_spec(1) [OF sm, of tx] st by (auto simp: tl_ok_def l' le_max_iff_disj)
  with old st show "tl_ok l' \<and> tl_strict l' = tl_strict l \<and>
      set (txs_of l') = insert tx {x \<in> set (txs_of l). tx_Nonce x \<noteq> tx_Nonce tx} \<and> old = sm_Get (tl_txs l) (tx_Nonce tx)"
    by (simp add: l')
qed

lemma tl_ok_sub:
  "tl_ok l \<Longrightarrow> sm_ok m \<Longrightarrow> set (sorted_txs m) \<subseteq> set (txs_of l) \<Longrightarrow> tl_ok (l\<lparr>tl_txs := m\<rparr>)"
  by (auto simp: tl_ok_def txs_of_def)

lemma sorted_takeWhile_set:
  "sorted_wrt nonce_lt xs \<Longrightarrow> set (takeWhile (\<lambda>tx. tx_Nonce tx < n) xs) = {tx \<in> set xs. tx_Nonce tx < n}"
  by (induction xs) (auto dest: less_trans)

lemma sorted_dropWhile_set:
  "sorted_wrt nonce_lt xs \<Longrightarrow> set (dropWhile (\<lambda>tx. tx_Nonce tx < n) xs) = {tx \<in> set xs. \<not> tx_Nonce tx < n}"
  by (induction xs) (auto dest: less_trans)

lemma tl_Forward_spec:
  assumes "tl_ok l"
  obtains rs l' where "tl_Forward l n = Some (map Some rs, l')" and "distinct rs"
    and "set rs = {tx \<in> set (txs_of l). tx_Nonce tx < n}" and "tl_ok l'" and "tl_strict l' = tl_strict l"
    and "set (txs_of l') = {tx \<in> set (txs_of l). \<not> tx_Nonce tx < n}"
proof -
  have sm: "sm_ok (tl_txs l)" using assms by (simp add: tl_ok_def)
  let ?rs = "takeWhile (\<lambda>tx. tx_Nonce tx < n) (txs_of l)"
  obtain m where m: "sm_Forward (tl_txs l) n = Some (map Some ?rs, m)" "sm_ok m"
      "sorted_txs m = dropWhile (\<lambda>tx. tx_Nonce tx < n) (txs_of l)"
    using sm_Forward_spec [OF sm, of n] by (auto simp: txs_of_def)
  have st: "set (sorted_txs m) = {tx \<in> set (txs_of l). \<not> tx_Nonce tx < n}"
    using sorted_dropWhile_set [OF sorted_txs_of [OF assms]] m(3) by simp
  show thesis
    by (rule that [of ?rs "l\<lparr>tl_txs := m\<rparr>"])
      (use m st sorted_takeWhile_set [OF sorted_txs_of [OF assms], of n] tl_ok_sub [OF assms m(2)] distinct_txs_of [OF assms] in
        \<open>simp_all add: tl_Forward_def distinct_takeWhile txs_of_def\<close>)
qed

lemma tl_Cap_spec:
  assumes "tl_ok l" and "0 \<le> t"
  obtains l' where "tl_Cap l t = Some (map Some (rev (drop (nat t) (txs_of l))), l')" and "tl_ok l'"
    and "tl_strict l' = tl_strict l" and "txs_of l' = take (nat t) (txs_of l)"
proof -
  have sm: "sm_ok (tl_txs l)" using assms by (simp add: tl_ok_def)
  obtain m where m: "sm_Cap (tl_txs l) t = Some (map Some (rev (drop (nat t) (txs_of l))), m)" "sm_ok m"
      "sorted_txs m = take (nat t) (txs_of l)"
    using sm_Cap_spec [OF sm assms(2)] by (auto simp: txs_of_def)
  have "tl_ok (l\<lparr>tl_txs := m\<rparr>)" using m(3) by (intro tl_ok_sub [OF assms(1) m(2)]) (simp add: set_take_subset)
  then show thesis using m by (intro that [of "l\<lparr>tl_txs := m\<rparr>"]) (simp_all add: tl_Cap_def txs_of_def)
qed

lemma tl_Ready_spec:
  assumes "tl_ok l"
  obtains rs l' where "tl_Ready l n = (map Some rs, l')" and "tl_ok l'" and "tl_strict l' = tl_strict l"
    and "txs_of l = rs @ txs_of l'" and "rs = ready_of n (txs_of l)"
proof -
  have sm: "sm_ok (tl_txs l)" using assms by (simp add: tl_ok_def)
  let ?rs = "ready_of n (txs_of l)"
  have pre: "run k xs @ drop (length (run k xs)) xs = xs" for k xs
    by (induction k xs rule: run.induct) auto
  have app: "?rs @ drop (length ?rs) (txs_of l) = txs_of l"
    by (cases "txs_of l") (use pre in \<open>auto simp: ready_of_def\<close>)
  obtain r m where r: "sm_Ready (tl_txs l) n = (r, m)" by fastforce
  then have m: "r = map Some ?rs" "sm_ok m" "sorted_txs m = drop (length ?rs) (txs_of l)"
    using sm_Ready_spec [OF sm, of n] by (simp_all add: txs_of_def)
  have "tl_ok (l\<lparr>tl_txs := m\<rparr>)" using m(3) by (intro tl_ok_sub [OF assms(1) m(2)]) (simp add: set_drop_subset)
  then show thesis using m r app by (intro that [of ?rs "l\<lparr>tl_txs := m\<rparr>"]) (simp_all add: tl_Ready_def txs_of_def)
qed

lemma tl_Flatten_spec:
  assumes "tl_ok l" and "tl_Flatten l = (txs, l')"
  shows "txs = txs_of l" and "tl_ok l'" and "tl_strict l' = tl_strict l" and "txs_of l' = txs_of l"
proof -
  have sm: "sm_ok (tl_txs l)" using assms by (simp add: tl_ok_def)
  have l': "l' = l\<lparr>tl_txs := snd (sm_Flatten (tl_txs l))\<rparr>" "txs = fst (sm_Flatten (tl_txs l))"
    using assms(2) by (auto simp: tl_Flatten_def split: prod.splits)
  show "txs = txs_of l" "tl_strict l' = tl_strict l" "txs_of l' = txs_of l"
    using sm_Flatten_spec [OF sm] by (simp_all add: l' txs_of_def)
  show "tl_ok l'" unfolding l' using sm_Flatten_spec [OF sm] by (intro tl_ok_sub [OF assms(1)]) (simp_all add: txs_of_def)
qed

lemma sm_Filter_sets:
  assumes "sm_ok m" and "distinct (sorted_txs m)" and "sm_Filter m f = (rs, m')"
  shows "sm_ok m'" and "set (sorted_txs m') = {tx \<in> set (sorted_txs m). \<not> f tx}" and "distinct rs"
    and "set rs = {tx \<in> set (sorted_txs m). f tx}" and "distinct (sorted_txs m')"
proof -
  have s: "sm_ok m'" "sorted_txs m' = filter (Not \<circ> f) (sorted_txs m)" "mset rs = mset (filter f (sorted_txs m))"
    using sm_Filter_spec [OF assms(1), of f] assms(3) by simp_all
  then show "sm_ok m'" "set (sorted_txs m') = {tx \<in> set (sorted_txs m). \<not> f tx}" by simp_all
  show "distinct (sorted_txs m')" using s(2) assms(2) by simp
  show "distinct rs" using mset_eq_imp_distinct_iff [OF s(3)] assms(2) by simp
  show "set rs = {tx \<in> set (sorted_txs m). f tx}" using mset_eq_setD [OF s(3)] by simp
qed

lemma fold_lowest:
  "fold (\<lambda>tx low. if tx_Nonce tx < low then tx_Nonce tx else low) ds low < n \<longleftrightarrow>
    low < n \<or> (\<exists>d \<in> set ds. tx_Nonce d < n)"
  by (induction ds arbitrary: low) (auto intro: less_trans)

lemma not_max_less [simp]: "\<not> (- 1 :: u64) < n"
  by (metis not_le word_n1_ge)

text \<open>The transactions a filter drops, and the ones that become unexecutable with them.\<close>

definition over_limit :: "int \<Rightarrow> u64 \<Rightarrow> Transaction \<Rightarrow> bool" where
  "over_limit cost gas tx \<longleftrightarrow> cost < tx_Cost tx \<or> gas < tx_Gas tx"

definition after_gap :: "txList \<Rightarrow> (Transaction \<Rightarrow> bool) \<Rightarrow> Transaction \<Rightarrow> bool" where
  "after_gap l f tx \<longleftrightarrow> tl_strict l \<and> (\<exists>d \<in> set (txs_of l). f d \<and> tx_Nonce d < tx_Nonce tx)"

lemma tl_Filter_conj:
  assumes ok: "tl_ok l" and f: "tl_Filter l c g = (drops, invalids, l')"
  shows "tl_ok l' \<and> tl_strict l' = tl_strict l \<and> distinct (drops @ invalids) \<and>
      set drops = {tx \<in> set (txs_of l). over_limit c g tx} \<and>
      set invalids = {tx \<in> set (txs_of l). \<not> over_limit c g tx \<and> after_gap l (over_limit c g) tx} \<and>
      set (txs_of l') = {tx \<in> set (txs_of l). \<not> over_limit c g tx \<and> \<not> after_gap l (over_limit c g) tx}"
proof (cases "tl_costcap l \<le> c \<and> tl_gascap l \<le> g")
  case True
  then have n: "\<not> over_limit c g tx" if "tx \<in> set (txs_of l)" for tx
    using ok that by (fastforce simp: tl_ok_def over_limit_def not_less)
  from True f have "drops = []" "invalids = []" "l' = l" by (simp_all add: tl_Filter_def)
  with ok n show ?thesis
    by (auto simp: after_gap_def)
next
  case False
  let ?lw = "fold (\<lambda>tx low. if tx_Nonce tx < low then tx_Nonce tx else low) drops (- 1)"
  have sm: "sm_ok (tl_txs l)" "distinct (sorted_txs (tl_txs l))"
    using ok distinct_txs_of [OF ok] by (simp_all add: tl_ok_def txs_of_def)
  have ol: "over_limit c g = (\<lambda>tx. c < tx_Cost tx \<or> g < tx_Gas tx)" by (simp add: over_limit_def fun_eq_iff)
  obtain m where m: "sm_Filter (tl_txs l) (over_limit c g) = (drops, m)"
    using False f unfolding ol by (auto simp: tl_Filter_def Let_def split: prod.splits)
  note s = sm_Filter_sets [OF sm m, folded txs_of_def]
  obtain m' where l': "l' = l\<lparr>tl_txs := m', tl_costcap := c, tl_gascap := g\<rparr>" and
    m': "(invalids, m') = (if tl_strict l \<and> drops \<noteq> [] then sm_Filter m (\<lambda>tx. ?lw < tx_Nonce tx) else ([], m))"
    using False f m unfolding ol by (auto simp: tl_Filter_def Let_def split: prod.splits if_splits)
  have gap: "?lw < tx_Nonce tx \<longleftrightarrow> (\<exists>d \<in> set drops. tx_Nonce d < tx_Nonce tx)" for tx by (simp add: fold_lowest)
  have "sm_ok m' \<and> set (sorted_txs m') = {tx \<in> set (sorted_txs m). \<not> after_gap l (over_limit c g) tx} \<and>
      distinct invalids \<and> set invalids = {tx \<in> set (sorted_txs m). after_gap l (over_limit c g) tx}"
  proof (cases "tl_strict l \<and> drops \<noteq> []")
    case True
    then have "sm_Filter m (\<lambda>tx. ?lw < tx_Nonce tx) = (invalids, m')" using m' by simp
    note t = sm_Filter_sets [OF s(1,5) this]
    have "after_gap l (over_limit c g) tx \<longleftrightarrow> ?lw < tx_Nonce tx" for tx
      using True s(4) unfolding gap after_gap_def by blast
    with t show ?thesis by simp
  next
    case False
    then have "\<not> after_gap l (over_limit c g) tx" for tx using s(4) by (auto simp: after_gap_def)
    with False m' s(1) show ?thesis by auto
  qed
  then have r: "sm_ok m'" "set (sorted_txs m') = {tx \<in> set (sorted_txs m). \<not> after_gap l (over_limit c g) tx}"
    "distinct invalids" "set invalids = {tx \<in> set (sorted_txs m). after_gap l (over_limit c g) tx}" by auto
  have "tl_ok l'" using r(1,2) s(2) by (auto simp: l' tl_ok_def txs_of_def over_limit_def not_less)
  with r s show ?thesis
    by (auto simp: l' txs_of_def)
qed

lemma tl_Filter_spec:
  assumes ok: "tl_ok l" and f: "tl_Filter l c g = (drops, invalids, l')"
  shows "tl_ok l'" "tl_strict l' = tl_strict l" "distinct (drops @ invalids)"
    "set drops = {tx \<in> set (txs_of l). over_limit c g tx}"
    "set invalids = {tx \<in> set (txs_of l). \<not> over_limit c g tx \<and> after_gap l (over_limit c g) tx}"
    "set (txs_of l') = {tx \<in> set (txs_of l). \<not> over_limit c g tx \<and> \<not> after_gap l (over_limit c g) tx}"
  using tl_Filter_conj [OF assms] by blast+

lemma txs_of_simps: "txs_of (l\<lparr>tl_txs := m\<rparr>) = sorted_txs m"
  by (simp add: txs_of_def)

lemma tl_Remove_conj:
  assumes ok: "tl_ok l" and r: "tl_Remove l tx = (removed, invalids, l')"
  shows "(removed \<longleftrightarrow> (\<exists>x \<in> set (txs_of l). tx_Nonce x = tx_Nonce tx)) \<and> tl_ok l' \<and> tl_strict l' = tl_strict l \<and>
    distinct invalids \<and> set invalids = {x \<in> set (txs_of l). removed \<and> tl_strict l \<and> tx_Nonce tx < tx_Nonce x} \<and>
    set (txs_of l') = {x \<in> set (txs_of l). tx_Nonce x \<noteq> tx_Nonce tx \<and> \<not> (removed \<and> tl_strict l \<and> tx_Nonce tx < tx_Nonce x)}"
proof -
  have sm: "sm_ok (tl_txs l)" using ok by (simp add: tl_ok_def)
  obtain b m where m: "sm_Remove (tl_txs l) (tx_Nonce tx) = (b, m)" by fastforce
  have s: "sm_ok m" "sorted_txs m = filter (\<lambda>t. tx_Nonce t \<noteq> tx_Nonce tx) (txs_of l)"
    "b \<longleftrightarrow> (\<exists>t \<in> set (txs_of l). tx_Nonce t = tx_Nonce tx)"
    using sm_Remove_spec [OF sm, of "tx_Nonce tx"] m by (simp_all add: txs_of_def)
  have d: "distinct (sorted_txs m)" using distinct_txs_of [OF ok] s(2) by simp
  have "removed = b" using r m by (auto simp: tl_Remove_def Let_def split: if_splits prod.splits)
  consider "\<not> b" | "b" "tl_strict l" | "b" "\<not> tl_strict l" by blast
  then show ?thesis
  proof cases
    case 1
    then have "invalids = []" "l' = l" using r m by (simp_all add: tl_Remove_def)
    with 1 \<open>removed = b\<close> ok s(3) show ?thesis by auto
  next
    case 2
    then obtain m' where f: "sm_Filter m (\<lambda>x. tx_Nonce tx < tx_Nonce x) = (invalids, m')" "l' = l\<lparr>tl_txs := m'\<rparr>"
      using r m by (auto simp: tl_Remove_def split: prod.splits)
    note t = sm_Filter_sets [OF s(1) d f(1)]
    have "tl_ok l'" unfolding f(2) using t(2) s(2) by (intro tl_ok_sub [OF ok t(1)]) auto
    moreover have "set (txs_of l') = {x \<in> set (txs_of l). tx_Nonce x \<noteq> tx_Nonce tx \<and> \<not> tx_Nonce tx < tx_Nonce x}"
      using t(2) by (simp only: f(2) txs_of_simps s(2) set_filter mem_Collect_eq conj_assoc)
    moreover have ne: "x \<noteq> n \<and> n < x \<longleftrightarrow> n < x" for x n :: u64 by (metis less_irrefl)
    have iv: "set invalids = {x \<in> set (txs_of l). tx_Nonce tx < tx_Nonce x}"
      using t(4) by (simp only: s(2) set_filter mem_Collect_eq conj_assoc ne)
    ultimately show ?thesis using 2 \<open>removed = b\<close> s(3) t(3) iv by (simp add: f(2))
  next
    case 3
    then have f: "invalids = []" "l' = l\<lparr>tl_txs := m\<rparr>" using r m by (simp_all add: tl_Remove_def)
    have "tl_ok l'" unfolding f(2) using s(2) by (intro tl_ok_sub [OF ok s(1)]) auto
    moreover have "set (txs_of l') = {x \<in> set (txs_of l). tx_Nonce x \<noteq> tx_Nonce tx}"
      by (auto simp: f(2) txs_of_def s(2))
    ultimately show ?thesis using 3 \<open>removed = b\<close> s(3) f by simp
  qed
qed

lemma tl_Remove_spec:
  assumes ok: "tl_ok l" and r: "tl_Remove l tx = (removed, invalids, l')"
  shows "removed \<longleftrightarrow> (\<exists>x \<in> set (txs_of l). tx_Nonce x = tx_Nonce tx)" "tl_ok l'" "tl_strict l' = tl_strict l"
    "distinct invalids" "set invalids = {x \<in> set (txs_of l). removed \<and> tl_strict l \<and> tx_Nonce tx < tx_Nonce x}"
    "set (txs_of l') = {x \<in> set (txs_of l). tx_Nonce x \<noteq> tx_Nonce tx \<and> \<not> (removed \<and> tl_strict l \<and> tx_Nonce tx < tx_Nonce x)}"
  using tl_Remove_conj [OF assms] by blast+

section \<open>Maps from accounts to lists\<close>

definition listed :: "accounts \<Rightarrow> Transaction set" where
  "listed m = (\<Union>(a, l) \<in> set m. set (txs_of l))"

definition acc_ok :: "sender \<Rightarrow> bool \<Rightarrow> accounts \<Rightarrow> bool" where
  "acc_ok sender strict m \<longleftrightarrow> distinct (map fst m) \<and>
     (\<forall>(a, l) \<in> set m. tl_ok l \<and> tl_strict l = strict \<and> txs_of l \<noteq> [] \<and> (\<forall>tx \<in> set (txs_of l). sender tx = Some a))"

text \<open>The transactions of one account.\<close>

definition of_acc :: "sender \<Rightarrow> address \<Rightarrow> Transaction set \<Rightarrow> Transaction set" where
  "of_acc sender a X = {tx \<in> X. sender tx = Some a}"

lemma acc_ok_Nil [simp]: "acc_ok sender b []" "listed [] = {}"
  by (simp_all add: acc_ok_def listed_def)

lemma acc_lookup:
  assumes "acc_ok sender b m" and "map_of m a = Some l"
  shows "tl_ok l" and "tl_strict l = b" and "txs_of l \<noteq> []" and "set (txs_of l) = of_acc sender a (listed m)"
proof -
  have in_m: "(a, l) \<in> set m" using assms(2) by (rule map_of_SomeD)
  with assms(1) show "tl_ok l" "tl_strict l = b" "txs_of l \<noteq> []" by (auto simp: acc_ok_def)
  have s: "sender tx = Some a'" if "(a', l') \<in> set m" "tx \<in> set (txs_of l')" for a' l' tx
    using assms(1) that by (auto simp: acc_ok_def)
  have u: "l' = l" if "(a, l') \<in> set m" for l'
    using assms that by (auto simp: acc_ok_def)
  show "set (txs_of l) = of_acc sender a (listed m)"
  proof (intro set_eqI iffI)
    fix tx assume "tx \<in> set (txs_of l)"
    then show "tx \<in> of_acc sender a (listed m)" using in_m s [OF in_m] by (auto simp: of_acc_def listed_def)
  next
    fix tx assume "tx \<in> of_acc sender a (listed m)"
    then obtain a' l' where "(a', l') \<in> set m" "tx \<in> set (txs_of l')" "sender tx = Some a"
      by (auto simp: of_acc_def listed_def)
    then show "tx \<in> set (txs_of l)" using s u by (metis option.inject)
  qed
qed

lemma acc_lookup_None:
  assumes "acc_ok sender b m" and "map_of m a = None"
  shows "of_acc sender a (listed m) = {}"
proof -
  have "a \<notin> fst ` set m" using assms(2) by (simp add: map_of_eq_None_iff)
  moreover have "a \<in> fst ` set m" if "tx \<in> of_acc sender a (listed m)" for tx
  proof -
    from that obtain a' l where i: "(a', l) \<in> set m" "tx \<in> set (txs_of l)" "sender tx = Some a"
      by (auto simp: of_acc_def listed_def)
    then have "sender tx = Some a'" using assms(1) by (auto simp: acc_ok_def)
    with i show ?thesis by (auto intro: rev_image_eqI)
  qed
  ultimately show ?thesis by blast
qed

lemma set_update_distinct:
  "distinct (map fst m) \<Longrightarrow> set (AList.update a l m) = insert (a, l) {(a', l') \<in> set m. a' \<noteq> a}"
  by (induction m) force+

lemma set_delete_distinct: "set (AList.delete a m) = {(a', l') \<in> set m. a' \<noteq> a}"
  by (auto simp: AList.delete_eq)

lemma not_of_acc:
  assumes "acc_ok sender b m"
  shows "(\<Union>(a', l) \<in> {(a', l') \<in> set m. a' \<noteq> a}. set (txs_of l)) = listed m - of_acc sender a (listed m)"
proof (intro set_eqI iffI)
  fix tx assume "tx \<in> (\<Union>(a', l) \<in> {(a', l') \<in> set m. a' \<noteq> a}. set (txs_of l))"
  then obtain a' l where "(a', l) \<in> set m" "a' \<noteq> a" "tx \<in> set (txs_of l)" by blast
  moreover from this have "sender tx = Some a'" using assms by (auto simp: acc_ok_def)
  ultimately show "tx \<in> listed m - of_acc sender a (listed m)" by (auto simp: of_acc_def listed_def)
next
  fix tx assume tx: "tx \<in> listed m - of_acc sender a (listed m)"
  then obtain a' l where i: "(a', l) \<in> set m" "tx \<in> set (txs_of l)" by (auto simp: listed_def)
  then have "sender tx = Some a'" using assms by (auto simp: acc_ok_def)
  then have "a' \<noteq> a" using tx by (auto simp: of_acc_def)
  with i show "tx \<in> (\<Union>(a', l) \<in> {(a', l') \<in> set m. a' \<noteq> a}. set (txs_of l))" by blast
qed

lemma acc_update:
  assumes "acc_ok sender b m" and "tl_ok l" and "tl_strict l = b" and "txs_of l \<noteq> []"
    and "\<And>tx. tx \<in> set (txs_of l) \<Longrightarrow> sender tx = Some a"
  shows "acc_ok sender b (AList.update a l m)"
    and "listed (AList.update a l m) = (listed m - of_acc sender a (listed m)) \<union> set (txs_of l)"
proof -
  have d: "distinct (map fst m)" using assms(1) by (simp add: acc_ok_def)
  show "acc_ok sender b (AList.update a l m)"
    using assms d by (auto simp: acc_ok_def set_update_distinct [OF d] AList.distinct_update)
  show "listed (AList.update a l m) = (listed m - of_acc sender a (listed m)) \<union> set (txs_of l)"
    unfolding not_of_acc [OF assms(1), symmetric] by (simp add: listed_def set_update_distinct [OF d] Un_commute)
qed

lemma acc_delete:
  assumes "acc_ok sender b m"
  shows "acc_ok sender b (AList.delete a m)" and "listed (AList.delete a m) = listed m - of_acc sender a (listed m)"
proof -
  show "acc_ok sender b (AList.delete a m)"
    using assms by (auto simp: acc_ok_def set_delete_distinct AList.distinct_delete)
  show "listed (AList.delete a m) = listed m - of_acc sender a (listed m)"
    unfolding not_of_acc [OF assms, symmetric] by (simp add: listed_def set_delete_distinct)
qed

lemma acc_sender: "acc_ok sender b m \<Longrightarrow> tx \<in> listed m \<Longrightarrow> \<exists>a. sender tx = Some a"
  by (auto simp: acc_ok_def listed_def)

lemma acc_mem:
  assumes "acc_ok sender b m" and "tx \<in> listed m" and "sender tx = Some a"
  obtains l where "map_of m a = Some l" and "tx \<in> set (txs_of l)"
proof (cases "map_of m a")
  case None
  then show thesis using acc_lookup_None [OF assms(1) None] assms(2,3) by (auto simp: of_acc_def)
next
  case (Some l)
  then show thesis using acc_lookup(4) [OF assms(1) Some] assms(2,3) that by (auto simp: of_acc_def)
qed

lemma acc_nonce_inj:
  assumes "acc_ok sender b m" and "x \<in> listed m" and "y \<in> listed m" and "sender x = sender y" and "tx_Nonce x = tx_Nonce y"
  shows "x = y"
proof -
  obtain a where a: "sender x = Some a" using acc_sender [OF assms(1,2)] by blast
  obtain l where l: "map_of m a = Some l" "x \<in> set (txs_of l)" by (rule acc_mem [OF assms(1,2) a])
  have "y \<in> set (txs_of l)" using acc_lookup(4) [OF assms(1) l(1)] assms(3,4) a by (simp add: of_acc_def)
  then show ?thesis using tl_nonce_inj [OF acc_lookup(1) [OF assms(1) l(1)] l(2)] assms(5) by simp
qed

lemma acc_keys: "acc_ok sender b m \<Longrightarrow> a \<in> fst ` set m \<longleftrightarrow> of_acc sender a (listed m) \<noteq> {}"
  using acc_lookup(3,4) acc_lookup_None by (metis (no_types) list.set_intros(1) map_of_eq_None_iff neq_Nil_conv option.exhaust empty_iff)

end
