(* ===== verification/Pool_Books.thy ===== *)
theory Pool_Books
  imports Pool_Lists
begin

text \<open>
  The tables that account for the transactions of the pool: the lookup by hash with its sum of slots,
  the commitment database, and the heap of prices. The set \<open>A\<close> of transactions they account for is
  explicit, so that the lemmas also speak about the states inside an operation, where a transaction
  has left its list and is still in the tables.
\<close>

section \<open>Lookup and commitments\<close>

text \<open>What is asked of a transaction that enters: its fields are in range and it encodes to something.\<close>

definition tx_good :: "Transaction \<Rightarrow> bool" where
  "tx_good tx \<longleftrightarrow> tx_fits tx \<and> 0 < tx_Size tx"

text \<open>
  The block importer writes the commitment database as well, so that the locks of the pool can be
  lost. The coins whose locks are in the pool's own hands are the set \<open>own\<close>: each of them is locked
  while a transaction of \<open>A\<close> claims it, and at most one does.
\<close>

definition claims_ok :: "bytes set \<Rightarrow> (bytes \<Rightarrow> bytes) \<Rightarrow> cmdb \<Rightarrow> Transaction set \<Rightarrow> bool" where
  "claims_ok own keccak db A \<longleftrightarrow>
     (\<forall>tx \<in> A. \<forall>h \<in> own. claim_of keccak tx = Some h \<longrightarrow> coins db h = Locked \<and> (\<forall>y \<in> A. claim_of keccak y = Some h \<longrightarrow> y = tx))"

definition books_ok :: "bytes set \<Rightarrow> (bytes \<Rightarrow> bytes) \<Rightarrow> txLookup \<Rightarrow> cmdb \<Rightarrow> Transaction set \<Rightarrow> bool" where
  "books_ok own keccak al db A \<longleftrightarrow>
     distinct (map fst (lk_all al)) \<and> (\<forall>(h, tx) \<in> set (lk_all al). h = tx_Hash keccak tx) \<and> snd ` set (lk_all al) = A \<and>
     lk_slots al = (\<Sum>tx \<in> A. int (numSlots tx)) \<and> cmdb_ok db \<and>
     (\<forall>tx \<in> A. tx_good tx \<and> claim_of keccak tx \<noteq> None) \<and> claims_ok own keccak db A"

definition priced_ok :: "txPricedList \<Rightarrow> Transaction set \<Rightarrow> bool" where
  "priced_ok pr A \<longleftrightarrow> is_heap price_less (pl_items pr) \<and> A \<subseteq> set (pl_items pr)"

lemma booksD:
  assumes "books_ok own keccak al db A"
  shows "distinct (map fst (lk_all al))" and "(h, tx) \<in> set (lk_all al) \<Longrightarrow> tx_Hash keccak tx = h"
    and "tx \<in> A \<longleftrightarrow> (\<exists>h. (h, tx) \<in> set (lk_all al))" and "finite A" and "cmdb_ok db" and "claims_ok own keccak db A"
    and "tx \<in> A \<Longrightarrow> tx_good tx" and "tx \<in> A \<Longrightarrow> \<exists>h. claim_of keccak tx = Some h"
    and "lk_slots al = (\<Sum>tx \<in> A. int (numSlots tx))"
proof -
  have A: "A = snd ` set (lk_all al)" and k: "\<forall>(h, tx) \<in> set (lk_all al). h = tx_Hash keccak tx"
    using assms by (simp_all add: books_ok_def)
  show "finite A" unfolding A by simp
  show "tx \<in> A \<longleftrightarrow> (\<exists>h. (h, tx) \<in> set (lk_all al))" unfolding A by force
  show "(h, tx) \<in> set (lk_all al) \<Longrightarrow> tx_Hash keccak tx = h" using bspec [OF k, of "(h, tx)"] by simp
qed (use assms in \<open>simp_all add: books_ok_def\<close>)

lemma claims_subset: "claims_ok own keccak db A \<Longrightarrow> B \<subseteq> A \<Longrightarrow> claims_ok own keccak db B"
  unfolding claims_ok_def by blast

lemma claims_other:
  "claims_ok own keccak db A \<Longrightarrow> (\<And>x h. h \<in> own \<Longrightarrow> x \<in> A \<Longrightarrow> claim_of keccak x = Some h \<Longrightarrow> coins db' h = coins db h) \<Longrightarrow>
    claims_ok own keccak db' A"
  by (simp add: claims_ok_def)

lemma claims_unique:
  "claims_ok own keccak db A \<Longrightarrow> x \<in> A \<Longrightarrow> y \<in> A \<Longrightarrow> claim_of keccak x = Some h \<Longrightarrow> claim_of keccak y = Some h \<Longrightarrow> h \<in> own \<Longrightarrow> y = x"
  unfolding claims_ok_def by blast

lemma books_lookup:
  assumes "books_ok own keccak al db A"
  shows "lk_Get al h = Some tx \<longleftrightarrow> tx \<in> A \<and> tx_Hash keccak tx = h"
proof -
  have "lk_Get al h = Some tx \<longleftrightarrow> (h, tx) \<in> set (lk_all al)"
    unfolding lk_Get_def by (rule map_of_eq_Some_iff [OF booksD(1) [OF assms]])
  then show ?thesis using booksD(2,3) [OF assms] by metis
qed

lemma books_lookup_None:
  assumes "books_ok own keccak al db A"
  shows "lk_Get al h = None \<longleftrightarrow> (\<forall>tx \<in> A. tx_Hash keccak tx \<noteq> h)"
  using books_lookup [OF assms, of h] by (cases "lk_Get al h") auto

lemma books_hash_inj:
  assumes "books_ok own keccak al db A" and "x \<in> A" and "y \<in> A" and "tx_Hash keccak x = tx_Hash keccak y"
  shows "x = y"
  using books_lookup [OF assms(1), of "tx_Hash keccak y"] assms(2-4) by (metis option.inject)

lemma books_count:
  assumes "books_ok own keccak al db A"
  shows "lk_Count al = card A"
proof -
  have "map fst (lk_all al) = map (tx_Hash keccak) (map snd (lk_all al))" using booksD(2) [OF assms] by auto
  then have "distinct (map snd (lk_all al))" using booksD(1) [OF assms] by (metis distinct_map)
  then have "card (set (map snd (lk_all al))) = length (map snd (lk_all al))" by (rule distinct_card)
  moreover have "A = set (map snd (lk_all al))" using assms by (simp add: books_ok_def)
  ultimately show ?thesis by (simp add: lk_Count_def)
qed

lemma set_claim_other:
  "claim_of keccak tx = Some h \<Longrightarrow> h \<noteq> h' \<Longrightarrow> set_claim keccak L tx c h' = L h'"
  by (simp add: set_claim_def)

lemma lk_Remove_books:
  assumes "books_ok own keccak al db A" and "tx \<in> A"
  obtains al' where "lk_Remove al (tx_Hash keccak tx) = Some al'" and "books_ok own keccak al' db (A - {tx})"
proof -
  let ?h = "tx_Hash keccak tx"
  have g: "map_of (lk_all al) ?h = Some tx" using books_lookup [OF assms(1), of ?h tx] assms(2) by (simp add: lk_Get_def)
  let ?al = "\<lparr>lk_all = AList.delete ?h (lk_all al), lk_slots = lk_slots al - int (numSlots tx)\<rparr>"
  have "snd ` set (AList.delete ?h (lk_all al)) = A - {tx}"
  proof (rule set_eqI)
    fix y
    have "y \<in> snd ` set (AList.delete ?h (lk_all al)) \<longleftrightarrow> (\<exists>h. (h, y) \<in> set (lk_all al) \<and> h \<noteq> ?h)"
      by (force simp: set_delete_distinct)
    also have "\<dots> \<longleftrightarrow> y \<in> A \<and> tx_Hash keccak y \<noteq> ?h" using booksD(2,3) [OF assms(1)] by metis
    also have "\<dots> \<longleftrightarrow> y \<in> A - {tx}" using books_hash_inj [OF assms(1) _ assms(2)] by blast
    finally show "y \<in> snd ` set (AList.delete ?h (lk_all al)) \<longleftrightarrow> y \<in> A - {tx}" .
  qed
  moreover have "\<forall>(h, tx) \<in> set (AList.delete ?h (lk_all al)). h = tx_Hash keccak tx"
    using booksD(2) [OF assms(1)] by (force simp: set_delete_distinct)
  moreover have "lk_slots al - int (numSlots tx) = (\<Sum>tx \<in> A - {tx}. int (numSlots tx))"
    using booksD(9) [OF assms(1)] assms(2) booksD(4) [OF assms(1)] by (simp add: sum_diff1)
  moreover have "claims_ok own keccak db (A - {tx})"
    using claims_subset [OF booksD(6) [OF assms(1)]] by blast
  ultimately have "books_ok own keccak ?al db (A - {tx})"
    using assms(1) by (simp add: books_ok_def AList.distinct_delete)
  then show thesis using g by (intro that [of ?al]) (simp_all add: lk_Remove_def)
qed

lemma books_db_other:
  assumes "books_ok own keccak al db A" and "cmdb_ok db'"
    and "\<And>x h. h \<in> own \<Longrightarrow> x \<in> A \<Longrightarrow> claim_of keccak x = Some h \<Longrightarrow> coins db' h = coins db h"
  shows "books_ok own keccak al db' A"
proof -
  have "claims_ok own keccak db' A" using booksD(6) [OF assms(1)] assms(3) by (rule claims_other)
  then show ?thesis using assms(1,2) by (simp add: books_ok_def)
qed

lemma drop_tx_spec:
  assumes "books_ok own keccak (tp_all p) (tp_CMdb p) A" and "tx \<in> A"
  obtains al db where "drop_tx keccak p tx = Some (p\<lparr>tp_CMdb := db, tp_all := al\<rparr>)" and "books_ok own keccak al db (A - {tx})"
    and "reorgCM keccak (tp_CMdb p) tx = Some db" and "lk_Remove (tp_all p) (tx_Hash keccak tx) = Some al"
    and "\<And>h. coins db h = Locked \<Longrightarrow> coins (tp_CMdb p) h = Locked" and "coins db = set_claim keccak (coins (tp_CMdb p)) tx Free"
proof -
  have fits: "tx_fits tx" and db_ok: "cmdb_ok (tp_CMdb p)"
    using booksD(5,7) [OF assms(1)] assms(2) by (auto simp: tx_good_def)
  obtain h where h: "claim_of keccak tx = Some h" using booksD(8) [OF assms] by blast
  obtain db where db: "reorgCM keccak (tp_CMdb p) tx = Some db" "cmdb_ok db"
      "coins db = set_claim keccak (coins (tp_CMdb p)) tx Free"
    using reorgCM_coins [OF fits db_ok, of keccak] by blast
  obtain al where al: "lk_Remove (tp_all p) (tx_Hash keccak tx) = Some al" "books_ok own keccak al (tp_CMdb p) (A - {tx})"
    by (rule lk_Remove_books [OF assms])
  have "books_ok own keccak al db (A - {tx})"
  proof (rule books_db_other [OF al(2) db(2)])
    fix x h' assume "h' \<in> own" and x: "x \<in> A - {tx}" and h': "claim_of keccak x = Some h'"
    then have "h \<noteq> h'" using claims_unique [OF booksD(6) [OF assms(1)], of tx x] assms(2) h by auto
    then show "coins db h' = coins (tp_CMdb p) h'" using db(3) set_claim_other [OF h] by metis
  qed
  moreover have "coins (tp_CMdb p) h' = Locked" if "coins db h' = Locked" for h'
    using that h by (cases "h' = h") (simp_all add: db(3) set_claim_def)
  ultimately show thesis using al(1) db(1,3) by (intro that [of al db]) (simp_all add: drop_tx_def)
qed

lemma claims_insert:
  assumes "claims_ok own keccak db A" and "claim_of keccak tx = Some h" and "coins db h \<noteq> Locked"
    and "coins db' = set_claim keccak (coins db) tx Locked"
  shows "claims_ok own keccak db' (insert tx A)"
proof -
  have ne: "h' \<noteq> h" if "h' \<in> own" "x \<in> A" "claim_of keccak x = Some h'" for x h'
    using assms(1,3) that by (auto simp: claims_ok_def)
  then have "claims_ok own keccak db' A"
    using assms(4) set_claim_other [OF assms(2)] by (intro claims_other [OF assms(1)]) metis
  then show ?thesis using assms(2,4) ne by (auto simp: claims_ok_def set_claim_def)
qed

lemma enter_tx_spec:
  assumes "books_ok own keccak (tp_all p) (tp_CMdb p) A" and "\<And>x. x \<in> A \<Longrightarrow> tx_Hash keccak x \<noteq> tx_Hash keccak tx"
    and "tx_good tx" and "claim_of keccak tx = Some h" and "coins (tp_CMdb p) h \<noteq> Locked"
  obtains al db where "enter_tx keccak p tx = Some (p\<lparr>tp_CMdb := db, tp_all := al, tp_priced := pl_Put (tp_priced p) tx\<rparr>)"
    and "books_ok own keccak al db (insert tx A)" and "coins db h = Locked"
proof -
  obtain db where db: "processCM keccak (tp_CMdb p) tx = Some db" "cmdb_ok db"
      "coins db = set_claim keccak (coins (tp_CMdb p)) tx Locked"
    using processCM_coins [of tx "tp_CMdb p" keccak] booksD(5) [OF assms(1)] assms(3) by (auto simp: tx_good_def)
  let ?h = "tx_Hash keccak tx" and ?al = "lk_Add keccak (tp_all p) tx"
  have new: "tx \<notin> A" using assms(2) by blast
  have d: "distinct (map fst (lk_all (tp_all p)))" by (rule booksD(1) [OF assms(1)])
  have ne: "h' \<noteq> ?h" if "(h', x) \<in> set (lk_all (tp_all p))" for h' x
    using booksD(2,3) [OF assms(1)] assms(2) that by metis
  have set_al: "set (lk_all ?al) = insert (?h, tx) (set (lk_all (tp_all p)))"
    using ne by (auto simp: lk_Add_def set_update_distinct [OF d])
  have "books_ok own keccak ?al db (insert tx A)"
    unfolding books_ok_def
  proof (intro conjI impI)
    show "distinct (map fst (lk_all ?al))" using d by (simp add: lk_Add_def AList.distinct_update)
    show "\<forall>(h, tx) \<in> set (lk_all ?al). h = tx_Hash keccak tx"
      using set_al booksD(2) [OF assms(1)] by auto
    show "snd ` set (lk_all ?al) = insert tx A"
      using set_al assms(1) by (simp add: books_ok_def)
    show "lk_slots ?al = (\<Sum>tx \<in> insert tx A. int (numSlots tx))"
      using booksD(4,9) [OF assms(1)] new by (simp add: lk_Add_def)
    show "cmdb_ok db" by (rule db(2))
    show "\<forall>x \<in> insert tx A. tx_good x \<and> claim_of keccak x \<noteq> None"
      using booksD(7,8) [OF assms(1)] assms(3,4) by auto
    show "claims_ok own keccak db (insert tx A)"
      using booksD(6) [OF assms(1)] assms(4,5) db(3) by (rule claims_insert)
  qed
  then show thesis using db(1,3) assms(4) by (intro that [of ?al db]) (simp_all add: enter_tx_def set_claim_def)
qed

section \<open>The price heap\<close>

lemma set_mset_eq: "mset xs = mset ys \<Longrightarrow> set xs = set ys"
  by (rule mset_eq_setD)

lemma priced_subset: "priced_ok pr A \<Longrightarrow> B \<subseteq> A \<Longrightarrow> priced_ok pr B"
  by (auto simp: priced_ok_def)

lemma pl_Removed_ok:
  assumes "books_ok own keccak al db A" and "priced_ok pr A"
  shows "priced_ok (pl_Removed al pr n) A"
proof -
  have "A = set (map snd (lk_all al))" using assms(1) by (simp add: books_ok_def)
  moreover have "set (heap_Init price_less (map snd (lk_all al))) = set (map snd (lk_all al))"
    by (rule set_mset_eq) (rule price.heap_Init_mset)
  ultimately show ?thesis
    using assms(2) price.heap_Init_heap by (simp add: pl_Removed_def priced_ok_def Let_def)
qed

lemma pl_Put_ok: "priced_ok pr A \<Longrightarrow> priced_ok (pl_Put pr tx) (insert tx A)"
proof -
  assume ok: "priced_ok pr A"
  have "set (heap_Push price_less (pl_items pr) tx) = set (tx # pl_items pr)"
    by (rule set_mset_eq) (simp add: price.heap_Push_mset)
  with ok price.heap_Push_heap show ?thesis by (auto simp: priced_ok_def pl_Put_def)
qed

lemma Underpriced_loop_ok:
  "is_heap price_less items \<Longrightarrow> pl_Underpriced_loop k items st = (items', st') \<Longrightarrow>
    is_heap price_less items' \<and> (\<forall>tx \<in> set items. k tx \<longrightarrow> tx \<in> set items')"
proof (induction "length items" arbitrary: items st rule: less_induct)
  case less
  show ?case
  proof (cases items)
    case Nil
    then show ?thesis using less.prems by (subst (asm) pl_Underpriced_loop.simps) simp
  next
    case (Cons x xs)
    obtain rest where p: "heap_Pop price_less items = Some (hd items, rest)" "is_heap price_less rest"
        "add_mset (hd items) (mset rest) = mset items"
      using price.heap_Pop_spec [OF less.prems(1)] Cons by blast
    have set_items: "set items = insert x (set rest)" using p(3) Cons set_mset_eq [of "x # rest" items] by simp
    show ?thesis
    proof (cases "k x")
      case True
      then show ?thesis using less.prems Cons by (subst (asm) pl_Underpriced_loop.simps) simp
    next
      case False
      then have l: "pl_Underpriced_loop k rest (st - 1) = (items', st')"
        using less.prems(2) Cons p(1) by (subst (asm) pl_Underpriced_loop.simps) simp
      have "length rest < length items" using length_heap_Pop [OF p(1)] by simp
      from less.hyps [OF this p(2) l] set_items False show ?thesis by simp
    qed
  qed
qed

lemma known_tx_iff:
  "books_ok own keccak al db A \<Longrightarrow> known_tx keccak al tx \<longleftrightarrow> (\<exists>x \<in> A. tx_Hash keccak x = tx_Hash keccak tx)"
  using books_lookup_None by (auto simp: known_tx_def)

lemma pl_Underpriced_ok:
  assumes "books_ok own keccak al db A" and "priced_ok pr A" and "pl_Underpriced keccak sender al pr tx local = (b, pr')"
  shows "priced_ok pr' A"
proof (cases "containsTx sender local tx")
  case True
  then show ?thesis using assms by (simp add: pl_Underpriced_def)
next
  case False
  obtain items st where l: "pl_Underpriced_loop (known_tx keccak al) (pl_items pr) (pl_stales pr) = (items, st)" by fastforce
  then have "pl_items pr' = items" using False assms(3) by (auto simp: pl_Underpriced_def Let_def split: list.splits)
  moreover have "is_heap price_less items" "\<forall>tx \<in> set (pl_items pr). known_tx keccak al tx \<longrightarrow> tx \<in> set items"
    using Underpriced_loop_ok [OF _ l] assms(2) by (auto simp: priced_ok_def)
  ultimately show ?thesis using assms(2) known_tx_iff [OF assms(1)] unfolding priced_ok_def by blast
qed

lemma pl_Discard_ok:
  assumes "books_ok own keccak al db A" and "priced_ok pr A" and "0 \<le> slots"
  obtains drops pr' where "pl_Discard keccak sender al pr slots local = Some (drops, pr')" and "priced_ok pr' (A - set drops)"
    and "\<And>tx. tx \<in> set drops \<Longrightarrow> \<not> containsTx sender local tx"
proof -
  have h: "is_heap price_less (pl_items pr)" using assms(2) by (simp add: priced_ok_def)
  obtain drops pr' where d: "pl_Discard keccak sender al pr slots local = Some (drops, pr')" "is_heap price_less (pl_items pr')"
      "\<forall>tx \<in> set drops. tx \<in> set (pl_items pr) \<and> known_tx keccak al tx \<and> \<not> containsTx sender local tx"
      "\<forall>tx \<in> set (pl_items pr). known_tx keccak al tx \<longrightarrow> tx \<in> set drops \<union> set (pl_items pr')"
    using pl_Discard_spec [OF h assms(3), of keccak sender al local] by blast
  have "priced_ok pr' (A - set drops)"
    using d(2,4) assms(2) known_tx_iff [OF assms(1)] unfolding priced_ok_def by blast
  with d(1,3) show thesis by (intro that [of drops pr']) auto
qed

lemma Cap_loop_ok:
  "is_heap price_less items \<Longrightarrow> pl_Cap_loop k l t items st drops save = (items', st', drops', save') \<Longrightarrow>
    is_heap price_less items' \<and> set drops \<subseteq> set drops' \<and> set save \<subseteq> set save' \<and>
    (\<forall>tx \<in> set items. k tx \<longrightarrow> tx \<in> set items' \<union> set drops' \<union> set save')"
proof (induction "length items" arbitrary: items st drops save rule: less_induct)
  case less
  show ?case
  proof (cases "items = []")
    case True
    then show ?thesis using less.prems by (subst (asm) pl_Cap_loop.simps) (simp add: heap_Pop_def)
  next
    case False
    let ?x = "hd items"
    obtain rest where p: "heap_Pop price_less items = Some (?x, rest)" "is_heap price_less rest"
        "add_mset ?x (mset rest) = mset items"
      using price.heap_Pop_spec [OF less.prems(1) False] by blast
    have st: "set items = insert ?x (set rest)" using p(3) set_mset_eq [of "?x # rest" items] by simp
    have len: "length rest < length items" using length_heap_Pop [OF p(1)] by simp
    have step: "pl_Cap_loop k l t items st drops save =
        (if \<not> k ?x then pl_Cap_loop k l t rest (st - 1) drops save
         else if t \<le> tx_GasPrice ?x then (rest, st, drops, save @ [?x])
         else if l ?x then pl_Cap_loop k l t rest st drops (save @ [?x])
         else pl_Cap_loop k l t rest st (drops @ [?x]) save)"
      using p(1) by (subst pl_Cap_loop.simps) simp
    consider "\<not> k ?x" | "k ?x" "t \<le> tx_GasPrice ?x" | "k ?x" "\<not> t \<le> tx_GasPrice ?x" "l ?x"
      | "k ?x" "\<not> t \<le> tx_GasPrice ?x" "\<not> l ?x" by blast
    then show ?thesis
    proof cases
      case 1
      then show ?thesis using less.hyps [OF len p(2), of "st - 1" drops save] less.prems(2) step st by auto
    next
      case 2
      then show ?thesis using less.prems(2) step st p(2) by auto
    next
      case 3
      then show ?thesis using less.hyps [OF len p(2), of st drops "save @ [?x]"] less.prems(2) step st by auto
    next
      case 4
      then show ?thesis using less.hyps [OF len p(2), of st "drops @ [?x]" save] less.prems(2) step st by auto
    qed
  qed
qed

lemma pl_Cap_ok:
  assumes "books_ok own keccak al db A" and "priced_ok pr A" and "pl_Cap keccak sender al pr t local = (drops, pr')"
  shows "priced_ok pr' (A - set drops)"
proof -
  obtain items st dr sa where l: "pl_Cap_loop (known_tx keccak al) (containsTx sender local) t (pl_items pr) (pl_stales pr) [] [] =
      (items, st, dr, sa)" by (metis prod_cases4)
  then have e: "drops = dr" "pl_items pr' = fold (\<lambda>tx h. heap_Push price_less h tx) sa items"
    using assms(3) by (auto simp: pl_Cap_def)
  have c: "is_heap price_less items" "\<forall>tx \<in> set (pl_items pr). known_tx keccak al tx \<longrightarrow> tx \<in> set items \<union> set dr \<union> set sa"
    using Cap_loop_ok [OF _ l] assms(2) by (auto simp: priced_ok_def)
  have f: "is_heap price_less (pl_items pr')" "set (pl_items pr') = set sa \<union> set items"
    using fold_Push [OF c(1), of sa] e(2) by simp_all
  have "tx \<in> set (pl_items pr')" if tx: "tx \<in> A" "tx \<notin> set drops" for tx
  proof -
    have "known_tx keccak al tx" using known_tx_iff [OF assms(1)] tx(1) by auto
    moreover have "tx \<in> set (pl_items pr)" using assms(2) tx(1) by (auto simp: priced_ok_def)
    ultimately show ?thesis using c(2) f(2) e(1) tx(2) by auto
  qed
  with f(1) show ?thesis by (auto simp: priced_ok_def)
qed

end
