(* ===== verification/Pool_Inv.thy ===== *)
theory Pool_Inv
  imports Pool_Books
begin

text \<open>
  The invariant of the pool. The lookup table holds exactly the transactions of the two maps, by their
  hash and with their slots summed up; the price heap holds all of them; the commitment each of them
  claims is locked in the database, and no two claim the same one; an account's pending and queued
  nonces are disjoint. Every operation of the pool keeps this and does not panic.
\<close>

section \<open>The two maps\<close>

text \<open>No transaction of \<open>X\<close> has the sender and nonce of \<open>tx\<close>.\<close>

definition free_nonce :: "sender \<Rightarrow> Transaction set \<Rightarrow> Transaction \<Rightarrow> bool" where
  "free_nonce sender X tx \<longleftrightarrow> (\<forall>x \<in> X. sender x = sender tx \<longrightarrow> tx_Nonce x \<noteq> tx_Nonce tx)"

definition lists_ok :: "sender \<Rightarrow> accounts \<Rightarrow> accounts \<Rightarrow> bool" where
  "lists_ok sender pend que \<longleftrightarrow> acc_ok sender True pend \<and> acc_ok sender False que \<and>
     (\<forall>tx \<in> listed que. free_nonce sender (listed pend) tx)"

abbreviation pool_txs :: "TxPool \<Rightarrow> Transaction set" where
  "pool_txs p \<equiv> listed (tp_pending p) \<union> listed (tp_queue p)"

lemma listsD:
  assumes "lists_ok sender pend que"
  shows "acc_ok sender True pend" and "acc_ok sender False que"
    and "x \<in> listed pend \<Longrightarrow> y \<in> listed que \<Longrightarrow> sender x = sender y \<Longrightarrow> tx_Nonce x \<noteq> tx_Nonce y"
  using assms by (auto simp: lists_ok_def free_nonce_def)

lemma lists_nonce_inj:
  assumes "lists_ok sender pend que" and "x \<in> listed pend \<union> listed que" and "y \<in> listed pend \<union> listed que"
    and "sender x = sender y" and "tx_Nonce x = tx_Nonce y"
  shows "x = y"
  using assms listsD [OF assms(1)] acc_nonce_inj [of sender True pend x y] acc_nonce_inj [of sender False que x y]
  by (metis Un_iff)

text \<open>What adding a transaction to the list of its account does to the map.\<close>

lemma acc_add:
  assumes ok: "acc_ok sender b m" and s: "sender tx = Some a"
    and add: "tl_Add (case map_of m a of None \<Rightarrow> newTxList b | Some l \<Rightarrow> l) tx pb = (ins, old, l')"
  shows "\<not> ins \<Longrightarrow> \<not> free_nonce sender (listed m) tx \<and> AList.update a l' m = m"
    and "ins \<Longrightarrow> acc_ok sender b (AList.update a l' m) \<and>
      listed (AList.update a l' m) = insert tx {x \<in> listed m. \<not> (sender x = Some a \<and> tx_Nonce x = tx_Nonce tx)} \<and>
      (old = None \<longleftrightarrow> free_nonce sender (listed m) tx) \<and>
      (\<forall>x. old = Some x \<longrightarrow> x \<in> listed m \<and> sender x = Some a \<and> tx_Nonce x = tx_Nonce tx)"
proof -
  let ?l = "case map_of m a of None \<Rightarrow> newTxList b | Some l \<Rightarrow> l"
  have lok: "tl_ok ?l" "tl_strict ?l = b" "set (txs_of ?l) = of_acc sender a (listed m)"
    using acc_lookup [OF ok] acc_lookup_None [OF ok] by (auto split: option.split)
  have free: "free_nonce sender (listed m) tx \<longleftrightarrow> (\<forall>x \<in> of_acc sender a (listed m). tx_Nonce x \<noteq> tx_Nonce tx)"
    using s by (auto simp: free_nonce_def of_acc_def)
  show "\<not> free_nonce sender (listed m) tx \<and> AList.update a l' m = m" if "\<not> ins"
  proof -
    have t: "l' = ?l" "\<exists>x \<in> set (txs_of ?l). tx_Nonce x = tx_Nonce tx" using tl_Add_spec(1) [OF lok(1) add that] by auto
    then have "map_of m a \<noteq> None" using acc_lookup_None [OF ok, of a] lok(3) by auto
    then have "map_of m a = Some l'" using t(1) by auto
    then have "AList.update a l' m = m" by (induction m) auto
    then show ?thesis using t(2) lok(3) free by auto
  qed
  assume ins
  note t = tl_Add_spec(2) [OF lok(1) add \<open>ins\<close>]
  have st: "set (txs_of l') = insert tx {x \<in> of_acc sender a (listed m). tx_Nonce x \<noteq> tx_Nonce tx}" using t lok(3) by simp
  have sl: "sender x = Some a" if "x \<in> set (txs_of l')" for x using that st s by (auto simp: of_acc_def)
  have "txs_of l' \<noteq> []" using st by auto
  then have u: "acc_ok sender b (AList.update a l' m)"
    "listed (AList.update a l' m) = (listed m - of_acc sender a (listed m)) \<union> set (txs_of l')"
    using acc_update [OF ok _ _ _ sl] t lok(2) by auto
  have "listed (AList.update a l' m) = insert tx {x \<in> listed m. \<not> (sender x = Some a \<and> tx_Nonce x = tx_Nonce tx)}"
    unfolding u(2) st by (auto simp: of_acc_def)
  moreover have "old = None \<longleftrightarrow> free_nonce sender (listed m) tx"
    using t tl_Get(2) [OF lok(1)] lok(3) free by simp
  moreover have "x \<in> listed m \<and> sender x = Some a \<and> tx_Nonce x = tx_Nonce tx" if "old = Some x" for x
    using t that tl_Get(1) [OF lok(1), of "tx_Nonce tx" x] lok(3) by (simp add: of_acc_def)
  ultimately show "acc_ok sender b (AList.update a l' m) \<and>
      listed (AList.update a l' m) = insert tx {x \<in> listed m. \<not> (sender x = Some a \<and> tx_Nonce x = tx_Nonce tx)} \<and>
      (old = None \<longleftrightarrow> free_nonce sender (listed m) tx) \<and>
      (\<forall>x. old = Some x \<longrightarrow> x \<in> listed m \<and> sender x = Some a \<and> tx_Nonce x = tx_Nonce tx)"
    using u(1) by blast
qed

lemma sender_of_Some: "sender tx = Some a \<Longrightarrow> sender_of sender tx = a"
  by (simp add: sender_of_def)

lemma insert_free:
  "sender tx = Some a \<Longrightarrow> free_nonce sender X tx \<Longrightarrow>
    insert tx {x \<in> X. \<not> (sender x = Some a \<and> tx_Nonce x = tx_Nonce tx)} = insert tx X"
  by (auto simp: free_nonce_def)

text \<open>A known transaction moves into the queue without touching the tables.\<close>

lemma enqueueTx_known:
  assumes "acc_ok sender False (tp_queue p)" and "sender tx = Some a" and "free_nonce sender (listed (tp_queue p)) tx"
    and "lk_Get (tp_all p) hash \<noteq> None"
  obtains q where "enqueueTx keccak sender p hash tx = Some (Inr False, p\<lparr>tp_queue := q\<rparr>)" and "acc_ok sender False q"
    and "listed q = insert tx (listed (tp_queue p))"
proof -
  obtain ins old l' where add: "tl_Add (case map_of (tp_queue p) a of None \<Rightarrow> newTxList False | Some l \<Rightarrow> l) tx
      (cfg_PriceBump (tp_config p)) = (ins, old, l')" by (metis prod_cases3)
  note t = acc_add [OF assms(1,2) add]
  have ins: "ins" "old = None" using t assms(3) by auto
  let ?q = "AList.update a l' (tp_queue p)"
  have "enqueueTx keccak sender p hash tx = Some (Inr False, p\<lparr>tp_queue := ?q\<rparr>)"
    using add ins assms(4) by (auto simp: enqueueTx_def sender_of_def assms(2) drop_old_def Let_def)
  with t(2) [OF ins(1)] insert_free [of sender, OF assms(2,3)] show thesis by (intro that [of ?q]) auto
qed

lemma enqueue_txs_known:
  assumes "acc_ok sender False (tp_queue p)" and "\<And>tx. tx \<in> set txs \<Longrightarrow> sender tx = Some a"
    and "\<And>tx. tx \<in> set txs \<Longrightarrow> free_nonce sender (listed (tp_queue p)) tx" and "distinct (map tx_Nonce txs)"
    and "\<And>tx. tx \<in> set txs \<Longrightarrow> lk_Get (tp_all p) (tx_Hash keccak tx) \<noteq> None"
  shows "\<exists>q. enqueue_txs keccak sender p (map Some txs) = Some (p\<lparr>tp_queue := q\<rparr>) \<and> acc_ok sender False q \<and>
    listed q = set txs \<union> listed (tp_queue p)"
  using assms
proof (induction txs arbitrary: p)
  case Nil
  then show ?case by (intro exI [of _ "tp_queue p"]) simp
next
  case (Cons tx txs)
  obtain q where q: "enqueueTx keccak sender p (tx_Hash keccak tx) tx = Some (Inr False, p\<lparr>tp_queue := q\<rparr>)"
      "acc_ok sender False q" "listed q = insert tx (listed (tp_queue p))"
    using enqueueTx_known [OF Cons.prems(1), of tx a "tx_Hash keccak tx" keccak] Cons.prems(2,3,5) by auto
  have f: "free_nonce sender (listed q) x" if "x \<in> set txs" for x
    using that Cons.prems(2-4) q(3) by (auto simp: free_nonce_def)
  obtain q' where q': "enqueue_txs keccak sender (p\<lparr>tp_queue := q\<rparr>) (map Some txs) = Some (p\<lparr>tp_queue := q'\<rparr>)"
      "acc_ok sender False q'" "listed q' = set txs \<union> listed q"
    using Cons.IH [of "p\<lparr>tp_queue := q\<rparr>"] Cons.prems(2,4,5) q(2) f by auto
  show ?case using q q' by (intro exI [of _ q']) auto
qed

lemma promoteTx_known:
  assumes "acc_ok sender True (tp_pending p)" and "sender tx = Some a" and "free_nonce sender (listed (tp_pending p)) tx"
    and "lk_Get (tp_all p) hash \<noteq> None"
  obtains m where "promoteTx keccak now p a hash tx = Some (True, p\<lparr>tp_pending := m, tp_beats := AList.update a now (tp_beats p),
      tp_pendingNonces := nc_set (tp_pendingNonces p) a (tx_Nonce tx + 1)\<rparr>)" and "acc_ok sender True m"
    and "listed m = insert tx (listed (tp_pending p))"
proof -
  obtain ins old l' where add: "tl_Add (case map_of (tp_pending p) a of None \<Rightarrow> newTxList True | Some l \<Rightarrow> l) tx
      (cfg_PriceBump (tp_config p)) = (ins, old, l')" by (metis prod_cases3)
  note t = acc_add [OF assms(1,2) add]
  have ins: "ins" "old = None" using t assms(3) by auto
  let ?m = "AList.update a l' (tp_pending p)"
  have "promoteTx keccak now p a hash tx = Some (True, p\<lparr>tp_pending := ?m, tp_beats := AList.update a now (tp_beats p),
      tp_pendingNonces := nc_set (tp_pendingNonces p) a (tx_Nonce tx + 1)\<rparr>)"
    using add ins assms(4) by (auto simp: promoteTx_def drop_old_def Let_def)
  with t(2) [OF ins(1)] insert_free [of sender, OF assms(2,3)] show thesis by (intro that [of ?m]) auto
qed

lemma promote_txs_known:
  assumes "acc_ok sender True (tp_pending p)" and "\<And>tx. tx \<in> set txs \<Longrightarrow> sender tx = Some a"
    and "\<And>tx. tx \<in> set txs \<Longrightarrow> free_nonce sender (listed (tp_pending p)) tx" and "distinct (map tx_Nonce txs)"
    and "\<And>tx. tx \<in> set txs \<Longrightarrow> lk_Get (tp_all p) (tx_Hash keccak tx) \<noteq> None"
  shows "\<exists>m b nc. promote_txs keccak now p a (map Some txs) =
      Some (txs, p\<lparr>tp_pending := m, tp_beats := b, tp_pendingNonces := nc\<rparr>) \<and> acc_ok sender True m \<and>
    listed m = set txs \<union> listed (tp_pending p)"
  using assms
proof (induction txs arbitrary: p)
  case Nil
  then show ?case by (intro exI [of _ "tp_pending p"] exI [of _ "tp_beats p"] exI [of _ "tp_pendingNonces p"]) simp
next
  case (Cons tx txs)
  obtain m where m: "promoteTx keccak now p a (tx_Hash keccak tx) tx = Some (True, p\<lparr>tp_pending := m,
      tp_beats := AList.update a now (tp_beats p), tp_pendingNonces := nc_set (tp_pendingNonces p) a (tx_Nonce tx + 1)\<rparr>)"
      "acc_ok sender True m" "listed m = insert tx (listed (tp_pending p))"
    using promoteTx_known [OF Cons.prems(1), of tx a "tx_Hash keccak tx" keccak now] Cons.prems(2,3,5) by auto
  let ?p = "p\<lparr>tp_pending := m, tp_beats := AList.update a now (tp_beats p),
      tp_pendingNonces := nc_set (tp_pendingNonces p) a (tx_Nonce tx + 1)\<rparr>"
  have f: "free_nonce sender (listed m) x" if "x \<in> set txs" for x
    using that Cons.prems(2-4) m(3) by (auto simp: free_nonce_def)
  obtain m' b nc where m': "promote_txs keccak now ?p a (map Some txs) =
      Some (txs, p\<lparr>tp_pending := m', tp_beats := b, tp_pendingNonces := nc\<rparr>)"
      "acc_ok sender True m'" "listed m' = set txs \<union> listed m"
    using Cons.IH [of ?p] Cons.prems(2,4,5) m(2) f by auto
  show ?case using m m' by (intro exI [of _ m'] exI [of _ b] exI [of _ nc]) auto
qed

section \<open>The invariant\<close>

definition core_ok :: "bytes set \<Rightarrow> (bytes \<Rightarrow> bytes) \<Rightarrow> sender \<Rightarrow> TxPool \<Rightarrow> bool" where
  "core_ok own keccak sender p \<longleftrightarrow> lists_ok sender (tp_pending p) (tp_queue p) \<and> books_ok own keccak (tp_all p) (tp_CMdb p) (pool_txs p)"

definition pool_ok :: "bytes set \<Rightarrow> (bytes \<Rightarrow> bytes) \<Rightarrow> sender \<Rightarrow> TxPool \<Rightarrow> bool" where
  "pool_ok own keccak sender p \<longleftrightarrow> core_ok own keccak sender p \<and> priced_ok (tp_priced p) (pool_txs p)"

text \<open>The part of the pool that only \<open>reset\<close>, \<open>SetGasPrice\<close> and new local accounts change.\<close>

definition env :: "TxPool \<Rightarrow> TxPoolConfig \<times> int \<times> bool \<times> StateView \<times> u64" where
  "env p = (tp_config p, tp_gasPrice p, tp_istanbul p, tp_currentState p, tp_currentMaxGas p)"

lemma set_pending_spec:
  assumes "acc_ok sender True (tp_pending p)" and "tl_ok l" and "tl_strict l" and "\<And>tx. tx \<in> set (txs_of l) \<Longrightarrow> sender tx = Some a"
  obtains m b where "set_pending p a l = p\<lparr>tp_pending := m, tp_beats := b\<rparr>" and "acc_ok sender True m"
    and "listed m = (listed (tp_pending p) - of_acc sender a (listed (tp_pending p))) \<union> set (txs_of l)"
proof (cases "tl_Empty l")
  case True
  then show thesis using acc_delete [OF assms(1), of a]
    by (intro that [of "AList.delete a (tp_beats p)" "AList.delete a (tp_pending p)"]) (simp_all add: set_pending_def tl_Empty_iff)
next
  case False
  then show thesis using acc_update [OF assms(1,2) _ _ assms(4)] assms(3)
    by (intro that [of "tp_beats p" "AList.update a l (tp_pending p)"]) (simp_all add: set_pending_def tl_Empty_iff)
qed

lemma set_queue_spec:
  assumes "acc_ok sender False (tp_queue p)" and "tl_ok l" and "\<not> tl_strict l" and "\<And>tx. tx \<in> set (txs_of l) \<Longrightarrow> sender tx = Some a"
  obtains q where "set_queue p a l = p\<lparr>tp_queue := q\<rparr>" and "acc_ok sender False q"
    and "listed q = (listed (tp_queue p) - of_acc sender a (listed (tp_queue p))) \<union> set (txs_of l)"
proof (cases "tl_Empty l")
  case True
  then show thesis using acc_delete [OF assms(1), of a]
    by (intro that [of "AList.delete a (tp_queue p)"]) (simp_all add: set_queue_def tl_Empty_iff)
next
  case False
  then show thesis using acc_update [OF assms(1,2) _ _ assms(4)] assms(3)
    by (intro that [of "AList.update a l (tp_queue p)"]) (simp_all add: set_queue_def tl_Empty_iff)
qed

lemma distinct_nonces:
  assumes "distinct txs" and "\<And>x y. x \<in> set txs \<Longrightarrow> y \<in> set txs \<Longrightarrow> tx_Nonce x = tx_Nonce y \<Longrightarrow> x = y"
  shows "distinct (map tx_Nonce txs)"
  using assms by (simp add: distinct_map inj_on_def)

lemma split_off: "K \<union> I = L - {t} \<Longrightarrow> K \<inter> I = {} \<Longrightarrow> L \<subseteq> P \<Longrightarrow> t \<in> L \<Longrightarrow> (P - L) \<union> K = P - {t} - I"
  by (auto simp: set_eq_iff)

section \<open>removeTx\<close>

lemma remove_pending:
  assumes L: "lists_ok sender (tp_pending p) (tp_queue p)" and l: "map_of (tp_pending p) a = Some l"
    and tx: "tx \<in> set (txs_of l)" and s: "sender tx = Some a" and r: "tl_Remove l tx = (removed, invalids, l')"
    and known: "\<And>x. x \<in> pool_txs p \<Longrightarrow> x \<noteq> tx \<Longrightarrow> lk_Get (tp_all p) (tx_Hash keccak x) \<noteq> None"
  obtains m b q where "removed"
    and "enqueue_txs keccak sender (set_pending p a l') (map Some invalids) = Some (p\<lparr>tp_pending := m, tp_beats := b, tp_queue := q\<rparr>)"
    and "lists_ok sender m q" and "listed m \<union> listed q = pool_txs p - {tx}"
proof -
  note A = listsD [OF L]
  note k = acc_lookup [OF A(1) l]
  note R = tl_Remove_spec [OF k(1) r]
  have rem: "removed" using R(1) tx by blast
  have inv: "set invalids = {x \<in> set (txs_of l). tx_Nonce tx < tx_Nonce x}" using R(5) rem k(2) by simp
  have keep: "set (txs_of l') = {x \<in> set (txs_of l). tx_Nonce x \<noteq> tx_Nonce tx \<and> \<not> tx_Nonce tx < tx_Nonce x}" using R(6) rem k(2) by simp
  have sl: "sender x = Some a" if "x \<in> set (txs_of l)" for x using that k(4) by (simp add: of_acc_def)
  have split: "set (txs_of l') \<union> set invalids = set (txs_of l) - {tx}" "set (txs_of l') \<inter> set invalids = {}"
    using inv keep tl_nonce_inj [OF k(1) _ tx] by auto
  have st: "tl_strict l'" using R(3) k(2) by simp
  have sl': "sender x = Some a" if "x \<in> set (txs_of l')" for x using that sl unfolding keep by blast
  obtain m b where m: "set_pending p a l' = p\<lparr>tp_pending := m, tp_beats := b\<rparr>" "acc_ok sender True m"
      "listed m = (listed (tp_pending p) - of_acc sender a (listed (tp_pending p))) \<union> set (txs_of l')"
    by (rule set_pending_spec [OF A(1) R(2) st sl'])
  have in_p: "x \<in> listed (tp_pending p)" if "x \<in> set (txs_of l)" for x using that k(4) by (simp add: of_acc_def)
  have free: "free_nonce sender (listed (tp_queue p)) x" if "x \<in> set invalids" for x
    using that inv in_p A(3) unfolding free_nonce_def by (metis (no_types, lifting) mem_Collect_eq)
  have dist: "distinct (map tx_Nonce invalids)"
    using R(4) inv tl_nonce_inj [OF k(1)] by (intro distinct_nonces) auto
  have kn: "lk_Get (tp_all p) (tx_Hash keccak x) \<noteq> None" if "x \<in> set invalids" for x
    using that inv in_p known by auto
  let ?p = "p\<lparr>tp_pending := m, tp_beats := b\<rparr>"
  obtain q where q: "enqueue_txs keccak sender ?p (map Some invalids) = Some (?p\<lparr>tp_queue := q\<rparr>)" "acc_ok sender False q"
      "listed q = set invalids \<union> listed (tp_queue p)"
    using enqueue_txs_known [of sender ?p invalids a keccak] A(2) sl inv free dist kn by auto
  have m': "listed m = listed (tp_pending p) - {tx} - set invalids"
    unfolding m(3) k(4) [symmetric] by (rule split_off [OF split _ tx]) (use in_p in blast)
  have "sender x \<noteq> sender y \<or> tx_Nonce x \<noteq> tx_Nonce y" if "x \<in> listed m" "y \<in> listed q" for x y
  proof (cases "y \<in> set invalids")
    case True
    then have "y \<in> listed (tp_pending p)" using inv in_p by auto
    with True that(1) acc_nonce_inj [OF A(1), of x y] show ?thesis unfolding m' by auto
  next
    case False
    then show ?thesis using that A(3) [of x y] unfolding m' q(3) by auto
  qed
  then have "lists_ok sender m q" using m(2) q(2) by (auto simp: lists_ok_def free_nonce_def)
  moreover have "tx \<notin> listed (tp_queue p)" using A(3) [OF in_p [OF tx], of tx] by auto
  then have "listed m \<union> listed q = pool_txs p - {tx}" using m' q(3) inv in_p tx by auto
  ultimately show thesis using that rem m(1) q(1) by simp
qed

lemma remove_queued_spec:
  assumes L: "lists_ok sender (tp_pending p) (tp_queue p)" and tx: "tx \<in> listed (tp_queue p)" and s: "sender tx = Some a"
  obtains q where "remove_queued p a tx = p\<lparr>tp_queue := q\<rparr>" and "acc_ok sender False q" and "listed q = listed (tp_queue p) - {tx}"
proof -
  note A = listsD [OF L]
  obtain l where l: "map_of (tp_queue p) a = Some l" "tx \<in> set (txs_of l)" by (rule acc_mem [OF A(2) tx s])
  note k = acc_lookup [OF A(2) l(1)]
  obtain r inv l' where r: "tl_Remove l tx = (r, inv, l')" by (metis prod_cases3)
  note R = tl_Remove_spec [OF k(1) r]
  have keep: "set (txs_of l') = set (txs_of l) - {tx}" using R(6) k(2) tl_nonce_inj [OF k(1) _ l(2)] by auto
  have st: "\<not> tl_strict l'" using R(3) k(2) by simp
  have sl': "sender x = Some a" if "x \<in> set (txs_of l')" for x using that k(4) unfolding keep by (simp add: of_acc_def)
  obtain q where q: "set_queue p a l' = p\<lparr>tp_queue := q\<rparr>" "acc_ok sender False q"
      "listed q = (listed (tp_queue p) - of_acc sender a (listed (tp_queue p))) \<union> set (txs_of l')"
    by (rule set_queue_spec [OF A(2) R(2) st sl'])
  have "listed q = listed (tp_queue p) - {tx}"
    unfolding q(3) keep k(4) using s by (auto simp: of_acc_def)
  then show thesis using that q(1,2) l(1) r by (simp add: remove_queued_def)
qed

lemma removeTx_unfold:
  assumes "lk_Get (tp_all p) h = Some tx" and "reorgCM keccak (tp_CMdb p) tx = Some db" and "lk_Remove (tp_all p) h = Some al"
    and "sender tx = Some a" and "p2 = p\<lparr>tp_CMdb := db, tp_all := al, tp_priced := if oob then pl_Removed al (tp_priced p) 1 else tp_priced p\<rparr>"
  shows "removeTx keccak sender p h oob =
    (case map_of (tp_pending p) a of
       None \<Rightarrow> Some (remove_queued p2 a tx)
     | Some l \<Rightarrow> (let (removed, invalids, l') = tl_Remove l tx in
         if \<not> removed then Some (remove_queued p2 a tx)
         else do {
           p3 \<leftarrow> enqueue_txs keccak sender (set_pending p2 a l') (map Some invalids);
           Some (p3\<lparr>tp_pendingNonces := nc_setIfLower (tp_pendingNonces p3) a (tx_Nonce tx)\<rparr>) }))"
proof (cases oob)
  case True
  have e: "p2 = priced_Removed (p\<lparr>tp_CMdb := db, tp_all := al\<rparr>) 1" unfolding assms(5) using True by (simp add: priced_Removed_def)
  have "tp_pending (priced_Removed (p\<lparr>tp_CMdb := db, tp_all := al\<rparr>) 1) = tp_pending p" by (simp add: priced_Removed_def)
  then show ?thesis using assms(1-4) True unfolding e by (simp add: removeTx_def sender_of_def Let_def del: One_nat_def)
next
  case False
  have e: "p2 = p\<lparr>tp_CMdb := db, tp_all := al\<rparr>" unfolding assms(5) using False by (intro TxPool.equality) simp_all
  show ?thesis using assms(1-4) False unfolding e by (simp add: removeTx_def sender_of_def Let_def)
qed

text \<open>
  \<open>removeTx\<close> takes exactly the transaction with the given hash out of the pool; what followed it in
  the pending list moves to the queue.
\<close>

lemma removeTx_spec:
  assumes ok: "core_ok own keccak sender p"
  obtains p' where "removeTx keccak sender p h oob = Some p'" and "core_ok own keccak sender p'"
    and "pool_txs p' = {tx \<in> pool_txs p. tx_Hash keccak tx \<noteq> h}" and "env p' = env p" and "tp_locals p' = tp_locals p"
    and "oob \<Longrightarrow> priced_ok (tp_priced p) (pool_txs p) \<Longrightarrow> priced_ok (tp_priced p') (pool_txs p')"
    and "\<not> oob \<Longrightarrow> tp_priced p' = tp_priced p"
    and "\<And>tx. tx \<in> listed (tp_queue p) \<Longrightarrow> tx_Hash keccak tx = h \<Longrightarrow> tp_pending p' = tp_pending p \<and> listed (tp_queue p') = listed (tp_queue p) - {tx}"
    and "\<And>c. coins (tp_CMdb p') c = Locked \<Longrightarrow> coins (tp_CMdb p) c = Locked"
    and "coins (tp_CMdb p') = (case lk_Get (tp_all p) h of None \<Rightarrow> coins (tp_CMdb p) | Some tx \<Rightarrow> set_claim keccak (coins (tp_CMdb p)) tx Free)"
proof (cases "lk_Get (tp_all p) h")
  case None
  have L: "lists_ok sender (tp_pending p) (tp_queue p)" and B: "books_ok own keccak (tp_all p) (tp_CMdb p) (pool_txs p)"
    using ok by (auto simp: core_ok_def)
  have "tx_Hash keccak tx \<noteq> h" if "tx \<in> pool_txs p" for tx using books_lookup_None [OF B, of h] None that by blast
  then show thesis using ok None by (intro that [of p]) (auto simp: removeTx_def)
next
  case (Some tx)
  note concl = that
  have L: "lists_ok sender (tp_pending p) (tp_queue p)" and B: "books_ok own keccak (tp_all p) (tp_CMdb p) (pool_txs p)"
    using ok by (auto simp: core_ok_def)
  note A = listsD [OF L]
  have tx: "tx \<in> pool_txs p" "tx_Hash keccak tx = h" using books_lookup [OF B] Some by auto
  obtain a where s: "sender tx = Some a" using acc_sender [OF A(1)] acc_sender [OF A(2)] tx(1) by blast
  obtain al db where d: "books_ok own keccak al db (pool_txs p - {tx})" "reorgCM keccak (tp_CMdb p) tx = Some db"
      "lk_Remove (tp_all p) h = Some al" "\<And>c. coins db c = Locked \<Longrightarrow> coins (tp_CMdb p) c = Locked"
      "coins db = set_claim keccak (coins (tp_CMdb p)) tx Free"
    using drop_tx_spec [OF B tx(1)] tx(2) by metis
  define p2 where "p2 = p\<lparr>tp_CMdb := db, tp_all := al, tp_priced := if oob then pl_Removed al (tp_priced p) 1 else tp_priced p\<rparr>"
  have p2: "tp_pending p2 = tp_pending p" "tp_queue p2 = tp_queue p" "tp_all p2 = al" "tp_CMdb p2 = db" "tp_locals p2 = tp_locals p"
    "tp_priced p2 = (if oob then pl_Removed al (tp_priced p) 1 else tp_priced p)" "env p2 = env p"
    by (simp_all add: p2_def env_def)
  note U = removeTx_unfold [where sender = sender, OF Some d(2,3) s p2_def]
  have txs: "{x \<in> pool_txs p. tx_Hash keccak x \<noteq> h} = pool_txs p - {tx}"
  proof (rule set_eqI)
    fix x
    show "x \<in> {x \<in> pool_txs p. tx_Hash keccak x \<noteq> h} \<longleftrightarrow> x \<in> pool_txs p - {tx}"
      using books_hash_inj [OF B _ tx(1), of x] tx by (cases "x = tx") auto
  qed
  have pr: "priced_ok (pl_Removed al (tp_priced p) 1) (pool_txs p - {tx})" if "priced_ok (tp_priced p) (pool_txs p)"
    using pl_Removed_ok [OF d(1) priced_subset [OF that]] by blast
  have fin: thesis if rt: "removeTx keccak sender p h oob = Some p'" and Lp: "lists_ok sender (tp_pending p') (tp_queue p')"
    and set: "pool_txs p' = pool_txs p - {tx}" and fields: "tp_all p' = al" "tp_CMdb p' = db" "tp_priced p' = tp_priced p2" "env p' = env p"
      "tp_locals p' = tp_locals p"
    and q: "tx \<in> listed (tp_queue p) \<Longrightarrow> tp_pending p' = tp_pending p \<and> listed (tp_queue p') = listed (tp_queue p) - {tx}" for p'
  proof (rule concl [OF rt])
    show "core_ok own keccak sender p'" using Lp d(1) set fields by (simp add: core_ok_def)
    show "pool_txs p' = {tx \<in> pool_txs p. tx_Hash keccak tx \<noteq> h}" unfolding txs by (rule set)
    show "oob \<Longrightarrow> priced_ok (tp_priced p) (pool_txs p) \<Longrightarrow> priced_ok (tp_priced p') (pool_txs p')"
      unfolding set fields(3) p2(6) using pr by simp
    show "\<not> oob \<Longrightarrow> tp_priced p' = tp_priced p" using fields(3) p2(6) by simp
    show "coins (tp_CMdb p) c = Locked" if "coins (tp_CMdb p') c = Locked" for c using that d(4) fields(2) by simp
    show "coins (tp_CMdb p') = (case lk_Get (tp_all p) h of None \<Rightarrow> coins (tp_CMdb p) | Some tx \<Rightarrow> set_claim keccak (coins (tp_CMdb p)) tx Free)"
      using Some d(5) fields(2) by simp
    show "tp_pending p' = tp_pending p \<and> listed (tp_queue p') = listed (tp_queue p) - {x}"
      if "x \<in> listed (tp_queue p)" "tx_Hash keccak x = h" for x
    proof -
      have "x = tx" using books_hash_inj [OF B _ tx(1), of x] that tx(2) by simp
      with q that(1) show ?thesis by simp
    qed
  qed (rule fields)+
  show thesis
  proof (cases "tx \<in> listed (tp_pending p)")
    case True
    obtain l where l: "map_of (tp_pending p) a = Some l" "tx \<in> set (txs_of l)" by (rule acc_mem [OF A(1) True s])
    obtain r inv l' where r: "tl_Remove l tx = (r, inv, l')" by (metis prod_cases3)
    have kn: "lk_Get (tp_all p2) (tx_Hash keccak x) \<noteq> None" if "x \<in> pool_txs p2" "x \<noteq> tx" for x
      using books_lookup_None [OF d(1)] that p2 by auto
    obtain m b q where e: "r" "enqueue_txs keccak sender (set_pending p2 a l') (map Some inv) = Some (p2\<lparr>tp_pending := m, tp_beats := b, tp_queue := q\<rparr>)"
        "lists_ok sender m q" "listed m \<union> listed q = pool_txs p2 - {tx}"
      using remove_pending [of sender p2 a l tx r inv l' keccak] L l s r kn p2(1,2) by metis
    let ?p3 = "p2\<lparr>tp_pending := m, tp_beats := b, tp_queue := q\<rparr>"
    let ?p' = "?p3\<lparr>tp_pendingNonces := nc_setIfLower (tp_pendingNonces ?p3) a (tx_Nonce tx)\<rparr>"
    have "tx \<notin> listed (tp_queue p)" using A(3) [OF True, of tx] by auto
    then show ?thesis
      using e l(1) r p2 U by (intro fin [of ?p']) (simp_all add: env_def)
  next
    case False
    then have txq: "tx \<in> listed (tp_queue p)" using tx(1) by blast
    obtain q where q: "remove_queued p2 a tx = p2\<lparr>tp_queue := q\<rparr>" "acc_ok sender False q" "listed q = listed (tp_queue p) - {tx}"
      using remove_queued_spec [of sender p2 tx a] L txq s p2(1,2) by metis
    have "\<not> fst (tl_Remove l tx)" if "map_of (tp_pending p) a = Some l" for l
    proof
      note k = acc_lookup [OF A(1) that]
      obtain r inv l' where r: "tl_Remove l tx = (r, inv, l')" by (metis prod_cases3)
      assume "fst (tl_Remove l tx)"
      then obtain x where "x \<in> set (txs_of l)" "tx_Nonce x = tx_Nonce tx" using tl_Remove_spec(1) [OF k(1) r] r by auto
      then show False using A(3) [of x tx] txq s unfolding k(4) of_acc_def by simp
    qed
    then have rt: "removeTx keccak sender p h oob = Some (p2\<lparr>tp_queue := q\<rparr>)"
      unfolding U using q(1) by (auto split: option.split prod.split)
    have "lists_ok sender (tp_pending p) q" using L q(2,3) by (simp add: lists_ok_def)
    moreover have "listed (tp_pending p) \<union> listed q = pool_txs p - {tx}" using q(3) False by auto
    ultimately show ?thesis using rt q p2 by (intro fin [of "p2\<lparr>tp_queue := q\<rparr>"]) (simp_all add: env_def)
  qed
qed

lemma remove_txs_spec:
  assumes "core_ok own keccak sender p"
  shows "\<exists>p'. remove_txs keccak sender p txs oob = Some p' \<and> core_ok own keccak sender p' \<and>
    pool_txs p' = {tx \<in> pool_txs p. tx_Hash keccak tx \<notin> tx_Hash keccak ` set txs} \<and> env p' = env p \<and> tp_locals p' = tp_locals p \<and>
    (oob \<longrightarrow> priced_ok (tp_priced p) (pool_txs p) \<longrightarrow> priced_ok (tp_priced p') (pool_txs p')) \<and>
    (\<not> oob \<longrightarrow> tp_priced p' = tp_priced p) \<and>
    (\<forall>c. coins (tp_CMdb p') c = Locked \<longrightarrow> coins (tp_CMdb p) c = Locked)"
  using assms
proof (induction txs arbitrary: p)
  case Nil
  then show ?case by auto
next
  case (Cons tx txs)
  obtain p1 where r: "removeTx keccak sender p (tx_Hash keccak tx) oob = Some p1" "core_ok own keccak sender p1"
      "pool_txs p1 = {x \<in> pool_txs p. tx_Hash keccak x \<noteq> tx_Hash keccak tx}" "env p1 = env p" "tp_locals p1 = tp_locals p"
      "oob \<Longrightarrow> priced_ok (tp_priced p) (pool_txs p) \<Longrightarrow> priced_ok (tp_priced p1) (pool_txs p1)"
      "\<not> oob \<Longrightarrow> tp_priced p1 = tp_priced p" "\<And>c. coins (tp_CMdb p1) c = Locked \<Longrightarrow> coins (tp_CMdb p) c = Locked"
    by (rule removeTx_spec [OF Cons.prems, of "tx_Hash keccak tx" oob]) (rule that)
  obtain p2 where r2: "remove_txs keccak sender p1 txs oob = Some p2" "core_ok own keccak sender p2"
      "pool_txs p2 = {x \<in> pool_txs p1. tx_Hash keccak x \<notin> tx_Hash keccak ` set txs}" "env p2 = env p1" "tp_locals p2 = tp_locals p1"
      "oob \<longrightarrow> priced_ok (tp_priced p1) (pool_txs p1) \<longrightarrow> priced_ok (tp_priced p2) (pool_txs p2)"
      "\<not> oob \<longrightarrow> tp_priced p2 = tp_priced p1" "\<forall>c. coins (tp_CMdb p2) c = Locked \<longrightarrow> coins (tp_CMdb p1) c = Locked"
    using Cons.IH [OF r(2)] by blast
  have "pool_txs p2 = {x \<in> pool_txs p. tx_Hash keccak x \<notin> tx_Hash keccak ` set (tx # txs)}" unfolding r2(3) r(3) by auto
  with r r2 show ?case by (intro exI [of _ p2]) auto
qed

section \<open>Adding transactions\<close>

text \<open>A new transaction takes the place of an old one, if there is one, in the tables.\<close>

lemma replace_spec:
  assumes B: "books_ok own keccak (tp_all p) (tp_CMdb p) A" and P: "priced_ok (tp_priced p) A"
    and new: "\<And>x. x \<in> A \<Longrightarrow> tx_Hash keccak x \<noteq> tx_Hash keccak tx" "tx_good tx" "claim_of keccak tx = Some h" "coins (tp_CMdb p) h \<noteq> Locked"
    and old: "set_option old \<subseteq> A"
  obtains p2 al db pr where "drop_old keccak p old = Some p2" and "lk_Get (tp_all p2) (tx_Hash keccak tx) = None"
    and "enter_tx keccak p2 tx = Some (p\<lparr>tp_CMdb := db, tp_all := al, tp_priced := pr\<rparr>)"
    and "books_ok own keccak al db (insert tx (A - set_option old))" and "priced_ok pr (insert tx (A - set_option old))"
    and "coins db h = Locked"
proof -
  have "\<exists>al db pr. drop_old keccak p old = Some (p\<lparr>tp_CMdb := db, tp_all := al, tp_priced := pr\<rparr>) \<and>
      books_ok own keccak al db (A - set_option old) \<and> priced_ok pr (A - set_option old) \<and> coins db h \<noteq> Locked"
  proof (cases old)
    case None
    have "p = p\<lparr>tp_CMdb := tp_CMdb p, tp_all := tp_all p, tp_priced := tp_priced p\<rparr>" by (rule TxPool.equality) simp_all
    with None B P new(4) show ?thesis by (metis Diff_empty drop_old_def option.case(1) option.set(1))
  next
    case (Some x)
    then have x: "x \<in> A" using old by simp
    obtain al db where d: "drop_tx keccak p x = Some (p\<lparr>tp_CMdb := db, tp_all := al\<rparr>)" "books_ok own keccak al db (A - {x})"
        "\<And>h. coins db h = Locked \<Longrightarrow> coins (tp_CMdb p) h = Locked"
      by (rule drop_tx_spec [OF B x]) blast
    have "priced_ok (pl_Removed al (tp_priced p) 1) (A - {x})" using pl_Removed_ok [OF d(2) priced_subset [OF P]] by blast
    moreover have "drop_old keccak p old = Some (p\<lparr>tp_CMdb := db, tp_all := al, tp_priced := pl_Removed al (tp_priced p) 1\<rparr>)"
      using Some d(1) by (simp add: drop_old_def priced_Removed_def)
    ultimately show ?thesis using Some d(2,3) new(4) by auto
  qed
  then obtain al db pr where d: "drop_old keccak p old = Some (p\<lparr>tp_CMdb := db, tp_all := al, tp_priced := pr\<rparr>)"
      "books_ok own keccak al db (A - set_option old)" "priced_ok pr (A - set_option old)" "coins db h \<noteq> Locked" by blast
  let ?p = "p\<lparr>tp_CMdb := db, tp_all := al, tp_priced := pr\<rparr>"
  have fresh: "tx_Hash keccak x \<noteq> tx_Hash keccak tx" if "x \<in> A - set_option old" for x using new(1) that by blast
  obtain al' db' where e: "enter_tx keccak ?p tx = Some (?p\<lparr>tp_CMdb := db', tp_all := al', tp_priced := pl_Put (tp_priced ?p) tx\<rparr>)"
      "books_ok own keccak al' db' (insert tx (A - set_option old))" "coins db' h = Locked"
    using enter_tx_spec [of own keccak ?p "A - set_option old" tx h] d fresh new(2,3) by auto
  have "lk_Get (tp_all ?p) (tx_Hash keccak tx) = None" using books_lookup_None [OF d(2)] fresh by simp
  with d(1) e pl_Put_ok [OF d(3), of tx] show thesis by (intro that [of ?p "pl_Put pr tx" al' db']) simp_all
qed

text \<open>What \<open>add\<close> does with the set of pooled transactions.\<close>

definition added :: "sender \<Rightarrow> Transaction \<Rightarrow> Transaction set \<Rightarrow> Transaction set" where
  "added sender tx X = insert tx {x \<in> X. \<not> (sender x = sender tx \<and> tx_Nonce x = tx_Nonce tx)}"

lemma minus_old:
  assumes "\<And>x. old = Some x \<Longrightarrow> x \<in> X \<and> C x" and "old = None \<Longrightarrow> \<forall>x \<in> X. \<not> C x"
    and "\<And>x y. x \<in> X \<Longrightarrow> y \<in> X \<Longrightarrow> C x \<Longrightarrow> C y \<Longrightarrow> x = y"
  shows "X - set_option old = {x \<in> X. \<not> C x}"
  using assms by (cases old) auto

lemma add_checked_enqueue:
  assumes ok: "pool_ok own keccak sender p" and s: "sender tx = Some a" and free: "free_nonce sender (listed (tp_pending p)) tx"
    and new: "\<And>x. x \<in> pool_txs p \<Longrightarrow> tx_Hash keccak x \<noteq> tx_Hash keccak tx" "tx_good tx" "claim_of keccak tx = Some h" "coins (tp_CMdb p) h \<noteq> Locked"
  obtains r p' where "enqueueTx keccak sender p (tx_Hash keccak tx) tx = Some (r, p')" and "pool_ok own keccak sender p'"
    and "env p' = env p" and "tp_locals p' = tp_locals p" and "pool_txs p' = (case r of Inl _ \<Rightarrow> pool_txs p | Inr _ \<Rightarrow> added sender tx (pool_txs p))"
    and "free_nonce sender (listed (tp_queue p)) tx \<Longrightarrow> r = Inr False" and "\<And>b. r = Inr b \<Longrightarrow> coins (tp_CMdb p') h = Locked"
proof -
  have L: "lists_ok sender (tp_pending p) (tp_queue p)" and B: "books_ok own keccak (tp_all p) (tp_CMdb p) (pool_txs p)"
    and P: "priced_ok (tp_priced p) (pool_txs p)" using ok by (auto simp: core_ok_def pool_ok_def)
  note A = listsD [OF L]
  obtain ins old l' where add: "tl_Add (case map_of (tp_queue p) a of None \<Rightarrow> newTxList False | Some l \<Rightarrow> l) tx
      (cfg_PriceBump (tp_config p)) = (ins, old, l')" by (metis prod_cases3)
  note t = acc_add [of sender, OF A(2) s add]
  let ?q = "AList.update a l' (tp_queue p)"
  let ?p1 = "p\<lparr>tp_queue := ?q\<rparr>"
  show thesis
  proof (cases ins)
    case False
    have "?p1 = p" using t(1) [OF False] by (intro TxPool.equality) simp_all
    then have "enqueueTx keccak sender p (tx_Hash keccak tx) tx = Some (Inl ErrReplaceUnderpriced, p)"
      using add False by (simp add: enqueueTx_def sender_of_def s)
    then show thesis using ok t(1) [OF False] by (intro that [of "Inl ErrReplaceUnderpriced" p]) simp_all
  next
    case True
    note u = t(2) [OF True]
    have old: "set_option old \<subseteq> pool_txs p" using u by auto
    obtain p2 al db pr where e: "drop_old keccak ?p1 old = Some p2" "lk_Get (tp_all p2) (tx_Hash keccak tx) = None"
        "enter_tx keccak p2 tx = Some (?p1\<lparr>tp_CMdb := db, tp_all := al, tp_priced := pr\<rparr>)"
        "books_ok own keccak al db (insert tx (pool_txs p - set_option old))" "priced_ok pr (insert tx (pool_txs p - set_option old))"
        "coins db h = Locked"
      by (rule replace_spec [of own keccak ?p1, OF _ _ new(1-3) _ old]) (use B P new(4) that in simp_all)
    have enq: "enqueueTx keccak sender p (tx_Hash keccak tx) tx = Some (Inr (old \<noteq> None), ?p1\<lparr>tp_CMdb := db, tp_all := al, tp_priced := pr\<rparr>)"
      using add True e(1-3) by (simp add: enqueueTx_def sender_of_def s)
    have pend: "{x \<in> listed (tp_pending p). \<not> (sender x = Some a \<and> tx_Nonce x = tx_Nonce tx)} = listed (tp_pending p)"
      using free s by (auto simp: free_nonce_def)
    have "pool_txs p - set_option old = {x \<in> pool_txs p. \<not> (sender x = Some a \<and> tx_Nonce x = tx_Nonce tx)}"
    proof (rule minus_old)
      show "x \<in> pool_txs p \<and> sender x = Some a \<and> tx_Nonce x = tx_Nonce tx" if "old = Some x" for x using u that by blast
      show "\<forall>x \<in> pool_txs p. \<not> (sender x = Some a \<and> tx_Nonce x = tx_Nonce tx)" if "old = None"
        using u that free s by (auto simp: free_nonce_def)
      show "x = y" if "x \<in> pool_txs p" "y \<in> pool_txs p" "sender x = Some a \<and> tx_Nonce x = tx_Nonce tx"
          "sender y = Some a \<and> tx_Nonce y = tx_Nonce tx" for x y
        using lists_nonce_inj [OF L that(1,2)] that(3,4) by simp
    qed
    then have set: "insert tx (pool_txs p - set_option old) = added sender tx (pool_txs p)" by (simp add: added_def s)
    have lq: "listed (tp_pending p) \<union> listed ?q = added sender tx (pool_txs p)"
      using u pend by (auto simp: added_def s)
    have "lists_ok sender (tp_pending p) ?q" using u A free by (auto simp: lists_ok_def free_nonce_def)
    moreover have "Inr (old \<noteq> None) = Inr False" if "free_nonce sender (listed (tp_queue p)) tx" using u that by simp
    ultimately show thesis using enq e(4-6) lq unfolding set
      by (intro that [of "Inr (old \<noteq> None)" "?p1\<lparr>tp_CMdb := db, tp_all := al, tp_priced := pr\<rparr>"]) (simp_all add: pool_ok_def core_ok_def env_def)
  qed
qed

lemma add_checked_replace:
  assumes ok: "pool_ok own keccak sender p" and s: "sender tx = Some a" and l: "map_of (tp_pending p) a = Some l" and ov: "tl_Overlaps l tx"
    and new: "\<And>x. x \<in> pool_txs p \<Longrightarrow> tx_Hash keccak x \<noteq> tx_Hash keccak tx" "tx_good tx" "claim_of keccak tx = Some h" "coins (tp_CMdb p) h \<noteq> Locked"
  obtains r p' where "add_checked keccak sender p tx local = Some (r, p')" and "pool_ok own keccak sender p'"
    and "env p' = env p" and "tp_locals p' = tp_locals p" and "pool_txs p' = (case r of Inl _ \<Rightarrow> pool_txs p | Inr _ \<Rightarrow> added sender tx (pool_txs p))"
    and "\<And>b. r = Inr b \<Longrightarrow> coins (tp_CMdb p') h = Locked"
proof -
  have L: "lists_ok sender (tp_pending p) (tp_queue p)" and B: "books_ok own keccak (tp_all p) (tp_CMdb p) (pool_txs p)"
    and P: "priced_ok (tp_priced p) (pool_txs p)" using ok by (auto simp: core_ok_def pool_ok_def)
  note A = listsD [OF L]
  obtain ins old l' where add: "tl_Add l tx (cfg_PriceBump (tp_config p)) = (ins, old, l')" by (metis prod_cases3)
  have add': "tl_Add (case map_of (tp_pending p) a of None \<Rightarrow> newTxList True | Some l \<Rightarrow> l) tx (cfg_PriceBump (tp_config p)) = (ins, old, l')"
    using add l by simp
  note t = acc_add [of sender, OF A(1) s add']
  show thesis
  proof (cases ins)
    case False
    then have "add_checked keccak sender p tx local = Some (Inl ErrReplaceUnderpriced, p)"
      using l ov add by (simp add: add_checked_def sender_of_def s)
    then show thesis using ok by (intro that [of "Inl ErrReplaceUnderpriced" p]) simp_all
  next
    case True
    note u = t(2) [OF True]
    let ?m = "AList.update a l' (tp_pending p)"
    let ?p1 = "p\<lparr>tp_pending := ?m\<rparr>"
    have old: "set_option old \<subseteq> pool_txs p" using u by auto
    obtain p2 al db pr where e: "drop_old keccak ?p1 old = Some p2" "lk_Get (tp_all p2) (tx_Hash keccak tx) = None"
        "enter_tx keccak p2 tx = Some (?p1\<lparr>tp_CMdb := db, tp_all := al, tp_priced := pr\<rparr>)"
        "books_ok own keccak al db (insert tx (pool_txs p - set_option old))" "priced_ok pr (insert tx (pool_txs p - set_option old))"
        "coins db h = Locked"
      by (rule replace_spec [of own keccak ?p1, OF _ _ new(1-3) _ old]) (use B P new(4) that in simp_all)
    have ac: "add_checked keccak sender p tx local = Some (Inr (old \<noteq> None), ?p1\<lparr>tp_CMdb := db, tp_all := al, tp_priced := pr\<rparr>)"
      using l ov add True e(1-3) by (simp add: add_checked_def sender_of_def s)
    obtain y where y: "y \<in> listed (tp_pending p)" "sender y = Some a" "tx_Nonce y = tx_Nonce tx"
      using ov tl_Overlaps [OF acc_lookup(1) [OF A(1) l]] acc_lookup(4) [OF A(1) l] by (auto simp: of_acc_def)
    have que: "sender x \<noteq> Some a \<or> tx_Nonce x \<noteq> tx_Nonce tx" if "x \<in> listed (tp_queue p)" for x
      using A(3) [OF y(1) that] y by auto
    have "pool_txs p - set_option old = {x \<in> pool_txs p. \<not> (sender x = Some a \<and> tx_Nonce x = tx_Nonce tx)}"
    proof (rule minus_old)
      show "x \<in> pool_txs p \<and> sender x = Some a \<and> tx_Nonce x = tx_Nonce tx" if "old = Some x" for x using u that by blast
      show "\<forall>x \<in> pool_txs p. \<not> (sender x = Some a \<and> tx_Nonce x = tx_Nonce tx)" if "old = None"
        using u that y s by (auto simp: free_nonce_def)
      show "x = z" if "x \<in> pool_txs p" "z \<in> pool_txs p" "sender x = Some a \<and> tx_Nonce x = tx_Nonce tx"
          "sender z = Some a \<and> tx_Nonce z = tx_Nonce tx" for x z
        using lists_nonce_inj [OF L that(1,2)] that(3,4) by simp
    qed
    then have set: "insert tx (pool_txs p - set_option old) = added sender tx (pool_txs p)" by (simp add: added_def s)
    have lm: "listed ?m \<union> listed (tp_queue p) = added sender tx (pool_txs p)"
    proof -
      have "{x \<in> listed (tp_queue p). \<not> (sender x = Some a \<and> tx_Nonce x = tx_Nonce tx)} = listed (tp_queue p)" using que by blast
      then have "added sender tx (pool_txs p) = insert tx {x \<in> listed (tp_pending p). \<not> (sender x = Some a \<and> tx_Nonce x = tx_Nonce tx)} \<union> listed (tp_queue p)"
        unfolding added_def s by (simp only: Un_iff Collect_disj_eq conj_disj_distribR Un_insert_left)
      with u show ?thesis by simp
    qed
    have "free_nonce sender (listed ?m) x" if x: "x \<in> listed (tp_queue p)" for x
    proof -
      have "sender z \<noteq> sender x \<or> tx_Nonce z \<noteq> tx_Nonce x" if "z \<in> listed ?m" for z
      proof (cases "z = tx")
        case True
        then show ?thesis using que [OF x] s by metis
      next
        case False
        then have "z \<in> listed (tp_pending p)" using that unfolding conjunct1 [OF conjunct2 [OF u]] by blast
        then show ?thesis using A(3) [OF _ x] by blast
      qed
      then show ?thesis by (auto simp: free_nonce_def)
    qed
    then have "lists_ok sender ?m (tp_queue p)" using u A(2) by (simp add: lists_ok_def)
    then show thesis using ac e(4-6) lm unfolding set
      by (intro that [of "Inr (old \<noteq> None)" "?p1\<lparr>tp_CMdb := db, tp_all := al, tp_priced := pr\<rparr>"]) (simp_all add: pool_ok_def core_ok_def env_def)
  qed
qed

lemma add_checked_spec:
  assumes ok: "pool_ok own keccak sender p" and s: "sender tx = Some a"
    and new: "\<And>x. x \<in> pool_txs p \<Longrightarrow> tx_Hash keccak x \<noteq> tx_Hash keccak tx" "tx_good tx" "claim_of keccak tx = Some h" "coins (tp_CMdb p) h \<noteq> Locked"
  obtains r p' where "add_checked keccak sender p tx local = Some (r, p')" and "pool_ok own keccak sender p'"
    and "env p' = env p" and "pool_txs p' = (case r of Inl _ \<Rightarrow> pool_txs p | Inr _ \<Rightarrow> added sender tx (pool_txs p))"
    and "free_nonce sender (pool_txs p) tx \<Longrightarrow> r = Inr False" and "\<And>b. r = Inr b \<Longrightarrow> coins (tp_CMdb p') h = Locked"
proof (cases "\<exists>l. map_of (tp_pending p) a = Some l \<and> tl_Overlaps l tx")
  case True
  then obtain l where l: "map_of (tp_pending p) a = Some l" "tl_Overlaps l tx" by blast
  have A: "acc_ok sender True (tp_pending p)" using ok by (auto simp: pool_ok_def core_ok_def lists_ok_def)
  have "\<not> free_nonce sender (pool_txs p) tx"
    using l(2) tl_Overlaps [OF acc_lookup(1) [OF A l(1)]] acc_lookup(4) [OF A l(1)] s by (auto simp: free_nonce_def of_acc_def)
  with add_checked_replace [of own keccak sender, OF ok s l new] that show thesis by metis
next
  case False
  have A: "acc_ok sender True (tp_pending p)" using ok by (auto simp: pool_ok_def core_ok_def lists_ok_def)
  have "free_nonce sender (listed (tp_pending p)) tx"
  proof (cases "map_of (tp_pending p) a")
    case None
    then show ?thesis using acc_lookup_None [OF A None] s by (auto simp: free_nonce_def of_acc_def)
  next
    case (Some l)
    then show ?thesis using acc_lookup [OF A Some] tl_Overlaps [of l tx] False s by (auto simp: free_nonce_def of_acc_def)
  qed
  then obtain r p1 where e: "enqueueTx keccak sender p (tx_Hash keccak tx) tx = Some (r, p1)" "pool_ok own keccak sender p1" "env p1 = env p"
      "tp_locals p1 = tp_locals p" "pool_txs p1 = (case r of Inl _ \<Rightarrow> pool_txs p | Inr _ \<Rightarrow> added sender tx (pool_txs p))"
      "free_nonce sender (listed (tp_queue p)) tx \<longrightarrow> r = Inr False" "\<forall>b. r = Inr b \<longrightarrow> coins (tp_CMdb p1) h = Locked"
    using add_checked_enqueue [of own keccak sender, OF ok s _ new] by metis
  let ?p2 = "case r of Inl _ \<Rightarrow> p1 | Inr _ \<Rightarrow> if local then p1\<lparr>tp_locals := insert a (tp_locals p1)\<rparr> else p1"
  have "add_checked keccak sender p tx local = Some (r, ?p2)"
    using False e(1) by (auto simp: add_checked_def add_queued_def sender_of_def s split: option.splits sum.splits)
  moreover have "pool_ok own keccak sender ?p2 \<and> env ?p2 = env p \<and> pool_txs ?p2 = pool_txs p1 \<and> tp_CMdb ?p2 = tp_CMdb p1"
    using e(2,3) by (auto simp: pool_ok_def core_ok_def env_def split: sum.splits)
  moreover have "r = Inr False" if "free_nonce sender (pool_txs p) tx" using e(6) that by (simp add: free_nonce_def)
  ultimately show thesis using e(5,7) by (intro that [of r ?p2]) simp_all
qed

end
