(* ===== verification/Pool_Ops.thy ===== *)
theory Pool_Ops
  imports Pool_Inv
begin

text \<open>
  The invariant under every operation of the pool, and that none of them panics. A transaction that
  came over the wire has no nil field, so that the checks of its signature and proofs return.
\<close>

section \<open>Word arithmetic of the limits\<close>

lemma sint_le_uint: "sint (w :: u64) \<le> uint w"
proof -
  have "sint w = signed_take_bit 63 (uint w)" by (simp add: sint_uint)
  also have "\<dots> = take_bit 64 (uint w) - 2 ^ 64 * of_bool (bit (uint w) 63)"
    using signed_take_bit_eq_take_bit_minus [of 63 "uint w"] by simp
  also have "\<dots> \<le> take_bit 64 (uint w)" by simp
  also have "\<dots> = uint w" using uint_lt2p [of w] by (simp add: take_bit_int_eq_self_iff)
  finally show ?thesis .
qed

lemma uint_le_of_nat: "w \<le> (of_nat n :: u64) \<Longrightarrow> uint w \<le> int n"
proof -
  assume "w \<le> (of_nat n :: u64)"
  then have "uint w \<le> uint (of_nat n :: u64)" by (simp add: word_le_def)
  also have "\<dots> = int n mod 2 ^ 64" by (simp add: unsigned_of_nat take_bit_eq_mod zmod_int)
  also have "\<dots> \<le> int n" by (simp add: zmod_le_nonneg_dividend)
  finally show ?thesis .
qed

section \<open>The checks return\<close>

lemma big_Mod_returns: "m \<noteq> 0 \<Longrightarrow> \<exists>y. big_Mod x m = Some y"
  by (simp add: big_Mod_def)

lemma linear_t_returns: "P \<noteq> 0 \<Longrightarrow> \<exists>y. linear_t P gv t = Some y"
  by (induction P gv t rule: linear_t.induct) (auto simp: big_Mod_def)

lemma linear_mix_returns: "P \<noteq> 0 \<Longrightarrow> \<exists>y. linear_mix P as t = Some y"
  by (induction P as t rule: linear_mix.induct) (auto simp: big_Mod_def)

lemma VerifyFormatProof_returns: "pk_P pub \<noteq> 0 \<Longrightarrow> \<exists>b. VerifyFormatProof sha C pub fp = Some b"
  by (simp add: VerifyFormatProof_def hash_mod_def big_Mod_def Let_def)

lemma VerifyBalanceProof_returns: "pk_P pub \<noteq> 0 \<Longrightarrow> \<exists>b. VerifyBalanceProof sha r s v pub bp = Some b"
  by (simp add: VerifyBalanceProof_def balance_ts_def balance_t_def hash_mod_def big_Mod_def Let_def)

lemma VerifyLinearEquationProof_returns:
  assumes "1 < pk_P pub"
  shows "\<exists>b. VerifyLinearEquationProof sha lp y b0 a g pub = Some b"
proof -
  obtain c where c: "hash_mod sha pub (concat g @ y @ lp_T lp) = Some c"
    using big_Mod_returns assms by (fastforce simp: hash_mod_def)
  obtain t where t: "linear_t (pk_P pub) (zip g (map big_SetBytes (lp_S lp))) (big_Exp (big_SetBytes y) c (pk_P pub)) = Some t"
    using linear_t_returns assms by fastforce
  obtain m where m: "linear_mix (pk_P pub - 1) (zip a (lp_S lp)) 0 = Some m" using linear_mix_returns assms by fastforce
  show ?thesis using c t m by (auto simp: VerifyLinearEquationProof_def)
qed

lemma VerifyEqualityProof_returns:
  assumes "1 < pk_P pub1"
  shows "\<exists>b. VerifyEqualityProof sha pub1 pub2 C1 C2 ep = Some b"
proof -
  obtain Y where "big_Mod (big_SetBytes (ct_C2 C1) * big_SetBytes (ct_C2 C2)) (pk_P pub1) = Some Y"
    using big_Mod_returns assms by fastforce
  then show ?thesis using VerifyLinearEquationProof_returns [OF assms]
    by (cases "pk_P pub1 = pk_P pub2") (auto simp: VerifyEqualityProof_def)
qed

lemma Verify_returns: "pk_P pub \<noteq> 0 \<Longrightarrow> \<exists>b. Verify sha pub sig = Some b"
  by (auto simp: Verify_def big_Mod_def Let_def)

text \<open>The moduli of the configured keys of exchange and regulator.\<close>

definition keys_ok :: "TxPoolConfig \<Rightarrow> bool" where
  "keys_ok cfg \<longleftrightarrow> 1 < pk_P (cfg_Exchange cfg) \<and> 1 < pk_P (cfg_Regulator cfg)"

lemma wire_fields:
  "\<exists>x. EVS (Tx (wire d)) = Some x" "\<exists>x. EVR (Tx (wire d)) = Some x" "\<exists>x. CMsFP (Tx (wire d)) = Some x"
  "\<exists>x. CMrFP (Tx (wire d)) = Some x" "\<exists>x. BP (Tx (wire d)) = Some x" "\<exists>x. EVO (Tx (wire d)) = Some x"
  "\<exists>x. ERPK (Tx (wire d)) = Some x" "\<exists>x. ESPK (Tx (wire d)) = Some x" "\<exists>x. EvoEP (Tx (wire d)) = Some x"
  "\<exists>x. ErpkEP (Tx (wire d)) = Some x" "\<exists>x. EspkEP (Tx (wire d)) = Some x"
  "\<exists>x. Btob (tx_CmR (Tx (wire d))) = Some x" "\<exists>x. Btob (tx_CmS (Tx (wire d))) = Some x" "\<exists>x. Btob (tx_CmO (Tx (wire d))) = Some x"
  "\<exists>x. Btob (tx_CMRpk (Tx (wire d))) = Some x" "\<exists>x. Btob (tx_CMSpk (Tx (wire d))) = Some x"
  "\<exists>x. Btob (tx_SigM (Tx (wire d))) = Some x" "\<exists>x. Btob (tx_SigMHash (Tx (wire d))) = Some x"
  "\<exists>x. Btob (tx_SigR (Tx (wire d))) = Some x" "\<exists>x. Btob (tx_SigS (Tx (wire d))) = Some x"
  by (simp_all add: EVS_def EVR_def CMsFP_def CMrFP_def BP_def EVO_def ERPK_def ESPK_def EvoEP_def ErpkEP_def EspkEP_def
      Btob_def tx_CmR_def tx_CmS_def tx_CmO_def tx_CMRpk_def tx_CMSpk_def tx_SigM_def tx_SigMHash_def tx_SigR_def tx_SigS_def
      wire_def fill_def)

lemma validateSign_returns:
  assumes "keys_ok (tp_config p)"
  shows "\<exists>r. validateSign sha p (Tx (wire d)) = Some r"
proof -
  obtain M H R S where f: "Btob (tx_SigM (Tx (wire d))) = Some M" "Btob (tx_SigMHash (Tx (wire d))) = Some H"
      "Btob (tx_SigR (Tx (wire d))) = Some R" "Btob (tx_SigS (Tx (wire d))) = Some S"
    using wire_fields(17-20) by metis
  obtain b where "Verify sha (cfg_Exchange (tp_config p)) \<lparr>sig_M = M, sig_M_hash = H, sig_R = R, sig_S = S\<rparr> = Some b"
    using Verify_returns [of "cfg_Exchange (tp_config p)" sha] assms by (auto simp: keys_ok_def)
  with f show ?thesis by (simp add: validateSign_def)
qed

lemma verifyzkp_returns:
  assumes "keys_ok (tp_config p)"
  shows "\<exists>r. verifyzkp sha p (Tx (wire d)) = Some r"
proof -
  let ?tx = "Tx (wire d)" and ?pub = "cfg_Regulator (tp_config p)"
  have P: "1 < pk_P ?pub" "pk_P ?pub \<noteq> 0" using assms by (auto simp: keys_ok_def)
  obtain evs evr fs fr bp evo erpk espk e1 e2 e3 cmr cms cmo cmrpk cmspk where f:
      "EVS ?tx = Some evs" "EVR ?tx = Some evr" "CMsFP ?tx = Some fs" "CMrFP ?tx = Some fr" "BP ?tx = Some bp" "EVO ?tx = Some evo"
      "ERPK ?tx = Some erpk" "ESPK ?tx = Some espk" "EvoEP ?tx = Some e1" "ErpkEP ?tx = Some e2" "EspkEP ?tx = Some e3"
      "Btob (tx_CmR ?tx) = Some cmr" "Btob (tx_CmS ?tx) = Some cms" "Btob (tx_CmO ?tx) = Some cmo"
      "Btob (tx_CMRpk ?tx) = Some cmrpk" "Btob (tx_CMSpk ?tx) = Some cmspk"
    using wire_fields [of d] by blast
  obtain b1 b2 b3 b4 b5 b6 where v: "VerifyFormatProof sha evs ?pub fs = Some b1" "VerifyFormatProof sha evr ?pub fr = Some b2"
      "VerifyBalanceProof sha cmr cms cmo ?pub bp = Some b3"
      "VerifyEqualityProof sha ?pub ?pub evo \<lparr>ct_C1 = [], ct_C2 = cmo\<rparr> e1 = Some b4"
      "VerifyEqualityProof sha ?pub ?pub erpk \<lparr>ct_C1 = [], ct_C2 = cmrpk\<rparr> e2 = Some b5"
      "VerifyEqualityProof sha ?pub ?pub espk \<lparr>ct_C1 = [], ct_C2 = cmspk\<rparr> e3 = Some b6"
    using VerifyFormatProof_returns [OF P(2)] VerifyBalanceProof_returns [OF P(2)] VerifyEqualityProof_returns [OF P(1)] by metis
  show ?thesis by (simp add: verifyzkp_def Let_def f v)
qed

section \<open>add\<close>

lemma numSlots_pos: "tx_good tx \<Longrightarrow> 1 \<le> numSlots tx"
  using div_le_mono [of 32768 "tx_Size tx + 32768 - 1" 32768] by (simp add: tx_good_def numSlots_def)

lemma books_slots:
  assumes "books_ok own keccak al db A"
  shows "int (lk_Count al) \<le> lk_slots al"
proof -
  have "(\<Sum>tx \<in> A. 1) \<le> (\<Sum>tx \<in> A. int (numSlots tx))"
    by (rule sum_mono) (use numSlots_pos booksD(7) [OF assms] in fastforce)
  then show ?thesis using books_count [OF assms] booksD(9) [OF assms] by simp
qed

lemma pool_okD:
  assumes "pool_ok own keccak sender p"
  shows "core_ok own keccak sender p" and "lists_ok sender (tp_pending p) (tp_queue p)"
    and "books_ok own keccak (tp_all p) (tp_CMdb p) (pool_txs p)" and "priced_ok (tp_priced p) (pool_txs p)"
  using assms by (auto simp: pool_ok_def core_ok_def)

lemma remove_drops_ok:
  assumes "core_ok own keccak sender p" and "priced_ok (tp_priced p) (pool_txs p - set drops)"
  obtains p' where "remove_txs keccak sender p drops False = Some p'" and "pool_ok own keccak sender p'"
    and "env p' = env p" and "tp_locals p' = tp_locals p"
    and "pool_txs p' = {tx \<in> pool_txs p. tx_Hash keccak tx \<notin> tx_Hash keccak ` set drops}"
    and "\<And>c. coins (tp_CMdb p') c = Locked \<Longrightarrow> coins (tp_CMdb p) c = Locked"
proof -
  obtain p' where r: "remove_txs keccak sender p drops False = Some p'" "core_ok own keccak sender p'"
      "pool_txs p' = {tx \<in> pool_txs p. tx_Hash keccak tx \<notin> tx_Hash keccak ` set drops}" "env p' = env p" "tp_locals p' = tp_locals p"
      "tp_priced p' = tp_priced p" "\<forall>c. coins (tp_CMdb p') c = Locked \<longrightarrow> coins (tp_CMdb p) c = Locked"
    using remove_txs_spec [OF assms(1), of drops False] by auto
  have "pool_txs p' \<subseteq> pool_txs p - set drops" using r(3) by auto
  then have "pool_ok own keccak sender p'" using r(2,6) priced_subset [OF assms(2)] by (simp add: pool_ok_def)
  with r that show thesis by blast
qed

lemma make_room_spec:
  assumes ok: "pool_ok own keccak sender p" and tx: "tx_good tx"
  obtains e p' where "make_room keccak sender p tx local = Some (e, p')" and "pool_ok own keccak sender p'"
    and "pool_txs p' \<subseteq> pool_txs p" and "env p' = env p" and "tp_locals p' = tp_locals p"
    and "\<And>c. coins (tp_CMdb p') c = Locked \<Longrightarrow> coins (tp_CMdb p) c = Locked"
    and "e \<noteq> None \<Longrightarrow> pool_txs p' = pool_txs p"
proof -
  note ok4 = pool_okD [OF ok]
  let ?limit = "cfg_GlobalSlots (tp_config p) + cfg_GlobalQueue (tp_config p)"
  let ?slots = "lk_slots (tp_all p) - sint ?limit + int (numSlots tx)"
  obtain under pr where u: "(if local then (False, tp_priced p)
      else pl_Underpriced keccak sender (tp_all p) (tp_priced p) tx (tp_locals p)) = (under, pr)" by fastforce
  have pr: "priced_ok pr (pool_txs p)" using u pl_Underpriced_ok [OF ok4(3,4)] ok4(4) by (auto split: if_splits)
  let ?p1 = "p\<lparr>tp_priced := pr\<rparr>"
  have p1: "core_ok own keccak sender ?p1" "pool_ok own keccak sender ?p1" using ok4(1) pr by (auto simp: pool_ok_def core_ok_def)
  consider (room) "\<not> ?limit \<le> of_nat (lk_Count (tp_all p))" | (under) "?limit \<le> of_nat (lk_Count (tp_all p))" under
    | (full) "?limit \<le> of_nat (lk_Count (tp_all p))" "\<not> under" by blast
  then show thesis
  proof cases
    case room
    then show thesis using ok by (intro that [of None p]) (simp_all add: make_room_def)
  next
    case under
    then show thesis using u p1 by (intro that [of "Some ErrUnderpriced" ?p1]) (simp_all add: make_room_def Let_def env_def)
  next
    case full
    have "0 \<le> ?slots" using sint_le_uint [of ?limit] uint_le_of_nat [OF full(1)] books_slots [OF ok4(3)] by linarith
    then obtain drops pr' where d: "pl_Discard keccak sender (tp_all p) pr ?slots (tp_locals p) = Some (drops, pr')"
        "priced_ok pr' (pool_txs p - set drops)"
      by (rule pl_Discard_ok [OF ok4(3) pr]) (rule that)
    let ?p2 = "p\<lparr>tp_priced := pr'\<rparr>"
    obtain p' where r: "remove_txs keccak sender ?p2 drops False = Some p'" "pool_ok own keccak sender p'" "env p' = env ?p2"
        "tp_locals p' = tp_locals ?p2" "pool_txs p' = {tx \<in> pool_txs ?p2. tx_Hash keccak tx \<notin> tx_Hash keccak ` set drops}"
        "\<And>c. coins (tp_CMdb p') c = Locked \<Longrightarrow> coins (tp_CMdb ?p2) c = Locked"
      by (rule remove_drops_ok [of own keccak sender ?p2 drops]) (use ok4(1) d(2) that in \<open>simp_all add: core_ok_def\<close>)
    have "make_room keccak sender p tx local = Some (None, p')" using full u d(1) r(1) by (simp add: make_room_def Let_def)
    with r show thesis by (intro that [of None p']) (auto simp: env_def)
  qed
qed

lemma validateTx_sender: "validateTx sender p tx local = None \<Longrightarrow> \<exists>a. sender tx = Some a"
  by (auto simp: validateTx_def split: if_splits option.splits)

text \<open>What the pool takes from the network: a transaction without nil fields that fits a message.\<close>

definition tx_wired :: "Transaction \<Rightarrow> bool" where
  "tx_wired tx \<longleftrightarrow> tx_good tx \<and> Tx (wire (tx_data tx)) = tx"

lemma proof_check_returns:
  assumes "keys_ok (tp_config p)" and "tx_wired tx"
  shows "\<exists>r. (if tx_ID tx = 1 then validateSign sha p tx
    else if tx_ID tx = 0 then verifyzkp sha p tx else Some (Some ErrIDFormat)) = Some r"
  using validateSign_returns [OF assms(1), of sha "tx_data tx"] verifyzkp_returns [OF assms(1), of sha "tx_data tx"] assms(2)
  by (simp add: tx_wired_def)

lemma pool_add_spec:
  assumes ok: "pool_ok own keccak sender p" and keys: "keys_ok (tp_config p)" and tx: "tx_wired tx"
  obtains r p' where "pool_add keccak sha sender p tx local = Some (r, p')" and "pool_ok own keccak sender p'" and "env p' = env p"
    and "case r of Inl _ \<Rightarrow> pool_txs p' \<subseteq> pool_txs p | Inr _ \<Rightarrow> \<exists>X \<subseteq> pool_txs p. pool_txs p' = added sender tx X"
proof -
  note concl = that
  note B = pool_okD(3) [OF ok]
  let ?chk = "if tx_ID tx = 1 then validateSign sha p tx
    else if tx_ID tx = 0 then verifyzkp sha p tx else Some (Some ErrIDFormat)"
  obtain e where e: "?chk = Some e" using proof_check_returns [OF keys tx] by blast
  have fail: thesis if "pool_add keccak sha sender p tx local = Some (Inl err, p)" for err
    using that ok by (intro concl [of "Inl err" p]) simp_all
  consider "lk_Get (tp_all p) (tx_Hash keccak tx) \<noteq> None" | err where "lk_Get (tp_all p) (tx_Hash keccak tx) = None" "validateCM keccak (tp_CMdb p) tx = Some err"
    | err where "lk_Get (tp_all p) (tx_Hash keccak tx) = None" "validateCM keccak (tp_CMdb p) tx = None" "e = Some err"
    | err where "lk_Get (tp_all p) (tx_Hash keccak tx) = None" "validateCM keccak (tp_CMdb p) tx = None" "e = None" "validateTx sender p tx local = Some err"
    | (good) "lk_Get (tp_all p) (tx_Hash keccak tx) = None" "validateCM keccak (tp_CMdb p) tx = None" "e = None" "validateTx sender p tx local = None"
    by fastforce
  then show thesis
  proof cases
    case good
    obtain a where a: "sender tx = Some a" using validateTx_sender good(4) by blast
    have "admits keccak (coins (tp_CMdb p)) tx" using validateCM_admits booksD(5) [OF B] good(2) by blast
    then obtain h where h: "claim_of keccak tx = Some h" "coins (tp_CMdb p) h \<noteq> Locked"
      by (auto simp: admits_def claim_of_def outputs_of_def split: if_splits)
    have tg: "tx_good tx" using tx by (simp add: tx_wired_def)
    obtain f p1 where m: "make_room keccak sender p tx local = Some (f, p1)" "pool_ok own keccak sender p1" "pool_txs p1 \<subseteq> pool_txs p"
        "env p1 = env p" "\<And>c. coins (tp_CMdb p1) c = Locked \<Longrightarrow> coins (tp_CMdb p) c = Locked"
      by (rule make_room_spec [OF ok tg, of local]) (rule that)
    have new: "tx_Hash keccak x \<noteq> tx_Hash keccak tx" if "x \<in> pool_txs p1" for x
      using books_lookup_None [OF B, of "tx_Hash keccak tx"] good(1) that m(3) by blast
    have nl: "coins (tp_CMdb p1) h \<noteq> Locked" using m(5) h(2) by blast
    obtain r p' where c: "add_checked keccak sender p1 tx local = Some (r, p')" "pool_ok own keccak sender p'" "env p' = env p1"
        "pool_txs p' = (case r of Inl _ \<Rightarrow> pool_txs p1 | Inr _ \<Rightarrow> added sender tx (pool_txs p1))"
      by (rule add_checked_spec [of own keccak sender, OF m(2) a _ tg h(1) nl, of local, OF new]) (assumption, rule that)
    have "pool_add keccak sha sender p tx local = (case f of Some err \<Rightarrow> Some (Inl err, p1) | None \<Rightarrow> Some (r, p'))"
      using good e m(1) c(1) by (auto simp: pool_add_def split: option.split)
    moreover have "case r of Inl _ \<Rightarrow> pool_txs p' \<subseteq> pool_txs p | Inr _ \<Rightarrow> \<exists>X \<subseteq> pool_txs p. pool_txs p' = added sender tx X"
      using m(3) c(4) by (cases r) (auto intro!: exI [of _ "pool_txs p1"])
    ultimately show thesis using m c by (cases f) (auto intro: concl [of r p'] concl [of "Inl (the f)" p1])
  qed (use e in \<open>auto intro!: fail simp: pool_add_def\<close>)
qed

text \<open>A transaction that passes the checks, finds room and replaces none is pooled and locks its coin.\<close>

lemma pool_add_accepts:
  assumes ok: "pool_ok own keccak sender p" and tx: "tx_wired tx" and unknown: "lk_Get (tp_all p) (tx_Hash keccak tx) = None"
    and cm: "validateCM keccak (tp_CMdb p) tx = None"
    and chk: "(if tx_ID tx = 1 then validateSign sha p tx else if tx_ID tx = 0 then verifyzkp sha p tx else Some (Some ErrIDFormat)) = Some None"
    and val: "validateTx sender p tx local = None"
    and room: "(of_nat (lk_Count (tp_all p)) :: u64) < cfg_GlobalSlots (tp_config p) + cfg_GlobalQueue (tp_config p)"
    and free: "free_nonce sender (pool_txs p) tx"
  obtains p' where "pool_add keccak sha sender p tx local = Some (Inr False, p')" and "pool_ok own keccak sender p'" and "env p' = env p"
    and "pool_txs p' = insert tx (pool_txs p)" and "\<And>c. claim_of keccak tx = Some c \<Longrightarrow> coins (tp_CMdb p') c = Locked"
proof -
  note B = pool_okD(3) [OF ok]
  obtain a where a: "sender tx = Some a" using validateTx_sender val by blast
  have "admits keccak (coins (tp_CMdb p)) tx" using validateCM_admits booksD(5) [OF B] cm by blast
  then obtain h where h: "claim_of keccak tx = Some h" "coins (tp_CMdb p) h \<noteq> Locked"
    by (auto simp: admits_def claim_of_def outputs_of_def split: if_splits)
  have tg: "tx_good tx" using tx by (simp add: tx_wired_def)
  have new: "tx_Hash keccak x \<noteq> tx_Hash keccak tx" if "x \<in> pool_txs p" for x
    using books_lookup_None [OF B, of "tx_Hash keccak tx"] unknown that by blast
  obtain r p' where c: "add_checked keccak sender p tx local = Some (r, p')" "pool_ok own keccak sender p'" "env p' = env p"
      "pool_txs p' = (case r of Inl _ \<Rightarrow> pool_txs p | Inr _ \<Rightarrow> added sender tx (pool_txs p))" "r = Inr False"
      "coins (tp_CMdb p') h = Locked"
    by (rule add_checked_spec [of own keccak sender, OF ok a _ tg h, of local, OF new]) (assumption, use free that in blast)
  have "\<not> cfg_GlobalSlots (tp_config p) + cfg_GlobalQueue (tp_config p) \<le> (of_nat (lk_Count (tp_all p)) :: u64)" using room by (simp only: not_le)
  then have "make_room keccak sender p tx local = Some (None, p)" by (simp add: make_room_def Let_def)
  then have "pool_add keccak sha sender p tx local = Some (Inr False, p')"
    using unknown cm chk val c(1,5) by (auto simp: pool_add_def)
  moreover have "added sender tx (pool_txs p) = insert tx (pool_txs p)" using free by (auto simp: added_def free_nonce_def)
  ultimately show thesis using that c h(1) by simp
qed

lemma addTxsLocked_spec:
  assumes "pool_ok own keccak sender p" and "keys_ok (tp_config p)" and "list_all tx_wired txs"
  shows "\<exists>errs dirty p'. addTxsLocked keccak sha sender p txs local = Some (errs, dirty, p') \<and> pool_ok own keccak sender p' \<and>
    env p' = env p \<and> pool_txs p' \<subseteq> pool_txs p \<union> set txs \<and> length errs = length txs"
  using assms
proof (induction txs arbitrary: p)
  case Nil
  then show ?case by simp
next
  case (Cons tx txs)
  obtain r p1 where a: "pool_add keccak sha sender p tx local = Some (r, p1)" "pool_ok own keccak sender p1" "env p1 = env p"
      "case r of Inl _ \<Rightarrow> pool_txs p1 \<subseteq> pool_txs p | Inr _ \<Rightarrow> \<exists>X \<subseteq> pool_txs p. pool_txs p1 = added sender tx X"
    by (rule pool_add_spec [of own keccak sender p tx sha local]) (use Cons.prems that in auto)
  have sub: "pool_txs p1 \<subseteq> insert tx (pool_txs p)" using a(4) by (cases r) (auto simp: added_def)
  have "tp_config p1 = tp_config p" using a(3) by (simp add: env_def)
  then obtain errs dirty p' where b: "addTxsLocked keccak sha sender p1 txs local = Some (errs, dirty, p')" "pool_ok own keccak sender p'"
      "env p' = env p1" "pool_txs p' \<subseteq> pool_txs p1 \<union> set txs" "length errs = length txs"
    using Cons.IH [OF a(2)] Cons.prems(2,3) by auto
  have "pool_txs p' \<subseteq> pool_txs p \<union> set (tx # txs)" using b(4) sub by auto
  then show ?case using a(1,3) b by simp
qed

section \<open>The errors of a batch\<close>

text \<open>The errors go, from the left and without gaps, into the nil slots.\<close>

fun fill_slots :: "'e option list \<Rightarrow> 'e option list \<Rightarrow> 'e option list" where
  "fill_slots [] xs = []"
| "fill_slots (Some e # es) xs = Some e # fill_slots es xs"
| "fill_slots (None # es) [] = None # fill_slots es []"
| "fill_slots (None # es) (x # xs) = x # fill_slots es xs"

lemma fill_slots_Nil [simp]: "fill_slots es [] = es"
proof (induction es)
  case (Cons e es)
  then show ?case by (cases e) simp_all
qed simp

lemma fill_slots_append: "None \<notin> set ss \<Longrightarrow> fill_slots (ss @ es) xs = ss @ fill_slots es xs"
proof (induction ss)
  case (Cons s ss)
  then show ?case by (cases s) simp_all
qed simp

lemma next_nil_append:
  "None \<notin> set ss \<Longrightarrow> next_nil (pre @ ss @ None # es) (length pre) = Some (length pre + length ss)"
proof (induction ss arbitrary: pre)
  case Nil
  then show ?case by (subst next_nil.simps) simp
next
  case (Cons s ss)
  then show ?case using Cons.IH [of "pre @ [s]"] by (subst next_nil.simps) (cases s; simp add: nth_append)
qed

lemma merge_errs_fill:
  "length new \<le> length (filter (\<lambda>e. e = None) es) \<Longrightarrow>
    merge_errs (pre @ es) (length pre) new = Some (pre @ fill_slots es (filter (\<lambda>e. e \<noteq> None) new))"
proof (induction new arbitrary: pre es)
  case Nil
  then show ?case by simp
next
  case (Cons err new)
  then have "None \<in> set es" by (cases "filter (\<lambda>e. e = None) es") (auto dest: filter_eq_ConsD)
  then obtain ss rest where es: "es = ss @ None # rest" "None \<notin> set ss" by (metis split_list_first)
  have up: "(pre @ es)[length pre + length ss := err] = (pre @ ss) @ err # rest" by (simp add: es(1) list_update_append)
  have "filter (\<lambda>e. e = None) ss = []" using es(2) by (metis (full_types) filter_False)
  then have "length new \<le> length (filter (\<lambda>e. e = None) (err # rest))" using Cons.prems es(1) by auto
  from Cons.IH [OF this, of "pre @ ss"] show ?case
    using next_nil_append [OF es(2), of pre rest] up es fill_slots_append [OF es(2)]
    by (cases err) (simp_all add: es(1))
qed

lemma addTxs_unfold:
  assumes a: "addTxsLocked keccak sha sender p [tx \<leftarrow> txs. lk_Get (tp_all p) (tx_Hash keccak tx) = None] local = Some (newErrs, dirty, p')"
    and len: "length newErrs = length [tx \<leftarrow> txs. lk_Get (tp_all p) (tx_Hash keccak tx) = None]"
  shows "addTxs keccak sha sender p txs local =
    Some (fill_slots (map (\<lambda>tx. if lk_Get (tp_all p) (tx_Hash keccak tx) = None then None else Some ErrAlreadyKnown) txs)
      (filter (\<lambda>e. e \<noteq> None) newErrs), dirty, p')"
proof -
  let ?new = "[tx \<leftarrow> txs. lk_Get (tp_all p) (tx_Hash keccak tx) = None]"
  let ?errs = "map (\<lambda>tx. if lk_Get (tp_all p) (tx_Hash keccak tx) = None then None else Some ErrAlreadyKnown) txs"
  have "length (filter (\<lambda>e. e = None) ?errs) = length ?new" by (simp add: filter_map comp_def)
  then have m: "merge_errs ?errs 0 newErrs = Some (fill_slots ?errs (filter (\<lambda>e. e \<noteq> None) newErrs))"
    using merge_errs_fill [of newErrs ?errs "[]"] len by simp
  have e: "map (\<lambda>tx. if lk_Get (tp_all p) (tx_Hash keccak tx) \<noteq> None then Some ErrAlreadyKnown else None) txs = ?errs" by simp
  show ?thesis
  proof (cases "?new = []")
    case True
    then show ?thesis using a unfolding addTxs_def Let_def e by (simp del: not_None_eq)
  next
    case False
    then show ?thesis using a m unfolding addTxs_def Let_def e by (simp del: not_None_eq)
  qed
qed

end
