(* ===== verification/Pool_Reorg.thy ===== *)
theory Pool_Reorg
  imports Pool_Ops
begin

text \<open>
  The invariant under the steps of a reorganisation run: promotion out of the queue, demotion of
  transactions that are no longer executable, and the two truncations, with the bounds these set.
\<close>

section \<open>Loops over the tables\<close>

lemma drop_txs_spec:
  assumes "books_ok own keccak (tp_all p) (tp_CMdb p) A" and "distinct txs" and "set txs \<subseteq> A"
  shows "\<exists>al db. drop_txs keccak p (map Some txs) = Some (p\<lparr>tp_CMdb := db, tp_all := al\<rparr>) \<and> books_ok own keccak al db (A - set txs)"
  using assms
proof (induction txs arbitrary: p A)
  case Nil
  then show ?case by (intro exI [of _ "tp_all p"] exI [of _ "tp_CMdb p"]) simp
next
  case (Cons tx txs)
  obtain al db where d: "drop_tx keccak p tx = Some (p\<lparr>tp_CMdb := db, tp_all := al\<rparr>)" "books_ok own keccak al db (A - {tx})"
    by (rule drop_tx_spec [OF Cons.prems(1), of tx]) (use Cons.prems(3) in simp, rule that)
  have "A - {tx} - set txs = A - set (tx # txs)" by auto
  then show ?case using Cons.IH [of "p\<lparr>tp_CMdb := db, tp_all := al\<rparr>" "A - {tx}"] Cons.prems(2,3) d by auto
qed

lemma forget_txs_spec:
  assumes "books_ok own keccak (tp_all p) (tp_CMdb p) A" and "distinct txs" and "set txs \<subseteq> A"
  shows "\<exists>al. forget_txs keccak p (map Some txs) = Some (p\<lparr>tp_all := al\<rparr>) \<and> books_ok own keccak al (tp_CMdb p) (A - set txs)"
  using assms
proof (induction txs arbitrary: p A)
  case Nil
  then show ?case by (intro exI [of _ "tp_all p"]) simp
next
  case (Cons tx txs)
  obtain al where d: "lk_Remove (tp_all p) (tx_Hash keccak tx) = Some al" "books_ok own keccak al (tp_CMdb p) (A - {tx})"
    by (rule lk_Remove_books [OF Cons.prems(1), of tx]) (use Cons.prems(3) in simp, rule that)
  have "A - {tx} - set txs = A - set (tx # txs)" by auto
  then show ?case using Cons.IH [of "p\<lparr>tp_all := al\<rparr>" "A - {tx}"] Cons.prems(2,3) d by auto
qed

lemma drop_fair_spec:
  assumes "books_ok own keccak (tp_all p) (tp_CMdb p) A" and "distinct txs" and "set txs \<subseteq> A"
  shows "\<exists>al db nc. drop_fair keccak p a (map Some txs) = Some (p\<lparr>tp_CMdb := db, tp_all := al, tp_pendingNonces := nc\<rparr>) \<and>
    books_ok own keccak al db (A - set txs)"
  using assms
proof (induction txs arbitrary: p A)
  case Nil
  then show ?case by (intro exI [of _ "tp_all p"] exI [of _ "tp_CMdb p"] exI [of _ "tp_pendingNonces p"]) simp
next
  case (Cons tx txs)
  obtain al db where d: "drop_tx keccak p tx = Some (p\<lparr>tp_CMdb := db, tp_all := al\<rparr>)" "books_ok own keccak al db (A - {tx})"
    by (rule drop_tx_spec [OF Cons.prems(1), of tx]) (use Cons.prems(3) in simp, rule that)
  let ?p = "p\<lparr>tp_CMdb := db, tp_all := al, tp_pendingNonces := nc_setIfLower (tp_pendingNonces p) a (tx_Nonce tx)\<rparr>"
  have "A - {tx} - set txs = A - set (tx # txs)" and "set txs \<subseteq> A - {tx}" using Cons.prems(2,3) by auto
  then show ?case using Cons.IH [of ?p "A - {tx}"] Cons.prems(2) d by simp
qed

lemma lists_disjoint: "lists_ok sender P Q \<Longrightarrow> listed P \<inter> listed Q = {}"
  using listsD(3) by fastforce

text \<open>Moving transactions between the maps keeps nonces apart.\<close>

lemma lists_move:
  assumes L: "lists_ok sender P Q" and "acc_ok sender True m" and "acc_ok sender False q"
    and sub: "listed m \<union> listed q \<subseteq> listed P \<union> listed Q" and dis: "listed m \<inter> listed q = {}"
  shows "lists_ok sender m q"
proof -
  have "tx_Nonce x \<noteq> tx_Nonce y" if "x \<in> listed m" "y \<in> listed q" "sender x = sender y" for x y
    using lists_nonce_inj [OF L, of x y] that sub dis by blast
  then show ?thesis using assms(2,3) by (auto simp: lists_ok_def free_nonce_def)
qed

section \<open>promoteExecutables\<close>

lemma queue_split:
  assumes "P \<inter> Q = {}" and "L \<subseteq> Q" and "L = F \<union> D \<union> R \<union> C \<union> K" and "F \<inter> (D \<union> R \<union> C \<union> K) = {}"
    and "D \<inter> (R \<union> C \<union> K) = {}" and "R \<inter> (C \<union> K) = {}" and "C \<inter> K = {}"
  shows "(R \<union> P) \<union> ((Q - L) \<union> K) = P \<union> Q - F - D - C" and "(R \<union> P) \<inter> ((Q - L) \<union> K) = {}"
  using assms by (auto simp: set_eq_iff)

text \<open>What the account keeps, before it is cut to its limit.\<close>

lemma promote_lists:
  assumes l: "tl_ok l" "\<not> tl_strict l"
  obtains fs l1 ds iv l2 rs l3 where "tl_Forward l n = Some (map Some fs, l1)" and "tl_Filter l1 c g = (ds, iv, l2)"
    and "tl_Ready l2 k = (map Some rs, l3)" and "distinct fs" and "distinct ds" and "distinct rs" and "tl_ok l3" and "\<not> tl_strict l3"
    and "set (txs_of l) = set fs \<union> set ds \<union> set rs \<union> set (txs_of l3)" and "set fs \<inter> (set ds \<union> set rs \<union> set (txs_of l3)) = {}"
    and "set ds \<inter> (set rs \<union> set (txs_of l3)) = {}" and "set rs \<inter> set (txs_of l3) = {}"
    and "distinct (map tx_Nonce rs)" and "rs = ready_of k (txs_of l2)"
proof -
  obtain fs l1 where f: "tl_Forward l n = Some (map Some fs, l1)" "distinct fs" "set fs = {tx \<in> set (txs_of l). tx_Nonce tx < n}"
      "tl_ok l1" "tl_strict l1 = tl_strict l" "set (txs_of l1) = {tx \<in> set (txs_of l). \<not> tx_Nonce tx < n}"
    by (rule tl_Forward_spec [OF l(1)]) (rule that)
  obtain ds iv l2 where d: "tl_Filter l1 c g = (ds, iv, l2)" by (metis prod_cases3)
  note D = tl_Filter_spec [OF f(4) d]
  have D6: "set (txs_of l2) = {tx \<in> set (txs_of l1). \<not> over_limit c g tx}" using D(6) f(5) l(2) by (auto simp: after_gap_def)
  obtain rs l3 where r: "tl_Ready l2 k = (map Some rs, l3)" "tl_ok l3" "tl_strict l3 = tl_strict l2" "txs_of l2 = rs @ txs_of l3"
      "rs = ready_of k (txs_of l2)"
    by (rule tl_Ready_spec [OF D(1)]) (rule that)
  have dis: "distinct rs" "set rs \<inter> set (txs_of l3) = {}" using distinct_txs_of [OF D(1)] r(4) by auto
  have "distinct (map tx_Nonce (txs_of l2))" using sorted_wrt_nonce_distinct [OF sorted_txs_of [OF D(1)]] .
  then have dn: "distinct (map tx_Nonce rs)" using r(4) by simp
  have l2: "set (txs_of l2) = set rs \<union> set (txs_of l3)" using r(4) by simp
  have l1: "set (txs_of l1) = set ds \<union> set (txs_of l2)" "set ds \<inter> set (txs_of l2) = {}" using D(4) D6 by auto
  have l0: "set (txs_of l) = set fs \<union> set (txs_of l1)" "set fs \<inter> set (txs_of l1) = {}" using f(3,6) by auto
  show thesis
    by (rule that [OF f(1) d r(1) f(2) _ dis(1) r(2) _ _ _ _ dis(2) dn r(5)]) (use D(2,3) r(3) f(5) l(2) l0 l1 l2 in auto)
qed

lemma split_take:
  assumes "tl_ok l" and "txs_of l' = take t (txs_of l)" and "cs = rev (drop t (txs_of l))"
  shows "set (txs_of l) = set cs \<union> set (txs_of l')" and "set cs \<inter> set (txs_of l') = {}" and "distinct cs"
  using assms distinct_txs_of [OF assms(1)] set_append [of "take t (txs_of l)" "drop t (txs_of l)"]
    set_take_disj_set_drop_if_distinct [of "txs_of l" t t] by auto

lemma cap_queue_spec:
  assumes B: "books_ok own keccak (tp_all p) (tp_CMdb p) A" and l: "tl_ok l" and sub: "set (txs_of l) \<subseteq> A"
    and q0: "0 \<le> sint (cfg_AccountQueue (tp_config p))"
  obtains cs l' al db where "cap_queue keccak p a l =
      Some (map Some cs, l', p\<lparr>tp_CMdb := db, tp_all := al\<rparr>)" and "books_ok own keccak al db (A - set cs)"
    and "tl_ok l'" and "tl_strict l' = tl_strict l" and "set (txs_of l) = set cs \<union> set (txs_of l')" and "set cs \<inter> set (txs_of l') = {}"
    and "a \<notin> tp_locals p \<Longrightarrow> int (length (txs_of l')) \<le> sint (cfg_AccountQueue (tp_config p))"
proof (cases "a \<in> tp_locals p")
  case True
  then show thesis using l B by (intro that [of "[]" l "tp_all p" "tp_CMdb p"]) (simp_all add: cap_queue_def)
next
  case False
  let ?t = "nat (sint (cfg_AccountQueue (tp_config p)))" and ?cs = "rev (drop (nat (sint (cfg_AccountQueue (tp_config p)))) (txs_of l))"
  obtain l4 where c: "tl_Cap l (sint (cfg_AccountQueue (tp_config p))) = Some (map Some ?cs, l4)" "tl_ok l4"
      "tl_strict l4 = tl_strict l" "txs_of l4 = take ?t (txs_of l)"
    by (rule tl_Cap_spec [OF l q0]) (rule that)
  note sp = split_take [OF l c(4) refl]
  obtain al db where "drop_txs keccak p (map Some ?cs) = Some (p\<lparr>tp_CMdb := db, tp_all := al\<rparr>)" "books_ok own keccak al db (A - set ?cs)"
    using drop_txs_spec [OF B sp(3)] sp(1) sub by blast
  then show thesis using False c sp q0 by (intro that [of ?cs l4 al db]) (simp_all add: cap_queue_def del: rev_map set_rev)
qed

lemma promote_account_spec:
  assumes ok: "pool_ok own keccak sender p" and l: "map_of (tp_queue p) a = Some l" and q0: "0 \<le> sint (cfg_AccountQueue (tp_config p))"
  obtains rs p' where "promote_account keccak now p a l = Some (rs, p')" and "pool_ok own keccak sender p'" and "env p' = env p"
    and "tp_locals p' = tp_locals p" and "listed (tp_pending p') = set rs \<union> listed (tp_pending p)"
    and "listed (tp_queue p') \<subseteq> listed (tp_queue p) - set rs" and "set rs \<subseteq> listed (tp_queue p)"
    and "a \<notin> tp_locals p \<Longrightarrow> int (card (of_acc sender a (listed (tp_queue p')))) \<le> sint (cfg_AccountQueue (tp_config p))"
    and "\<And>b. b \<noteq> a \<Longrightarrow> of_acc sender b (listed (tp_queue p')) = of_acc sender b (listed (tp_queue p))"
proof -
  note ok4 = pool_okD [OF ok] and A = listsD [OF pool_okD(2) [OF ok]]
  note k = acc_lookup [OF A(2) l]
  have "\<not> tl_strict l" using k(2) by simp
  let ?st = "tp_currentState p" and ?nc = "snd (nc_get (tp_pendingNonces p) a)"
  obtain fs l1 ds iv l2 rs l3 where s: "tl_Forward l (st_GetNonce ?st a) = Some (map Some fs, l1)"
      "tl_Filter l1 (st_GetBalance ?st a) (tp_currentMaxGas p) = (ds, iv, l2)"
      "tl_Ready l2 (fst (nc_get (tp_pendingNonces p) a)) = (map Some rs, l3)" and d: "distinct fs" "distinct ds" "distinct rs"
      and l3: "tl_ok l3" "\<not> tl_strict l3" and U: "set (txs_of l) = set fs \<union> set ds \<union> set rs \<union> set (txs_of l3)"
      "set fs \<inter> (set ds \<union> set rs \<union> set (txs_of l3)) = {}"
      "set ds \<inter> (set rs \<union> set (txs_of l3)) = {}" "set rs \<inter> set (txs_of l3) = {}" and dn: "distinct (map tx_Nonce rs)"
    by (rule promote_lists [OF k(1) \<open>\<not> tl_strict l\<close>]) (rule that)
  let ?A = "pool_txs p" and ?L = "set (txs_of l)" and ?Q = "listed (tp_queue p)"
  have LQ: "?L \<subseteq> ?Q" and sL: "\<And>x. x \<in> ?L \<Longrightarrow> sender x = Some a" using k(4) by (auto simp: of_acc_def)
  have sub: "set fs \<subseteq> ?A" "set ds \<subseteq> ?A - set fs" "set rs \<subseteq> ?A - set fs - set ds" "set (txs_of l3) \<subseteq> ?A - set fs - set ds" "set rs \<subseteq> ?Q"
    using U LQ by blast+
  obtain al1 db1 where p1: "drop_txs keccak p (map Some fs) = Some (p\<lparr>tp_CMdb := db1, tp_all := al1\<rparr>)" "books_ok own keccak al1 db1 (?A - set fs)"
    using drop_txs_spec [OF ok4(3) d(1) sub(1)] by blast
  let ?p1 = "p\<lparr>tp_CMdb := db1, tp_all := al1\<rparr>"
  obtain al2 db2 where p2: "drop_txs keccak ?p1 (map Some ds) = Some (p\<lparr>tp_CMdb := db2, tp_all := al2\<rparr>)" "books_ok own keccak al2 db2 (?A - set fs - set ds)"
    using drop_txs_spec [of own keccak ?p1, OF _ d(2) sub(2)] p1(2) by auto
  let ?p2 = "p\<lparr>tp_CMdb := db2, tp_all := al2, tp_pendingNonces := ?nc\<rparr>"
  have known: "lk_Get al2 (tx_Hash keccak x) \<noteq> None" if "x \<in> set rs" for x
    using books_lookup [OF p2(2), of "tx_Hash keccak x" x] that sub(3) by auto
  have free: "free_nonce sender (listed (tp_pending p)) x" if "x \<in> set rs" for x
    using A(3) [of _ x] that sub(5) by (auto simp: free_nonce_def)
  obtain m b nc where p3: "promote_txs keccak now ?p2 a (map Some rs) = Some (rs, ?p2\<lparr>tp_pending := m, tp_beats := b, tp_pendingNonces := nc\<rparr>)"
      "acc_ok sender True m" "listed m = set rs \<union> listed (tp_pending p)"
    using promote_txs_known [of sender ?p2 rs a keccak now] A(1) sL U(1) free dn known by auto
  let ?p3 = "p\<lparr>tp_CMdb := db2, tp_all := al2, tp_pending := m, tp_beats := b, tp_pendingNonces := nc\<rparr>"
  have b3: "books_ok own keccak (tp_all ?p3) (tp_CMdb ?p3) (?A - set fs - set ds)" and q3: "0 \<le> sint (cfg_AccountQueue (tp_config ?p3))"
    using p2(2) q0 by simp_all
  obtain cs l4 al3 db3 where p4: "cap_queue keccak ?p3 a l3 =
        Some (map Some cs, l4, ?p3\<lparr>tp_CMdb := db3, tp_all := al3\<rparr>)" "books_ok own keccak al3 db3 (?A - set fs - set ds - set cs)"
      "tl_ok l4" "tl_strict l4 = tl_strict l3" "set (txs_of l3) = set cs \<union> set (txs_of l4)" "set cs \<inter> set (txs_of l4) = {}"
      "a \<notin> tp_locals ?p3 \<Longrightarrow> int (length (txs_of l4)) \<le> sint (cfg_AccountQueue (tp_config ?p3))"
    by (rule cap_queue_spec [OF b3 l3(1) sub(4) q3]) (rule that)
  let ?pr = "pl_Removed al3 (tp_priced p) (length fs + length ds + length cs)"
  let ?p5 = "p\<lparr>tp_pending := m, tp_beats := b, tp_pendingNonces := nc, tp_CMdb := db3, tp_all := al3, tp_priced := ?pr\<rparr>"
  have s4: "sender x = Some a" if "x \<in> set (txs_of l4)" for x using that sL U(1) p4(5) by blast
  obtain q where q: "set_queue ?p5 a l4 = ?p5\<lparr>tp_queue := q\<rparr>" "acc_ok sender False q" "listed q = (?Q - of_acc sender a ?Q) \<union> set (txs_of l4)"
    by (rule set_queue_spec [of sender ?p5 l4 a]) (use A(2) p4(3,4) l3(2) s4 that in simp_all)
  have res: "promote_account keccak now p a l = Some (rs, ?p5\<lparr>tp_queue := q\<rparr>)"
    using s p1(1) p2(1) p3(1) p4(1) q(1) unfolding promote_account_def
    by (simp add: case_prod_unfold priced_Removed_def Let_def)
  have sets: "listed m \<union> listed q = ?A - set fs - set ds - set cs" "listed m \<inter> listed q = {}"
    unfolding p3(3) q(3) k(4) [symmetric]
    by (rule queue_split [OF lists_disjoint [OF ok4(2)] LQ, of "set fs" "set ds" "set rs" "set cs" "set (txs_of l4)"]; use U p4(5,6) in blast)+
  have "lists_ok sender m q" using lists_move [OF ok4(2) p3(2) q(2) _ sets(2)] sets(1) by blast
  moreover have "priced_ok ?pr (?A - set fs - set ds - set cs)" using pl_Removed_ok [OF p4(2) priced_subset [OF ok4(4)]] by blast
  ultimately have ok': "pool_ok own keccak sender (?p5\<lparr>tp_queue := q\<rparr>)" using p4(2) sets(1) by (simp add: pool_ok_def core_ok_def)
  have "of_acc sender a (listed q) = set (txs_of l4)" unfolding q(3) using s4 by (auto simp: of_acc_def)
  moreover have "card (set (txs_of l4)) = length (txs_of l4)" using distinct_card [OF distinct_txs_of [OF p4(3)]] .
  moreover have "of_acc sender b (listed q) = of_acc sender b ?Q" if "b \<noteq> a" for b unfolding q(3) using that s4 by (auto simp: of_acc_def)
  moreover have "listed q \<subseteq> ?Q - set rs" using sets(2) U(1) p4(5) LQ unfolding q(3) p3(3) by blast
  ultimately show thesis using res ok' p3(3) p4(7) sub(5) by (intro that [of rs "?p5\<lparr>tp_queue := q\<rparr>"]) (simp_all add: env_def)
qed

lemma promoteExecutables_spec:
  assumes "pool_ok own keccak sender p" and "0 \<le> sint (cfg_AccountQueue (tp_config p))"
  shows "\<exists>rs p'. promoteExecutables keccak now p accs = Some (rs, p') \<and> pool_ok own keccak sender p' \<and> env p' = env p \<and>
    tp_locals p' = tp_locals p \<and> listed (tp_pending p') = set rs \<union> listed (tp_pending p) \<and>
    listed (tp_queue p') \<subseteq> listed (tp_queue p) - set rs \<and> set rs \<subseteq> listed (tp_queue p) \<and>
    (\<forall>a \<in> set accs - tp_locals p. int (card (of_acc sender a (listed (tp_queue p')))) \<le> sint (cfg_AccountQueue (tp_config p))) \<and>
    (\<forall>b. b \<notin> set accs \<longrightarrow> of_acc sender b (listed (tp_queue p')) = of_acc sender b (listed (tp_queue p)))"
  using assms
proof (induction accs arbitrary: p)
  case Nil
  then show ?case by simp
next
  case (Cons a accs)
  let ?max = "sint (cfg_AccountQueue (tp_config p))"
  have "\<exists>rs p1. (case map_of (tp_queue p) a of None \<Rightarrow> Some ([], p) | Some l \<Rightarrow> promote_account keccak now p a l) = Some (rs, p1) \<and>
      pool_ok own keccak sender p1 \<and> env p1 = env p \<and> tp_locals p1 = tp_locals p \<and> listed (tp_pending p1) = set rs \<union> listed (tp_pending p) \<and>
      listed (tp_queue p1) \<subseteq> listed (tp_queue p) - set rs \<and> set rs \<subseteq> listed (tp_queue p) \<and>
      (a \<notin> tp_locals p \<longrightarrow> int (card (of_acc sender a (listed (tp_queue p1)))) \<le> ?max) \<and>
      (\<forall>b. b \<noteq> a \<longrightarrow> of_acc sender b (listed (tp_queue p1)) = of_acc sender b (listed (tp_queue p)))"
  proof (cases "map_of (tp_queue p) a")
    case None
    then show ?thesis using Cons.prems acc_lookup_None [OF listsD(2) [OF pool_okD(2) [OF Cons.prems(1)]] None] by simp
  next
    case (Some l)
    show ?thesis
      by (rule promote_account_spec [OF Cons.prems(1) Some Cons.prems(2), of now]) (use Some in auto)
  qed
  then obtain rs p1 where s: "(case map_of (tp_queue p) a of None \<Rightarrow> Some ([], p) | Some l \<Rightarrow> promote_account keccak now p a l) = Some (rs, p1)"
      and p1: "pool_ok own keccak sender p1" "env p1 = env p" "tp_locals p1 = tp_locals p" "listed (tp_pending p1) = set rs \<union> listed (tp_pending p)"
      "listed (tp_queue p1) \<subseteq> listed (tp_queue p) - set rs" "set rs \<subseteq> listed (tp_queue p)"
      "a \<notin> tp_locals p \<longrightarrow> int (card (of_acc sender a (listed (tp_queue p1)))) \<le> ?max"
      "\<forall>b. b \<noteq> a \<longrightarrow> of_acc sender b (listed (tp_queue p1)) = of_acc sender b (listed (tp_queue p))" by blast
  have c: "tp_config p1 = tp_config p" using p1(2) by (simp add: env_def)
  have "0 \<le> sint (cfg_AccountQueue (tp_config p1))" using c Cons.prems(2) by simp
  from Cons.IH [OF p1(1) this] obtain rs' p' where r: "promoteExecutables keccak now p1 accs = Some (rs', p')" "pool_ok own keccak sender p'" "env p' = env p1"
      "tp_locals p' = tp_locals p1" "listed (tp_pending p') = set rs' \<union> listed (tp_pending p1)"
      "listed (tp_queue p') \<subseteq> listed (tp_queue p1) - set rs'" "set rs' \<subseteq> listed (tp_queue p1)"
      "\<forall>a \<in> set accs - tp_locals p1. int (card (of_acc sender a (listed (tp_queue p')))) \<le> ?max"
      "\<forall>b. b \<notin> set accs \<longrightarrow> of_acc sender b (listed (tp_queue p')) = of_acc sender b (listed (tp_queue p1))" unfolding c by blast
  have "promoteExecutables keccak now p (a # accs) = Some (rs @ rs', p')" using s r(1) by (auto split: option.splits)
  moreover have "int (card (of_acc sender b (listed (tp_queue p')))) \<le> ?max" if "b \<in> set (a # accs) - tp_locals p" for b
    using that r(8,9) p1(3,7) by (cases "b \<in> set accs") auto
  moreover have "of_acc sender b (listed (tp_queue p')) = of_acc sender b (listed (tp_queue p))" if "b \<notin> set (a # accs)" for b
    using that r(9) p1(8) by auto
  ultimately show ?case using r(2-7) p1(2-6) by (intro exI [of _ "rs @ rs'"] exI [of _ p']) auto
qed

section \<open>demoteUnexecutables\<close>

text \<open>The pending transactions of an account can run on the current state, starting with the first.\<close>

definition executable :: "sender \<Rightarrow> StateView \<Rightarrow> u64 \<Rightarrow> Transaction set \<Rightarrow> address \<Rightarrow> bool" where
  "executable sender st gas X a \<longleftrightarrow>
     (\<forall>tx \<in> of_acc sender a X. st_GetNonce st a \<le> tx_Nonce tx \<and> \<not> over_limit (st_GetBalance st a) gas tx) \<and>
     (of_acc sender a X \<noteq> {} \<longrightarrow> (\<exists>tx \<in> of_acc sender a X. tx_Nonce tx = st_GetNonce st a))"

text \<open>The pending transactions behind a gap go back to the queue.\<close>

lemma demote_gapped:
  assumes Q: "acc_ok sender False (tp_queue p)" and l: "tl_ok l" "\<And>tx. tx \<in> set (txs_of l) \<Longrightarrow> sender tx = Some a"
    and free: "\<And>tx. tx \<in> set (txs_of l) \<Longrightarrow> free_nonce sender (listed (tp_queue p)) tx"
    and known: "\<And>tx. tx \<in> set (txs_of l) \<Longrightarrow> lk_Get (tp_all p) (tx_Hash keccak tx) \<noteq> None"
  obtains l' q where "requeue_gapped keccak sender p l n =
      Some (l', p\<lparr>tp_queue := q\<rparr>)" and "tl_ok l'" and "tl_strict l' = tl_strict l" and "acc_ok sender False q"
    and "set (txs_of l') \<subseteq> set (txs_of l)" and "listed q = (set (txs_of l) - set (txs_of l')) \<union> listed (tp_queue p)"
    and "txs_of l' \<noteq> [] \<Longrightarrow> \<exists>tx \<in> set (txs_of l'). tx_Nonce tx = n"
proof (cases "0 < tl_Len l \<and> sm_Get (tl_txs l) n = None")
  case False
  then show thesis using l Q tl_Get(2) [OF l(1), of n]
    by (intro that [of l "tp_queue p"]) (auto simp: tl_Len_length requeue_gapped_def)
next
  case True
  obtain l' where c: "tl_Cap l 0 = Some (map Some (rev (drop (nat 0) (txs_of l))), l')" "tl_ok l'" "tl_strict l' = tl_strict l"
      "txs_of l' = take (nat 0) (txs_of l)"
    by (rule tl_Cap_spec [OF l(1), of 0]) (simp, rule that)
  have "distinct (map tx_Nonce (rev (txs_of l)))" using sorted_wrt_nonce_distinct [OF sorted_txs_of [OF l(1)]] by (simp add: rev_map [symmetric])
  then obtain q where "enqueue_txs keccak sender p (map Some (rev (txs_of l))) = Some (p\<lparr>tp_queue := q\<rparr>)" "acc_ok sender False q"
      "listed q = set (txs_of l) \<union> listed (tp_queue p)"
    using enqueue_txs_known [OF Q, of "rev (txs_of l)" a keccak] l(2) free known by auto
  then show thesis using True c by (intro that [of l' q]) (simp_all add: requeue_gapped_def)
qed

lemma demote_split:
  assumes "P \<inter> Q = {}" and "L \<subseteq> P" and "L = F \<union> D \<union> I \<union> G \<union> K" and "F \<inter> (D \<union> I \<union> G \<union> K) = {}"
    and "D \<inter> (I \<union> G \<union> K) = {}" and "(I \<union> G) \<inter> K = {}"
  shows "((P - L) \<union> K) \<union> (G \<union> (I \<union> Q)) = P \<union> Q - F - D" and "((P - L) \<union> K) \<inter> (G \<union> (I \<union> Q)) = {}"
  using assms by (auto simp: set_eq_iff)

lemma demote_account_spec:
  assumes ok: "pool_ok own keccak sender p" and l: "map_of (tp_pending p) a = Some l"
  obtains p' where "demote_account keccak sender p a l = Some p'" and "pool_ok own keccak sender p'" and "env p' = env p"
    and "tp_locals p' = tp_locals p" and "pool_txs p' \<subseteq> pool_txs p" and "listed (tp_pending p') \<subseteq> listed (tp_pending p)"
    and "executable sender (tp_currentState p) (tp_currentMaxGas p) (listed (tp_pending p')) a"
    and "\<And>b. b \<noteq> a \<Longrightarrow> of_acc sender b (listed (tp_pending p')) = of_acc sender b (listed (tp_pending p))"
proof -
  note ok4 = pool_okD [OF ok] and A = listsD [OF pool_okD(2) [OF ok]]
  note k = acc_lookup [OF A(1) l]
  let ?n = "st_GetNonce (tp_currentState p) a" and ?c = "st_GetBalance (tp_currentState p) a" and ?g = "tp_currentMaxGas p"
  let ?A = "pool_txs p" and ?L = "set (txs_of l)" and ?P = "listed (tp_pending p)" and ?Q = "listed (tp_queue p)"
  obtain fs l1 where f: "tl_Forward l ?n = Some (map Some fs, l1)" "distinct fs" "set fs = {tx \<in> ?L. tx_Nonce tx < ?n}"
      "tl_ok l1" "tl_strict l1 = tl_strict l" "set (txs_of l1) = {tx \<in> ?L. \<not> tx_Nonce tx < ?n}"
    by (rule tl_Forward_spec [OF k(1)]) (rule that)
  obtain ds iv l2 where d: "tl_Filter l1 ?c ?g = (ds, iv, l2)" by (metis prod_cases3)
  note D = tl_Filter_spec [OF f(4) d]
  have LP: "?L \<subseteq> ?P" and sL: "\<And>x. x \<in> ?L \<Longrightarrow> sender x = Some a" using k(4) by (auto simp: of_acc_def)
  have U: "?L = set fs \<union> set ds \<union> set iv \<union> set (txs_of l2)" "set fs \<inter> (set ds \<union> set iv \<union> set (txs_of l2)) = {}"
      "set ds \<inter> (set iv \<union> set (txs_of l2)) = {}" "set iv \<inter> set (txs_of l2) = {}"
    using f(3,6) D(4-6) by auto
  have sub: "set fs \<subseteq> ?A" "set ds \<subseteq> ?A - set fs" "set iv \<union> set (txs_of l2) \<subseteq> ?A - set fs - set ds" using U LP by blast+
  obtain al1 where p1: "forget_txs keccak p (map Some fs) = Some (p\<lparr>tp_all := al1\<rparr>)" "books_ok own keccak al1 (tp_CMdb p) (?A - set fs)"
    using forget_txs_spec [OF ok4(3) f(2) sub(1)] by blast
  let ?p1 = "p\<lparr>tp_all := al1\<rparr>"
  obtain al2 db2 where p2: "drop_txs keccak ?p1 (map Some ds) = Some (p\<lparr>tp_CMdb := db2, tp_all := al2\<rparr>)" "books_ok own keccak al2 db2 (?A - set fs - set ds)"
    using drop_txs_spec [of own keccak ?p1, OF _ _ sub(2)] p1(2) D(3) by auto
  let ?pr = "pl_Removed al2 (tp_priced p) (length fs + length ds)"
  let ?p3 = "p\<lparr>tp_CMdb := db2, tp_all := al2, tp_priced := ?pr\<rparr>"
  have known: "lk_Get al2 (tx_Hash keccak x) \<noteq> None" if "x \<in> set iv \<union> set (txs_of l2)" for x
    using books_lookup [OF p2(2), of "tx_Hash keccak x" x] that sub(3) by auto
  have free: "free_nonce sender ?Q x" if "x \<in> ?L" for x
    using A(3) [of x] that LP by (metis free_nonce_def subsetD)
  have "distinct (map tx_Nonce iv)" by (rule distinct_nonces) (use D(3) U(1) tl_nonce_inj [OF k(1)] in auto)
  then obtain q1 where p4: "enqueue_txs keccak sender ?p3 (map Some iv) = Some (?p3\<lparr>tp_queue := q1\<rparr>)" "acc_ok sender False q1" "listed q1 = set iv \<union> ?Q"
    using enqueue_txs_known [of sender ?p3 iv a keccak] A(2) sL U(1) free known by auto
  let ?p4 = "?p3\<lparr>tp_queue := q1\<rparr>"
  have free1: "free_nonce sender (listed (tp_queue ?p4)) x" if "x \<in> set (txs_of l2)" for x
  proof -
    have "x \<in> ?L" "x \<notin> set iv" using that U by auto
    moreover have "tx_Nonce y \<noteq> tx_Nonce x" if "y \<in> set iv" for y using tl_nonce_inj [OF k(1), of y x] that calculation U(1) by blast
    ultimately show ?thesis using free [of x] p4(3) by (auto simp: free_nonce_def)
  qed
  have Q1: "acc_ok sender False (tp_queue ?p4)" using p4(2) by simp
  have l2: "tl_ok l2" "\<And>x. x \<in> set (txs_of l2) \<Longrightarrow> sender x = Some a"
      "\<And>x. x \<in> set (txs_of l2) \<Longrightarrow> lk_Get (tp_all ?p4) (tx_Hash keccak x) \<noteq> None"
    using D(1) sL U(1) known by simp_all
  obtain l3 q where p5: "requeue_gapped keccak sender ?p4 l2 ?n = Some (l3, ?p4\<lparr>tp_queue := q\<rparr>)"
      "tl_ok l3" "tl_strict l3 = tl_strict l2" "acc_ok sender False q" "set (txs_of l3) \<subseteq> set (txs_of l2)"
      "listed q = (set (txs_of l2) - set (txs_of l3)) \<union> listed (tp_queue ?p4)" "txs_of l3 \<noteq> [] \<Longrightarrow> \<exists>tx \<in> set (txs_of l3). tx_Nonce tx = ?n"
    by (rule demote_gapped [OF Q1 l2(1), of a keccak ?n], erule l2(2), erule free1, erule l2(3)) (rule that)
  have lq: "listed q = (set (txs_of l2) - set (txs_of l3)) \<union> (set iv \<union> ?Q)" using p5(6) p4(3) by simp
  let ?p5 = "?p3\<lparr>tp_queue := q\<rparr>" and ?G = "set (txs_of l2) - set (txs_of l3)"
  have s3: "sender x = Some a" if "x \<in> set (txs_of l3)" for x using that sL U(1) p5(5) by blast
  obtain m b where m: "set_pending ?p5 a l3 = ?p5\<lparr>tp_pending := m, tp_beats := b\<rparr>" "acc_ok sender True m"
      "listed m = (?P - of_acc sender a ?P) \<union> set (txs_of l3)"
    by (rule set_pending_spec [of sender ?p5 l3 a]) (use A(1) p5(2,3) D(2) f(5) k(2) s3 that in simp_all)
  have res: "demote_account keccak sender p a l = Some (?p5\<lparr>tp_pending := m, tp_beats := b\<rparr>)"
    using f(1) d p1(1) p2(1) p4(1) p5(1) m(1) by (simp add: demote_account_def priced_Removed_def Let_def)
  have sets: "listed m \<union> listed q = ?A - set fs - set ds" "listed m \<inter> listed q = {}"
    unfolding m(3) lq k(4) [symmetric]
    by (rule demote_split [OF lists_disjoint [OF ok4(2)] LP, of "set fs" "set ds" "set iv" ?G "set (txs_of l3)"]; use U p5(5) in blast)+
  have "lists_ok sender m q" using lists_move [OF ok4(2) m(2) p5(4) _ sets(2)] sets(1) by blast
  moreover have "priced_ok ?pr (?A - set fs - set ds)" using pl_Removed_ok [OF p2(2) priced_subset [OF ok4(4)]] by blast
  ultimately have ok': "pool_ok own keccak sender (?p5\<lparr>tp_pending := m, tp_beats := b\<rparr>)" using p2(2) sets(1) by (simp add: pool_ok_def core_ok_def)
  have acc: "of_acc sender a (listed m) = set (txs_of l3)" unfolding m(3) using s3 by (auto simp: of_acc_def)
  have "executable sender (tp_currentState p) ?g (listed m) a"
    using p5(5,7) D(6) f(6) unfolding executable_def acc by auto
  moreover have "of_acc sender b (listed m) = of_acc sender b ?P" if "b \<noteq> a" for b unfolding m(3) using that s3 by (auto simp: of_acc_def)
  moreover have "listed m \<subseteq> ?P" using p5(5) U(1) LP unfolding m(3) by blast
  ultimately show thesis using res ok' sets(1)
    by (intro that [of "?p5\<lparr>tp_pending := m, tp_beats := b\<rparr>"]) (auto simp: env_def)
qed

lemma executable_cong:
  "of_acc sender a X = of_acc sender a Y \<Longrightarrow> executable sender st g X a \<longleftrightarrow> executable sender st g Y a"
  by (simp add: executable_def)

lemma demote_accounts_spec:
  assumes "pool_ok own keccak sender p"
  shows "\<exists>p'. demote_accounts keccak sender p accs = Some p' \<and> pool_ok own keccak sender p' \<and> env p' = env p \<and> tp_locals p' = tp_locals p \<and>
    pool_txs p' \<subseteq> pool_txs p \<and> listed (tp_pending p') \<subseteq> listed (tp_pending p) \<and>
    (\<forall>a \<in> set accs. executable sender (tp_currentState p) (tp_currentMaxGas p) (listed (tp_pending p')) a) \<and>
    (\<forall>b. b \<notin> set accs \<longrightarrow> of_acc sender b (listed (tp_pending p')) = of_acc sender b (listed (tp_pending p)))"
  using assms
proof (induction accs arbitrary: p)
  case Nil
  then show ?case by simp
next
  case (Cons a accs)
  let ?ex = "executable sender (tp_currentState p) (tp_currentMaxGas p)"
  have "\<exists>p1. (case map_of (tp_pending p) a of None \<Rightarrow> Some p | Some l \<Rightarrow> demote_account keccak sender p a l) = Some p1 \<and>
      pool_ok own keccak sender p1 \<and> env p1 = env p \<and> tp_locals p1 = tp_locals p \<and> pool_txs p1 \<subseteq> pool_txs p \<and>
      listed (tp_pending p1) \<subseteq> listed (tp_pending p) \<and> ?ex (listed (tp_pending p1)) a \<and>
      (\<forall>b. b \<noteq> a \<longrightarrow> of_acc sender b (listed (tp_pending p1)) = of_acc sender b (listed (tp_pending p)))"
  proof (cases "map_of (tp_pending p) a")
    case None
    then show ?thesis using Cons.prems acc_lookup_None [OF listsD(1) [OF pool_okD(2) [OF Cons.prems]] None]
      by (simp add: executable_def)
  next
    case (Some l)
    show ?thesis by (rule demote_account_spec [OF Cons.prems Some]) (use Some in auto)
  qed
  then obtain p1 where s: "(case map_of (tp_pending p) a of None \<Rightarrow> Some p | Some l \<Rightarrow> demote_account keccak sender p a l) = Some p1"
      and p1: "pool_ok own keccak sender p1" "env p1 = env p" "tp_locals p1 = tp_locals p" "pool_txs p1 \<subseteq> pool_txs p"
      "listed (tp_pending p1) \<subseteq> listed (tp_pending p)" "?ex (listed (tp_pending p1)) a"
      "\<forall>b. b \<noteq> a \<longrightarrow> of_acc sender b (listed (tp_pending p1)) = of_acc sender b (listed (tp_pending p))" by blast
  have c: "tp_currentState p1 = tp_currentState p" "tp_currentMaxGas p1 = tp_currentMaxGas p" using p1(2) by (simp_all add: env_def)
  from Cons.IH [OF p1(1)] obtain p' where r: "demote_accounts keccak sender p1 accs = Some p'" "pool_ok own keccak sender p'" "env p' = env p1"
      "tp_locals p' = tp_locals p1" "pool_txs p' \<subseteq> pool_txs p1" "listed (tp_pending p') \<subseteq> listed (tp_pending p1)"
      "\<forall>a \<in> set accs. ?ex (listed (tp_pending p')) a"
      "\<forall>b. b \<notin> set accs \<longrightarrow> of_acc sender b (listed (tp_pending p')) = of_acc sender b (listed (tp_pending p1))" unfolding c by blast
  have "demote_accounts keccak sender p (a # accs) = Some p'" using s r(1) by (auto split: option.splits)
  moreover have "?ex (listed (tp_pending p')) b" if "b \<in> set (a # accs)" for b
    using that r(7,8) p1(6) executable_cong [of sender a "listed (tp_pending p')" "listed (tp_pending p1)"] by auto
  moreover have "of_acc sender b (listed (tp_pending p')) = of_acc sender b (listed (tp_pending p))" if "b \<notin> set (a # accs)" for b
    using that r(8) p1(7) by auto
  moreover have "pool_txs p' \<subseteq> pool_txs p" using r(5) p1(4) by blast
  ultimately show ?case using r(2-4,6) p1(2,3,5) by (intro exI [of _ p']) auto
qed

lemma demoteUnexecutables_spec:
  assumes ok: "pool_ok own keccak sender p"
  obtains p' where "demoteUnexecutables keccak sender p = Some p'" and "pool_ok own keccak sender p'" and "env p' = env p" and "tp_locals p' = tp_locals p"
    and "pool_txs p' \<subseteq> pool_txs p" and "listed (tp_pending p') \<subseteq> listed (tp_pending p)"
    and "\<And>a. executable sender (tp_currentState p) (tp_currentMaxGas p) (listed (tp_pending p')) a"
proof -
  obtain p' where r: "demote_accounts keccak sender p (map fst (tp_pending p)) = Some p'" "pool_ok own keccak sender p'" "env p' = env p"
      "tp_locals p' = tp_locals p" "pool_txs p' \<subseteq> pool_txs p" "listed (tp_pending p') \<subseteq> listed (tp_pending p)"
      "\<forall>a \<in> set (map fst (tp_pending p)). executable sender (tp_currentState p) (tp_currentMaxGas p) (listed (tp_pending p')) a"
      "\<forall>b. b \<notin> set (map fst (tp_pending p)) \<longrightarrow> of_acc sender b (listed (tp_pending p')) = of_acc sender b (listed (tp_pending p))"
    using demote_accounts_spec [OF ok] by blast
  have "executable sender (tp_currentState p) (tp_currentMaxGas p) (listed (tp_pending p')) a" for a
  proof (cases "a \<in> set (map fst (tp_pending p))")
    case False
    then have "of_acc sender a (listed (tp_pending p')) = {}" using r(8) acc_keys [OF listsD(1) [OF pool_okD(2) [OF ok]], of a] by auto
    then show ?thesis by (simp add: executable_def)
  qed (use r(7) in blast)
  with r that show thesis by (simp add: demoteUnexecutables_def)
qed

end
