(* ===== verification/Pool_Trunc.thy ===== *)
theory Pool_Trunc
  imports Pool_Reorg
begin

text \<open>
  The limits of the pool: \<open>truncatePending\<close> takes transactions off the longest lists of remote accounts,
  \<open>truncateQueue\<close> drops queues by heartbeat. Both return, keep the invariant and enforce their limit.
\<close>

section \<open>truncatePending\<close>

definition plen :: "TxPool \<Rightarrow> address \<Rightarrow> nat" where
  "plen p a = (case map_of (tp_pending p) a of None \<Rightarrow> 0 | Some l \<Rightarrow> tl_Len l)"

text \<open>
  What the loops of \<open>truncatePending\<close> keep: they only take transactions off pending lists, and an earlier
  one of the same account stays.
\<close>

definition trimmed :: "bytes set \<Rightarrow> (bytes \<Rightarrow> bytes) \<Rightarrow> sender \<Rightarrow> TxPool \<Rightarrow> TxPool \<Rightarrow> bool" where
  "trimmed own keccak sender p p' \<longleftrightarrow> pool_ok own keccak sender p' \<and> env p' = env p \<and> tp_locals p' = tp_locals p \<and> tp_queue p' = tp_queue p \<and>
     listed (tp_pending p') \<subseteq> listed (tp_pending p) \<and> map fst (tp_pending p') = map fst (tp_pending p) \<and>
     (\<forall>x \<in> listed (tp_pending p) - listed (tp_pending p'). \<exists>y \<in> listed (tp_pending p'). sender y = sender x \<and> tx_Nonce y < tx_Nonce x)"

lemma trimmed_refl: "pool_ok own keccak sender p \<Longrightarrow> trimmed own keccak sender p p"
  by (simp add: trimmed_def)

lemma lower_trans:
  assumes "\<forall>x \<in> A - B. \<exists>y \<in> B. f y = f x \<and> g y < (g x :: u64)" and "\<forall>x \<in> B - C. \<exists>y \<in> C. f y = f x \<and> g y < g x" and "C \<subseteq> B"
  shows "\<forall>x \<in> A - C. \<exists>y \<in> C. f y = f x \<and> g y < g x"
proof
  fix x
  assume x: "x \<in> A - C"
  have low: "\<exists>z \<in> C. f z = f y \<and> g z \<le> g y" if "y \<in> B" for y
    using assms(2) that by (cases "y \<in> C") (auto intro: less_imp_le)
  show "\<exists>y \<in> C. f y = f x \<and> g y < g x"
  proof (cases "x \<in> B")
    case False
    then obtain y where "y \<in> B" "f y = f x" "g y < g x" using assms(1) x by blast
    then show ?thesis using low [of y] by (metis order.strict_trans1)
  qed (use assms(2) x in blast)
qed

lemma trimmedD:
  assumes "trimmed own keccak sender p q"
  shows "pool_ok own keccak sender q" "env q = env p" "tp_locals q = tp_locals p" "tp_queue q = tp_queue p"
    "listed (tp_pending q) \<subseteq> listed (tp_pending p)" "map fst (tp_pending q) = map fst (tp_pending p)"
    "\<forall>x \<in> listed (tp_pending p) - listed (tp_pending q). \<exists>y \<in> listed (tp_pending q). sender y = sender x \<and> tx_Nonce y < tx_Nonce x"
  using assms unfolding trimmed_def by blast+

lemma trimmed_trans:
  assumes "trimmed own keccak sender p q" and "trimmed own keccak sender q r"
  shows "trimmed own keccak sender p r"
proof -
  note P = trimmedD [OF assms(1)] and Q = trimmedD [OF assms(2)]
  show ?thesis unfolding trimmed_def
    using Q(1) trans [OF Q(2) P(2)] trans [OF Q(3) P(3)] trans [OF Q(4) P(4)] order_trans [OF Q(5) P(5)] trans [OF Q(6) P(6)]
      lower_trans [OF P(7) Q(7) Q(5)]
    by (intro conjI)
qed

lemma trimmed_config: "trimmed own keccak sender p q \<Longrightarrow> tp_config q = tp_config p"
  using trimmedD(2) [of own keccak sender p q] by (simp add: env_def)

lemmas trimmed_ok = trimmedD(1)

lemma fold_count: "fold (\<lambda>(_, l) n. n + of_nat (tl_Len l)) m (k :: u64) = k + of_nat (\<Sum>(_, l) \<leftarrow> m. tl_Len l)"
  by (induction m arbitrary: k) auto

lemma count_txs_sum: "count_txs m = of_nat (\<Sum>(_, l) \<leftarrow> m. tl_Len l)"
  by (simp add: count_txs_def fold_count)

lemma sum_update:
  "map_of m a = Some l \<Longrightarrow> distinct (map fst m) \<Longrightarrow>
    (\<Sum>(_, l) \<leftarrow> AList.update a l' m. tl_Len l) + tl_Len l = (\<Sum>(_, l) \<leftarrow> m. tl_Len l) + tl_Len l'"
proof (induction m)
  case (Cons x m)
  then show ?case by (cases x) (auto simp: map_of_eq_None_iff)
qed simp

lemma map_of_update: "map_of (AList.update a l m) b = (if b = a then Some l else map_of m b)"
  by (simp add: AList.update_conv')

lemma plen_Some: "map_of (tp_pending p) a = Some l \<Longrightarrow> plen p a = length (txs_of l)"
  by (simp add: plen_def tl_Len_length)

lemma plen_pos: "0 < plen p a \<Longrightarrow> \<exists>l. map_of (tp_pending p) a = Some l"
  by (auto simp: plen_def split: option.splits)

abbreviation npending :: "TxPool \<Rightarrow> nat" where
  "npending p \<equiv> (\<Sum>(_, l) \<leftarrow> tp_pending p. tl_Len l)"

lemma minus_part: "L = C \<union> K \<Longrightarrow> C \<inter> K = {} \<Longrightarrow> L \<subseteq> P \<Longrightarrow> (P - L) \<union> K = P - C"
  by blast

lemma cap_one_spec:
  assumes ok: "pool_ok own keccak sender p" and len: "2 \<le> plen p a"
  obtains p' where "cap_one keccak p a = Some p'" and "trimmed own keccak sender p p'" and "Suc (npending p') = npending p"
    and "\<And>b. plen p' b = (if b = a then plen p b - 1 else plen p b)"
proof -
  note ok4 = pool_okD [OF ok] and A = listsD [OF pool_okD(2) [OF ok]]
  obtain l where l: "map_of (tp_pending p) a = Some l" using plen_pos [of p a] len by auto
  note k = acc_lookup [OF A(1) l]
  have L: "tl_Len l = length (txs_of l)" "2 \<le> length (txs_of l)" using len plen_Some [OF l] by (simp_all add: tl_Len_length)
  let ?t = "int (tl_Len l) - 1" and ?cs = "rev (drop (nat (int (tl_Len l) - 1)) (txs_of l))"
  have t0: "0 \<le> ?t" using L by linarith
  obtain l' where c: "tl_Cap l ?t = Some (map Some ?cs, l')" "tl_ok l'" "tl_strict l' = tl_strict l" "txs_of l' = take (nat ?t) (txs_of l)"
    by (rule tl_Cap_spec [OF k(1) t0]) (rule that)
  note sp = split_take [OF k(1) c(4) refl]
  have len': "length (txs_of l') = length (txs_of l) - 1" "txs_of l' \<noteq> []" using c(4) L by auto
  let ?m = "AList.update a l' (tp_pending p)" and ?A = "pool_txs p"
  have sub: "set ?cs \<subseteq> listed (tp_pending p)" and s': "\<And>x. x \<in> set (txs_of l') \<Longrightarrow> sender x = Some a"
    using sp(1) k(4) by (auto simp: of_acc_def)
  have m: "acc_ok sender True ?m" "listed ?m = (listed (tp_pending p) - of_acc sender a (listed (tp_pending p))) \<union> set (txs_of l')"
    using acc_update [OF A(1) c(2) _ len'(2) s'] c(3) k(2) by auto
  obtain al db nc where d: "drop_fair keccak (p\<lparr>tp_pending := ?m\<rparr>) a (map Some ?cs) =
      Some (p\<lparr>tp_pending := ?m\<rparr>\<lparr>tp_CMdb := db, tp_all := al, tp_pendingNonces := nc\<rparr>)" "books_ok own keccak al db (?A - set ?cs)"
    using drop_fair_spec [of own keccak "p\<lparr>tp_pending := ?m\<rparr>" ?A ?cs a] ok4(3) sp(3) sub by auto
  let ?pr = "pl_Removed al (tp_priced p) (length ?cs)"
  let ?p' = "p\<lparr>tp_pending := ?m, tp_CMdb := db, tp_all := al, tp_pendingNonces := nc, tp_priced := ?pr\<rparr>"
  have res: "cap_one keccak p a = Some ?p'" using l c(1) d(1) by (simp add: cap_one_def priced_Removed_def del: rev_map)
  have ms: "listed ?m = listed (tp_pending p) - set ?cs" 
    unfolding m(2) by (rule minus_part) (use sp(1,2) k(4) in \<open>auto simp: of_acc_def\<close>)
  have "listed ?m \<union> listed (tp_queue p) = ?A - set ?cs" using ms lists_disjoint [OF ok4(2)] sub by blast
  moreover have "lists_ok sender ?m (tp_queue p)" using lists_move [OF ok4(2) m(1) A(2)] ms lists_disjoint [OF ok4(2)] by blast
  moreover have "priced_ok ?pr (?A - set ?cs)" using pl_Removed_ok [OF d(2) priced_subset [OF ok4(4)]] by blast
  ultimately have "pool_ok own keccak sender ?p'" using d(2) by (simp add: pool_ok_def core_ok_def)
  moreover have "map fst ?m = map fst (tp_pending p)" using map_of_SomeD [OF l] by (force simp: AList.update_keys)
  moreover have "\<exists>y \<in> listed ?m. sender y = sender x \<and> tx_Nonce y < tx_Nonce x" if "x \<in> set ?cs" for x
  proof (intro bexI [of _ "hd (txs_of l')"] conjI)
    have h: "hd (txs_of l') \<in> set (txs_of l')" using len'(2) by simp
    have "sorted_wrt nonce_lt (take (nat ?t) (txs_of l) @ drop (nat ?t) (txs_of l))" using sorted_txs_of [OF k(1)] by simp
    then show "tx_Nonce (hd (txs_of l')) < tx_Nonce x" using h that unfolding c(4) sorted_wrt_append by simp
    have "x \<in> of_acc sender a (listed (tp_pending p))" using that sp(1) k(4) by blast
    then show "sender (hd (txs_of l')) = sender x" using s' [OF h] by (simp add: of_acc_def)
    show "hd (txs_of l') \<in> listed ?m" using h m(2) by simp
  qed
  moreover have "listed (tp_pending p) - listed ?m \<subseteq> set ?cs" using ms by blast
  ultimately have "trimmed own keccak sender p ?p'" unfolding trimmed_def
    by (intro conjI) (use ms in \<open>simp_all add: env_def subset_iff\<close>)
  moreover have "distinct (map fst (tp_pending p))" using A(1) by (simp add: acc_ok_def)
  then have "Suc (npending ?p') = npending p" using sum_update [OF l, of l'] L len' by (simp add: tl_Len_length)
  moreover have "plen ?p' b = (if b = a then plen p b - 1 else plen p b)" for b
    using l len' by (simp add: plen_def map_of_update tl_Len_length)
  ultimately show thesis using res that by blast
qed

lemma cap_each_spec:
  assumes "pool_ok own keccak sender p" and "distinct addrs" and "\<And>a. a \<in> set addrs \<Longrightarrow> 2 \<le> plen p a"
  shows "\<exists>p'. cap_each keccak p n addrs = Some (n - of_nat (length addrs), p') \<and> trimmed own keccak sender p p' \<and>
    npending p' + length addrs = npending p \<and> (\<forall>b. plen p' b = (if b \<in> set addrs then plen p b - 1 else plen p b))"
  using assms
proof (induction addrs arbitrary: p n)
  case Nil
  then show ?case by (simp add: trimmed_refl)
next
  case (Cons a addrs)
  obtain p1 where o: "cap_one keccak p a = Some p1" "trimmed own keccak sender p p1" "Suc (npending p1) = npending p"
      "\<And>b. plen p1 b = (if b = a then plen p b - 1 else plen p b)"
    by (rule cap_one_spec [OF Cons.prems(1), of a]) (use Cons.prems(3) in simp, rule that)
  have "2 \<le> plen p1 b" if "b \<in> set addrs" for b using o(4) that Cons.prems(2,3) by auto
  with Cons.IH [OF trimmed_ok [OF o(2)], of "n - 1"] Cons.prems(2) obtain p' where
    "cap_each keccak p1 (n - 1) addrs = Some (n - 1 - of_nat (length addrs), p')" "trimmed own keccak sender p1 p'"
    "npending p' + length addrs = npending p1" "\<forall>b. plen p' b = (if b \<in> set addrs then plen p1 b - 1 else plen p1 b)" by auto
  with o Cons.prems(2) trimmed_trans [OF o(2), of p'] show ?case by (intro exI [of _ p']) (auto simp: algebra_simps)
qed

text \<open>The accounts keep equal length, down to the threshold or until there are few enough.\<close>

lemma equalize_spec:
  assumes "pool_ok own keccak sender p" and "distinct addrs" and "watch \<in> set addrs" and "\<And>a. a \<in> set addrs \<Longrightarrow> plen p a = k"
    and "1 \<le> t" and "t \<le> k"
  shows "\<exists>k' p'. equalize keccak p (of_nat (npending p)) watch (int t) addrs = Some (of_nat (npending p'), p') \<and> trimmed own keccak sender p p' \<and>
    t \<le> k' \<and> (\<forall>a \<in> set addrs. plen p' a = k') \<and> (\<forall>b. b \<notin> set addrs \<longrightarrow> plen p' b = plen p b) \<and>
    (of_nat (npending p') \<le> cfg_GlobalSlots (tp_config p) \<or> k' = t)"
  using assms
proof (induction k arbitrary: p)
  case (Suc k)
  let ?n = "of_nat (npending p) :: u64"
  obtain l where l: "map_of (tp_pending p) watch = Some l" "tl_Len l = Suc k"
    using plen_pos [of p watch] Suc.prems(4) [OF Suc.prems(3)] by (auto simp: plen_def)
  consider "?n \<le> cfg_GlobalSlots (tp_config p)" | "t = Suc k" | "cfg_GlobalSlots (tp_config p) < ?n" "t \<le> k"
    using Suc.prems(6) by (fastforce simp: not_le)
  then show ?case
  proof cases
    case 1
    then have "equalize keccak p ?n watch (int t) addrs = Some (?n, p)" by (subst equalize.simps) (simp add: leD)
    then show ?thesis using 1 Suc.prems trimmed_refl [OF Suc.prems(1)] by (intro exI [of _ "Suc k"] exI [of _ p]) simp
  next
    case 2
    then have "equalize keccak p ?n watch (int t) addrs = Some (?n, p)" using l by (subst equalize.simps) simp
    then show ?thesis using 2 Suc.prems trimmed_refl [OF Suc.prems(1)] by (intro exI [of _ "Suc k"] exI [of _ p]) simp
  next
    case 3
    have "2 \<le> plen p a" if "a \<in> set addrs" for a using Suc.prems(4) [OF that] 3(2) Suc.prems(5) by simp
    from cap_each_spec [OF Suc.prems(1,2) this, of ?n] obtain p1 where
      c: "cap_each keccak p ?n addrs = Some (?n - of_nat (length addrs), p1)" "trimmed own keccak sender p p1" "npending p1 + length addrs = npending p"
      "\<forall>b. plen p1 b = (if b \<in> set addrs then plen p b - 1 else plen p b)" by blast
    have n: "?n - of_nat (length addrs) = of_nat (npending p1)" unfolding c(3) [symmetric] by simp
    have "plen p1 a = k" if "a \<in> set addrs" for a using c(4) Suc.prems(4) that by simp
    from Suc.IH [OF trimmed_ok [OF c(2)] Suc.prems(2,3) this Suc.prems(5) 3(2)] obtain k' p' where
      r: "equalize keccak p1 (of_nat (npending p1)) watch (int t) addrs = Some (of_nat (npending p'), p')" "trimmed own keccak sender p1 p'"
      "t \<le> k'" "\<forall>a \<in> set addrs. plen p' a = k'" "\<forall>b. b \<notin> set addrs \<longrightarrow> plen p' b = plen p1 b"
      "of_nat (npending p') \<le> cfg_GlobalSlots (tp_config p1) \<or> k' = t" by blast
    have "equalize keccak p ?n watch (int t) addrs = Some (of_nat (npending p'), p')"
      using 3 l c(1) n r(1) by (subst equalize.simps) simp
    then show ?thesis using r(3-6) c(4) trimmed_trans [OF c(2) r(2)] trimmed_config [OF c(2)]
      by (intro exI [of _ k'] exI [of _ p']) auto
  qed
qed simp

text \<open>The offenders have equal length, longer than \<open>s\<close> and no shorter than any account still in the queue.\<close>

definition levelled :: "TxPool \<Rightarrow> nat \<Rightarrow> address item list \<Rightarrow> address list \<Rightarrow> bool" where
  "levelled p s q os \<longleftrightarrow> prque_ok q \<and> distinct (os @ map fst q) \<and> (\<forall>(a, j) \<in> set q. j = int (plen p a) \<and> s < plen p a) \<and>
     (of_nat (npending p) \<le> cfg_GlobalSlots (tp_config p) \<or> os = [] \<or>
      (\<exists>k. s < k \<and> (\<forall>a \<in> set os. plen p a = k) \<and> (\<forall>(a, j) \<in> set q. plen p a \<le> k)))"

lemma mset_Pop:
  assumes "mset q = add_mset (x, n) (mset q')" and "distinct (os @ map fst q)"
  shows "set q = insert (x, n) (set q')" and "distinct ((os @ [x]) @ map fst q')" and "length q = Suc (length q')"
proof -
  show s: "set q = insert (x, n) (set q')" using arg_cong [OF assms(1), of set_mset] by simp
  show "length q = Suc (length q')" using arg_cong [OF assms(1), of size] by simp
  have "mset (map fst q) = mset (x # map fst q')" using arg_cong [OF assms(1), of "image_mset fst"] by simp
  then have "distinct (map fst q) \<longleftrightarrow> distinct (x # map fst q')" by (metis mset_eq_imp_distinct_iff)
  then show "distinct ((os @ [x]) @ map fst q')" using assms(2) s by auto
qed

lemma levelled_push:
  assumes L: "levelled p s q os" and q: "mset q = add_mset (x, n) (mset q')" "prque_ok q'" "\<And>y k. (y, k) \<in> set q \<Longrightarrow> k \<le> n"
    and p': "\<And>b. b \<notin> set os \<Longrightarrow> plen p' b = plen p b"
    and lev: "of_nat (npending p') \<le> cfg_GlobalSlots (tp_config p') \<or> (\<forall>a \<in> set os. plen p' a = plen p x)"
  shows "levelled p' s q' (os @ [x])"
proof -
  have D: "distinct (os @ map fst q)" using L by (simp add: levelled_def)
  note m = mset_Pop [OF q(1) D]
  have x: "n = int (plen p x)" "s < plen p x" using L m(1) by (auto simp: levelled_def)
  have out: "a \<notin> set os" if "(a, j) \<in> set q" for a j using D that by force
  have le: "plen p a \<le> plen p x" if "(a, j) \<in> set q'" for a j
    using q(3) [of a j] L that m(1) x(1) by (auto simp: levelled_def)
  have same: "plen p' a = plen p a" if "(a, j) \<in> set q" for a j using p' out [OF that] by blast
  have px: "plen p' x = plen p x" using same m(1) by blast
  have "j = int (plen p a) \<and> s < plen p a" if "(a, j) \<in> set q" for a j using L that by (auto simp: levelled_def)
  then have "(\<forall>(a, j) \<in> set q'. j = int (plen p' a) \<and> s < plen p' a)" using m(1) same by fastforce
  moreover have "\<forall>(a, j) \<in> set q'. plen p' a \<le> plen p x" using le same m(1) by fastforce
  ultimately show ?thesis using q(2) m(2) lev x(2) px by (auto simp: levelled_def)
qed

text \<open>One round of the outer loop: the next account joins the offenders, which come down to its length.\<close>

lemma offenders_step:
  assumes ok: "pool_ok own keccak sender p" and s: "1 \<le> s" and L: "levelled p s q os" and q: "q \<noteq> []"
    and more: "cfg_GlobalSlots (tp_config p) < of_nat (npending p)"
  obtains x q' p1 where "offenders_loop keccak p (of_nat (npending p)) q os = offenders_loop keccak p1 (of_nat (npending p1)) q' (os @ [x])"
    and "trimmed own keccak sender p p1" and "levelled p1 s q' (os @ [x])" and "\<And>b. b \<notin> set os \<Longrightarrow> plen p1 b = plen p b"
    and "length q = Suc (length q')" and "set (os @ [x]) \<union> fst ` set q' = set os \<union> fst ` set q"
proof -
  let ?n = "of_nat (npending p) :: u64"
  have ne: "\<not> prque_Empty q" and okq: "prque_ok q" and D: "distinct (os @ map fst q)"
    using q L by (auto simp: prque_Empty_def levelled_def)
  obtain x n q' where pop: "prque_Pop q = Some ((x, n), q')" "prque_ok q'" "mset q = add_mset (x, n) (mset q')" "\<And>y k. (y, k) \<in> set q \<Longrightarrow> k \<le> n"
    by (rule prque_Pop_spec [OF okq ne]) (rule that)
  note m = mset_Pop [OF pop(3) D]
  have x: "s < plen p x" using L m(1) by (auto simp: levelled_def)
  have keys: "set (os @ [x]) \<union> fst ` set q' = set os \<union> fst ` set q" unfolding m(1) by auto
  show thesis
  proof (cases "os = []")
    case True
    have "levelled p s q' (os @ [x])" by (rule levelled_push [OF L pop(3,2,4)]) (use True in simp_all)
    moreover have "offenders_loop keccak p ?n q os = offenders_loop keccak p ?n q' (os @ [x])"
      using True more ne pop(1) by (subst offenders_loop.simps) simp
    ultimately show thesis using that trimmed_refl [OF ok] m(3) keys by blast
  next
    case False
    then obtain k where k: "\<forall>a \<in> set os. plen p a = k" "plen p x \<le> k"
      using L more m(1) by (auto simp: levelled_def not_le)
    obtain l where l: "map_of (tp_pending p) x = Some l" using plen_pos [of p x] x by auto
    then have lx: "tl_Len l = plen p x" by (simp add: plen_def)
    have "distinct os" "List.last os \<in> set os" "1 \<le> plen p x" using D False x s by auto
    from equalize_spec [OF ok this(1,2) _ this(3) k(2)] k(1) obtain k' p1 where
      e: "equalize keccak p ?n (List.last os) (int (plen p x)) os = Some (of_nat (npending p1), p1)" "trimmed own keccak sender p p1"
      "\<forall>a \<in> set os. plen p1 a = k'" "\<forall>b. b \<notin> set os \<longrightarrow> plen p1 b = plen p b"
      "of_nat (npending p1) \<le> cfg_GlobalSlots (tp_config p) \<or> k' = plen p x" by blast
    have "offenders_loop keccak p ?n q os = offenders_loop keccak p1 (of_nat (npending p1)) q' (os @ [x])"
      using False more ne pop(1) l lx e(1) by (subst offenders_loop.simps) simp
    moreover have "levelled p1 s q' (os @ [x])"
      by (rule levelled_push [OF L pop(3,2,4)]) (use e(3-5) trimmed_config [OF e(2)] in auto)
    ultimately show thesis using that e(2,4) m(3) keys by blast
  qed
qed

lemma offenders_loop_spec:
  assumes "pool_ok own keccak sender p" and "1 \<le> s" and "levelled p s q os"
  shows "\<exists>os' p'. offenders_loop keccak p (of_nat (npending p)) q os = Some (of_nat (npending p'), os', p') \<and> trimmed own keccak sender p p' \<and>
    (of_nat (npending p') \<le> cfg_GlobalSlots (tp_config p) \<or> levelled p' s [] os' \<and> set os' = set os \<union> fst ` set q) \<and>
    (\<forall>b. b \<notin> set os \<union> fst ` set q \<longrightarrow> plen p' b = plen p b)"
  using assms
proof (induction "length q" arbitrary: p q os)
  case 0
  then have "offenders_loop keccak p (of_nat (npending p)) q os = Some (of_nat (npending p), os, p)"
    by (subst offenders_loop.simps) (simp add: prque_Empty_def)
  with 0 trimmed_refl [OF 0(2)] show ?case by (intro exI [of _ os] exI [of _ p]) simp
next
  case (Suc m)
  let ?n = "of_nat (npending p) :: u64"
  show ?case
  proof (cases "cfg_GlobalSlots (tp_config p) < ?n")
    case False
    then have "offenders_loop keccak p ?n q os = Some (?n, os, p)" by (subst offenders_loop.simps) simp
    with False trimmed_refl [OF Suc(3)] show ?thesis by (intro exI [of _ os] exI [of _ p]) (simp add: not_less)
  next
    case True
    have "q \<noteq> []" using Suc(2) by auto
    obtain x q' p1 where s: "offenders_loop keccak p ?n q os = offenders_loop keccak p1 (of_nat (npending p1)) q' (os @ [x])"
      "trimmed own keccak sender p p1" "levelled p1 s q' (os @ [x])" "\<And>b. b \<notin> set os \<Longrightarrow> plen p1 b = plen p b"
      "length q = Suc (length q')" "set (os @ [x]) \<union> fst ` set q' = set os \<union> fst ` set q"
      by (rule offenders_step [OF Suc(3-5) \<open>q \<noteq> []\<close> True]) (rule that)
    have "m = length q'" using Suc(2) s(5) by simp
    from Suc(1) [OF this trimmed_ok [OF s(2)] Suc(4) s(3)] obtain os' p' where
      r: "offenders_loop keccak p1 (of_nat (npending p1)) q' (os @ [x]) = Some (of_nat (npending p'), os', p')" "trimmed own keccak sender p1 p'"
      "of_nat (npending p') \<le> cfg_GlobalSlots (tp_config p1) \<or> levelled p' s [] os' \<and> set os' = set (os @ [x]) \<union> fst ` set q'"
      "\<forall>b. b \<notin> set (os @ [x]) \<union> fst ` set q' \<longrightarrow> plen p' b = plen p1 b" by blast
    show ?thesis using s r trimmed_trans [OF s(2) r(2)] trimmed_config [OF s(2)] unfolding s(6)
      by (intro exI [of _ os'] exI [of _ p']) auto
  qed
qed

lemma spam_fold:
  fixes P :: "address \<times> txList \<Rightarrow> bool"
  assumes "prque_ok q"
  shows "prque_ok (fold (\<lambda>(a, l) q. if P (a, l) then prque_Push q a (int (tl_Len l)) else q) m q) \<and>
    mset (fold (\<lambda>(a, l) q. if P (a, l) then prque_Push q a (int (tl_Len l)) else q) m q) =
      mset (map (\<lambda>(a, l). (a, int (tl_Len l))) (filter P m)) + mset q"
  using assms
proof (induction m arbitrary: q)
  case (Cons x m)
  obtain a l where x: "x = (a, l)" by fastforce
  show ?case
    using Cons.IH [of q] Cons.IH [of "prque_Push q a (int (tl_Len l))"] prque_Push_spec [OF Cons.prems, of a "int (tl_Len l)"] Cons.prems
    by (simp add: x)
qed simp

lemma spam_order_levelled:
  assumes ok: "pool_ok own keccak sender p"
  shows "levelled p (unat (cfg_AccountSlots (tp_config p))) (spam_order p) []"
    and "fst ` set (spam_order p) = {a. a \<notin> tp_locals p \<and> unat (cfg_AccountSlots (tp_config p)) < plen p a}"
proof -
  let ?s = "unat (cfg_AccountSlots (tp_config p))" and ?m = "tp_pending p"
  let ?P = "\<lambda>(a, l). a \<notin> tp_locals p \<and> int (tl_Len l) > uint (cfg_AccountSlots (tp_config p))"
  have D: "distinct (map fst ?m)" using listsD(1) [OF pool_okD(2) [OF ok]] by (simp add: acc_ok_def)
  have S: "spam_order p = fold (\<lambda>(a, l) q. if ?P (a, l) then prque_Push q a (int (tl_Len l)) else q) ?m prque_New"
    by (simp add: spam_order_def)
  note f = spam_fold [of prque_New ?P ?m, OF prque_ok_New, folded S]
  have ms: "mset (spam_order p) = mset (map (\<lambda>(a, l). (a, int (tl_Len l))) (filter ?P ?m))" using f by (simp add: prque_New_def)
  have "mset (map fst (spam_order p)) = mset (map fst (filter ?P ?m))"
    using arg_cong [OF ms, of "image_mset fst"] by (simp add: image_mset.compositionality comp_def case_prod_unfold)
  then have d: "distinct (map fst (spam_order p))"
    using D distinct_map_filter [of fst ?m ?P] by (metis mset_eq_imp_distinct_iff)
  have st: "set (spam_order p) = (\<lambda>(a, l). (a, int (tl_Len l))) ` set (filter ?P ?m)" using set_mset_eq [OF ms] by simp
  have pl: "plen p a = tl_Len l" if "(a, l) \<in> set ?m" for a l using map_of_is_SomeI [OF D that] by (simp add: plen_def)
  have u: "?s < n \<longleftrightarrow> uint (cfg_AccountSlots (tp_config p)) < int n" for n by (metis of_nat_less_iff uint_nat)
  have "(\<forall>(a, j) \<in> set (spam_order p). j = int (plen p a) \<and> ?s < plen p a)" using pl by (auto simp: st u)
  then show "levelled p ?s (spam_order p) []" using f d by (simp add: levelled_def)
  show "fst ` set (spam_order p) = {a. a \<notin> tp_locals p \<and> ?s < plen p a}"
  proof (rule set_eqI)
    fix a
    have "a \<in> fst ` set (spam_order p) \<longleftrightarrow> (\<exists>l. (a, l) \<in> set ?m \<and> a \<notin> tp_locals p \<and> ?s < tl_Len l)" by (force simp: st u)
    also have "\<dots> \<longleftrightarrow> a \<notin> tp_locals p \<and> ?s < plen p a" using pl plen_pos [of p a] by (metis gr_implies_not0 map_of_SomeD neq0_conv)
    finally show "a \<in> fst ` set (spam_order p) \<longleftrightarrow> a \<in> {a. a \<notin> tp_locals p \<and> ?s < plen p a}" by simp
  qed
qed

lemma truncatePending_spec:
  assumes ok: "pool_ok own keccak sender p" and slots: "1 \<le> cfg_AccountSlots (tp_config p)"
  obtains p' where "truncatePending keccak p = Some p'" and "trimmed own keccak sender p p'"
    and "count_txs (tp_pending p') \<le> cfg_GlobalSlots (tp_config p) \<or>
      (\<forall>a. a \<notin> tp_locals p \<longrightarrow> plen p' a \<le> unat (cfg_AccountSlots (tp_config p)))"
proof (cases "count_txs (tp_pending p) \<le> cfg_GlobalSlots (tp_config p)")
  case True
  then show thesis using that [of p] trimmed_refl [OF ok] by (simp add: truncatePending_def)
next
  case False
  let ?s = "unat (cfg_AccountSlots (tp_config p))"
  have s: "1 \<le> ?s" using slots by (simp add: word_le_nat_alt)
  note so = spam_order_levelled [OF ok]
  obtain os p1 where o: "offenders_loop keccak p (of_nat (npending p)) (spam_order p) [] = Some (of_nat (npending p1), os, p1)" "trimmed own keccak sender p p1"
      "of_nat (npending p1) \<le> cfg_GlobalSlots (tp_config p) \<or> levelled p1 ?s [] os \<and> set os = fst ` set (spam_order p)"
      "\<forall>b. b \<notin> fst ` set (spam_order p) \<longrightarrow> plen p1 b = plen p b"
    using offenders_loop_spec [OF ok s so(1)] by auto
  have cfg: "tp_config p1 = tp_config p" using trimmed_config [OF o(2)] .
  have low: "plen p1 a \<le> ?s" if "a \<notin> tp_locals p" "a \<notin> fst ` set (spam_order p)" for a
    using o(4) that so(2) by auto
  consider (few) "of_nat (npending p1) \<le> cfg_GlobalSlots (tp_config p)" | (none) "os = []" "fst ` set (spam_order p) = {}"
    | (cut) "cfg_GlobalSlots (tp_config p) < of_nat (npending p1)" "os \<noteq> []" "levelled p1 ?s [] os" "set os = fst ` set (spam_order p)"
    using o(3) by (metis image_empty linorder_not_le list.set(1))
  then show thesis
  proof cases
    case few
    then have "truncatePending keccak p = Some p1" using False o(1) cfg by (simp add: truncatePending_def count_txs_sum Let_def leD)
    then show thesis using that o(2) few by (simp add: count_txs_sum)
  next
    case none
    then have "truncatePending keccak p = Some p1" using False o(1) by (simp add: truncatePending_def count_txs_sum Let_def)
    then show thesis using that o(2) low none(2) by auto
  next
    case cut
    have d: "distinct os" "List.last os \<in> set os" using cut(2,3) by (simp_all add: levelled_def)
    have "\<exists>k. ?s < k \<and> (\<forall>a \<in> set os. plen p1 a = k)" using cut(1-3) cfg by (auto simp: levelled_def not_le)
    then obtain k where k: "\<And>a. a \<in> set os \<Longrightarrow> plen p1 a = k" "?s \<le> k" by (metis less_imp_le)
    obtain k' p2 where e: "equalize keccak p1 (of_nat (npending p1)) (List.last os) (int ?s) os = Some (of_nat (npending p2), p2)"
        "trimmed own keccak sender p1 p2" "\<forall>a \<in> set os. plen p2 a = k'" "\<forall>b. b \<notin> set os \<longrightarrow> plen p2 b = plen p1 b"
        "of_nat (npending p2) \<le> cfg_GlobalSlots (tp_config p1) \<or> k' = ?s"
      using equalize_spec [OF trimmed_ok [OF o(2)] d k(1) s k(2)] by blast
    have "truncatePending keccak p = Some p2"
      using False o(1) e(1) cut(1,2) cfg by (simp add: truncatePending_def count_txs_sum Let_def)
    moreover have "plen p2 a \<le> ?s" if "k' = ?s" "a \<notin> tp_locals p" for a
      using low [OF that(2)] e(3,4) that cut(4) by (cases "a \<in> set os") auto
    ultimately show thesis using that [of p2] trimmed_trans [OF o(2) e(2)] e(5) cfg by (auto simp: count_txs_sum)
  qed
qed

lemma trimmed_executable:
  assumes "trimmed own keccak sender p q" and "executable sender st g (listed (tp_pending p)) a"
  shows "executable sender st g (listed (tp_pending q)) a"
proof -
  let ?P = "of_acc sender a (listed (tp_pending p))" and ?Q = "of_acc sender a (listed (tp_pending q))"
  note T = trimmedD [OF assms(1)]
  have sub: "?Q \<subseteq> ?P" using T(5) by (auto simp: of_acc_def)
  have "tx \<in> ?Q" if "tx \<in> ?P" "tx_Nonce tx = st_GetNonce st a" for tx
  proof (rule ccontr)
    assume "tx \<notin> ?Q"
    then have "tx \<in> listed (tp_pending p) - listed (tp_pending q)" using that(1) by (simp add: of_acc_def)
    from bspec [OF T(7) this] obtain y where y: "y \<in> listed (tp_pending q)" "sender y = sender tx" "tx_Nonce y < tx_Nonce tx"
      by (elim bexE conjE)
    then have "y \<in> ?P" using subsetD [OF T(5) y(1)] that(1) by (simp add: of_acc_def)
    then show False using assms(2) y(3) that(2) unfolding executable_def by (metis leD)
  qed
  then show ?thesis using assms(2) sub unfolding executable_def by blast
qed

section \<open>truncateQueue\<close>

text \<open>Transactions leave the queue and nothing else changes in the lists.\<close>

definition dequeued :: "bytes set \<Rightarrow> (bytes \<Rightarrow> bytes) \<Rightarrow> sender \<Rightarrow> TxPool \<Rightarrow> Transaction set \<Rightarrow> TxPool \<Rightarrow> bool" where
  "dequeued own keccak sender p X p' \<longleftrightarrow> pool_ok own keccak sender p' \<and> env p' = env p \<and> tp_locals p' = tp_locals p \<and>
     tp_pending p' = tp_pending p \<and> listed (tp_queue p') = listed (tp_queue p) - X"

lemma dequeuedD:
  assumes "dequeued own keccak sender p X p'"
  shows "pool_ok own keccak sender p'" "env p' = env p" "tp_locals p' = tp_locals p" "tp_pending p' = tp_pending p"
    "listed (tp_queue p') = listed (tp_queue p) - X"
  using assms unfolding dequeued_def by blast+

lemma dequeued_refl: "pool_ok own keccak sender p \<Longrightarrow> dequeued own keccak sender p {} p"
  by (simp add: dequeued_def)

lemma dequeued_trans: "dequeued own keccak sender p X q \<Longrightarrow> dequeued own keccak sender q Y r \<Longrightarrow> dequeued own keccak sender p (X \<union> Y) r"
  by (simp add: dequeued_def set_diff_eq conj_assoc)

lemma removeTx_queued:
  assumes ok: "pool_ok own keccak sender p" and tx: "tx \<in> listed (tp_queue p)"
  obtains p' where "removeTx keccak sender p (tx_Hash keccak tx) True = Some p'" and "dequeued own keccak sender p {tx} p'"
proof -
  note ok4 = pool_okD [OF ok]
  obtain p' where r: "removeTx keccak sender p (tx_Hash keccak tx) True = Some p'" "core_ok own keccak sender p'"
      "env p' = env p" "tp_locals p' = tp_locals p"
      "True \<Longrightarrow> priced_ok (tp_priced p) (pool_txs p) \<Longrightarrow> priced_ok (tp_priced p') (pool_txs p')"
      "\<And>x. x \<in> listed (tp_queue p) \<Longrightarrow> tx_Hash keccak x = tx_Hash keccak tx \<Longrightarrow> tp_pending p' = tp_pending p \<and> listed (tp_queue p') = listed (tp_queue p) - {x}"
    by (rule removeTx_spec [OF ok4(1), of "tx_Hash keccak tx" True]) (rule that)
  have "dequeued own keccak sender p {tx} p'"
    using r(2-4) r(5) [OF TrueI ok4(4)] r(6) [OF tx refl] by (simp add: dequeued_def pool_ok_def)
  with r(1) that show thesis by blast
qed

lemma remove_txs_queued:
  assumes "pool_ok own keccak sender p" and "set txs \<subseteq> listed (tp_queue p)" and "distinct txs"
  shows "\<exists>p'. remove_txs keccak sender p txs True = Some p' \<and> dequeued own keccak sender p (set txs) p'"
  using assms
proof (induction txs arbitrary: p)
  case Nil
  then show ?case by (simp add: dequeued_refl)
next
  case (Cons tx txs)
  obtain p1 where r: "removeTx keccak sender p (tx_Hash keccak tx) True = Some p1" "dequeued own keccak sender p {tx} p1"
    by (rule removeTx_queued [OF Cons.prems(1), of tx]) (use Cons.prems(2) that in auto)
  have "set txs \<subseteq> listed (tp_queue p1)" using Cons.prems(2,3) dequeuedD(5) [OF r(2)] by auto
  from Cons.IH [OF dequeuedD(1) [OF r(2)] this] Cons.prems(3) obtain p2 where
    "remove_txs keccak sender p1 txs True = Some p2" "dequeued own keccak sender p1 (set txs) p2" by auto
  then show ?case using r(1) dequeued_trans [OF r(2)] by fastforce
qed

lemma drop_last_spec:
  assumes "pool_ok own keccak sender p" and "set txs \<subseteq> listed (tp_queue p)" and "distinct txs"
  shows "\<exists>k p'. drop_last keccak sender p n txs = Some (n - of_nat k, p') \<and> k \<le> length txs \<and>
    dequeued own keccak sender p (set (take k txs)) p' \<and> (n - of_nat k = 0 \<or> k = length txs)"
  using assms
proof (induction txs arbitrary: p n)
  case Nil
  then show ?case by (simp add: dequeued_refl)
next
  case (Cons tx txs)
  show ?case
  proof (cases "n = 0")
    case True
    then show ?thesis using Cons.prems(1) by (intro exI [of _ 0] exI [of _ p]) (simp add: dequeued_refl)
  next
    case False
    obtain p1 where r: "removeTx keccak sender p (tx_Hash keccak tx) True = Some p1" "dequeued own keccak sender p {tx} p1"
      by (rule removeTx_queued [OF Cons.prems(1), of tx]) (use Cons.prems(2) that in auto)
    have "set txs \<subseteq> listed (tp_queue p1)" using Cons.prems(2,3) dequeuedD(5) [OF r(2)] by auto
    from Cons.IH [OF dequeuedD(1) [OF r(2)] this, of "n - 1"] Cons.prems(3) obtain k p2 where
      d: "drop_last keccak sender p1 (n - 1) txs = Some (n - 1 - of_nat k, p2)" "k \<le> length txs"
      "dequeued own keccak sender p1 (set (take k txs)) p2" "n - 1 - of_nat k = 0 \<or> k = length txs" by auto
    have e: "n - 1 - of_nat k = n - of_nat (Suc k)" by simp
    show ?thesis using False r(1) d(1,2,4) dequeued_trans [OF r(2) d(3)] unfolding e
      by (intro exI [of _ "Suc k"] exI [of _ p2]) (simp add: word_gt_0 del: of_nat_Suc)
  qed
qed

text \<open>Flattening a queue only fills its cache.\<close>

lemma flatten_queue_ok:
  assumes ok: "pool_ok own keccak sender p" and l: "map_of (tp_queue p) a = Some l" and f: "tl_Flatten l = (txs, l')"
  shows "dequeued own keccak sender p {} (p\<lparr>tp_queue := AList.update a l' (tp_queue p)\<rparr>)"
    and "set txs = of_acc sender a (listed (tp_queue p))" and "distinct txs" and "length txs = tl_Len l"
proof -
  note ok4 = pool_okD [OF ok] and A = listsD [OF pool_okD(2) [OF ok]]
  note k = acc_lookup [OF A(2) l]
  note F = tl_Flatten_spec [OF k(1) f]
  let ?q = "AList.update a l' (tp_queue p)"
  show txs: "set txs = of_acc sender a (listed (tp_queue p))" "distinct txs" "length txs = tl_Len l"
    using F(1) k(4) distinct_txs_of [OF k(1)] by (simp_all add: tl_Len_length)
  have sd: "sender x = Some a" if "x \<in> set (txs_of l')" for x using that k(4) F(4) by (simp add: of_acc_def)
  have st: "tl_strict l' = False" and ne: "txs_of l' \<noteq> []" using F(3,4) k(2,3) by simp_all
  have u: "acc_ok sender False ?q" "listed ?q = (listed (tp_queue p) - of_acc sender a (listed (tp_queue p))) \<union> set (txs_of l')"
    using acc_update [OF A(2) F(2) st ne sd] by simp_all
  have same: "listed ?q = listed (tp_queue p)" unfolding u(2) F(4) k(4) by (auto simp: of_acc_def)
  have "lists_ok sender (tp_pending p) ?q" using ok4(2) u(1) same by (simp add: lists_ok_def)
  then show "dequeued own keccak sender p {} (p\<lparr>tp_queue := ?q\<rparr>)"
    using ok4(3,4) same by (simp add: dequeued_def pool_ok_def core_ok_def env_def)
qed

lemma card_listed:
  assumes "acc_ok sender b m"
  shows "(\<Sum>(_, l) \<leftarrow> m. tl_Len l) = card (listed m)"
  using assms
proof (induction m)
  case (Cons x m)
  obtain a l where x: "x = (a, l)" by fastforce
  have m: "acc_ok sender b m" and l: "tl_ok l" "\<forall>tx \<in> set (txs_of l). sender tx = Some a" and a: "a \<notin> fst ` set m"
    using Cons.prems x by (auto simp: acc_ok_def)
  have "sender tx \<noteq> Some a" if "tx \<in> listed m" for tx
    using that a acc_keys [OF m, of a] by (auto simp: of_acc_def)
  then have "listed m \<inter> set (txs_of l) = {}" using l(2) by blast
  moreover have "finite (listed m)" by (auto simp: listed_def)
  moreover have "card (set (txs_of l)) = tl_Len l" using distinct_card [OF distinct_txs_of [OF l(1)]] by (simp add: tl_Len_length)
  moreover have "listed (x # m) = set (txs_of l) \<union> listed m" by (simp add: listed_def x)
  ultimately show ?case using Cons.IH [OF m] x by (simp add: card_Un_disjoint Int_commute)
qed simp

lemma count_queue: "pool_ok own keccak sender p \<Longrightarrow> count_txs (tp_queue p) = of_nat (card (listed (tp_queue p)))"
  using card_listed [OF listsD(2) [OF pool_okD(2)]] by (simp add: count_txs_sum)

lemma card_dequeued:
  assumes "X \<subseteq> Q" and "finite Q" and "of_nat (card Q) = n + (g :: u64)"
  shows "of_nat (card (Q - X)) = n - of_nat (card X) + g"
proof -
  have "card (Q - X) + card X = card Q" using assms(1,2) by (metis card_Diff_subset card_mono finite_subset le_add_diff_inverse2)
  then have "of_nat (card (Q - X)) + of_nat (card X) = (of_nat (card Q) :: u64)" by (metis of_nat_add)
  then show ?thesis using assms(3) by (simp add: algebra_simps)
qed

lemma finite_listed: "finite (listed m)"
  by (auto simp: listed_def)

text \<open>One account of the loop: its whole queue, or as many of its last transactions as are too many.\<close>

lemma truncate_one:
  assumes ok: "pool_ok own keccak sender p" and a: "of_acc sender a (listed (tp_queue p)) \<noteq> {}" and n: "n \<noteq> 0"
    and inv: "of_nat (card (listed (tp_queue p))) = n + (g :: u64)"
  obtains X n1 p1 where "\<And>as. truncate_accounts keccak sender p n (a # as) = truncate_accounts keccak sender p1 n1 as"
    and "dequeued own keccak sender p X p1" and "X \<subseteq> of_acc sender a (listed (tp_queue p))"
    and "of_nat (card (listed (tp_queue p1))) = n1 + g" and "n1 = 0 \<or> X = of_acc sender a (listed (tp_queue p))"
proof -
  let ?Q = "listed (tp_queue p)"
  obtain l where l: "map_of (tp_queue p) a = Some l"
    using a acc_lookup_None [OF listsD(2) [OF pool_okD(2) [OF ok]], of a] by (cases "map_of (tp_queue p) a") auto
  obtain txs l' where f: "tl_Flatten l = (txs, l')" by fastforce
  note F = flatten_queue_ok [OF ok l f]
  let ?p1 = "p\<lparr>tp_queue := AList.update a l' (tp_queue p)\<rparr>"
  have Q1: "listed (tp_queue ?p1) = ?Q" using dequeuedD(5) [OF F(1)] by simp
  have sub: "set txs \<subseteq> listed (tp_queue ?p1)" "set (rev txs) \<subseteq> listed (tp_queue ?p1)" unfolding Q1 using F(2) by (auto simp: of_acc_def)
  show thesis
  proof (cases "of_nat (tl_Len l) \<le> n")
    case True
    obtain p2 where r: "remove_txs keccak sender ?p1 txs True = Some p2" "dequeued own keccak sender ?p1 (set txs) p2"
      using remove_txs_queued [OF dequeuedD(1) [OF F(1)] sub(1) F(3)] by blast
    have dq: "dequeued own keccak sender p (set txs) p2" using dequeued_trans [OF F(1) r(2)] by simp
    have "card (set txs) = tl_Len l" using distinct_card [OF F(3)] F(4) by simp
    then have "of_nat (card (listed (tp_queue p2))) = n - of_nat (tl_Len l) + g"
      using card_dequeued [OF _ finite_listed inv, of "set txs"] F(2) unfolding dequeuedD(5) [OF dq] by (auto simp: of_acc_def)
    moreover have "truncate_accounts keccak sender p n (a # as) = truncate_accounts keccak sender p2 (n - of_nat (tl_Len l)) as" for as
      using n l f True r(1) by (simp add: word_gt_0)
    ultimately show thesis by (intro that [OF _ dq]) (simp_all add: F(2))
  next
    case False
    obtain k p2 where r: "drop_last keccak sender ?p1 n (rev txs) = Some (n - of_nat k, p2)" "k \<le> length (rev txs)"
        "dequeued own keccak sender ?p1 (set (take k (rev txs))) p2" "n - of_nat k = 0 \<or> k = length (rev txs)"
      using drop_last_spec [OF dequeuedD(1) [OF F(1)] sub(2)] F(3) by (metis distinct_rev)
    let ?X = "set (take k (rev txs))"
    have dq: "dequeued own keccak sender p ?X p2" using dequeued_trans [OF F(1) r(3)] by simp
    have X: "?X \<subseteq> of_acc sender a ?Q" using set_take_subset [of k "rev txs"] F(2) by simp
    have "card ?X = k" using F(3) r(2) by (simp add: distinct_card)
    moreover have "?X \<subseteq> ?Q" using X unfolding of_acc_def by blast
    ultimately have "of_nat (card (listed (tp_queue p2))) = n - of_nat k + g"
      using card_dequeued [OF _ finite_listed inv, of ?X] dequeuedD(5) [OF dq] by simp
    moreover have "n - of_nat k = 0 \<or> ?X = of_acc sender a ?Q" using r(4) F(2) by (metis order_refl set_rev take_all)
    moreover have "truncate_accounts keccak sender p n (a # as) = truncate_accounts keccak sender p2 (n - of_nat k) as" for as
      using n l f False r(1) by (simp add: word_gt_0)
    ultimately show thesis by (rule that [OF _ dq X, rotated])
  qed
qed

lemma truncate_accounts_0: "truncate_accounts keccak sender p 0 as = Some p"
  by (cases as) simp_all

lemma truncate_accounts_spec:
  assumes "pool_ok own keccak sender p" and "distinct as" and "\<And>a. a \<in> set as \<Longrightarrow> of_acc sender a (listed (tp_queue p)) \<noteq> {}"
    and "of_nat (card (listed (tp_queue p))) = n + (g :: u64)"
  shows "\<exists>X p'. truncate_accounts keccak sender p n as = Some p' \<and> dequeued own keccak sender p X p' \<and> sender ` X \<subseteq> Some ` set as \<and>
    (of_nat (card (listed (tp_queue p'))) = g \<or> (\<forall>a \<in> set as. of_acc sender a (listed (tp_queue p')) = {}))"
  using assms
proof (induction as arbitrary: p n)
  case Nil
  then show ?case by (intro exI [of _ "{}"] exI [of _ p]) (simp add: dequeued_refl)
next
  case (Cons a as)
  show ?case
  proof (cases "n = 0")
    case True
    then show ?thesis using Cons.prems by (intro exI [of _ "{}"] exI [of _ p]) (simp add: dequeued_refl)
  next
    case False
    obtain X n1 p1 where t: "\<And>as. truncate_accounts keccak sender p n (a # as) = truncate_accounts keccak sender p1 n1 as"
      "dequeued own keccak sender p X p1" "X \<subseteq> of_acc sender a (listed (tp_queue p))"
      "of_nat (card (listed (tp_queue p1))) = n1 + g" "n1 = 0 \<or> X = of_acc sender a (listed (tp_queue p))"
      by (rule truncate_one [OF Cons.prems(1) _ False Cons.prems(4), of a]) (use Cons.prems(3) in simp, rule that)
    have sX: "sender ` X \<subseteq> {Some a}" using t(3) by (auto simp: of_acc_def)
    show ?thesis
    proof (cases "n1 = 0")
      case True
      then show ?thesis using t sX by (intro exI [of _ X] exI [of _ p1]) (auto simp: truncate_accounts_0)
    next
      case False
      have Q1: "listed (tp_queue p1) = listed (tp_queue p) - X" using dequeuedD(5) [OF t(2)] .
      have "of_acc sender b (listed (tp_queue p1)) \<noteq> {}" if "b \<in> set as" for b
        using Cons.prems(2,3) that sX unfolding Q1 of_acc_def by fastforce
      with Cons.IH [OF dequeuedD(1) [OF t(2)] _ _ t(4)] Cons.prems(2) obtain Y p' where
        r: "truncate_accounts keccak sender p1 n1 as = Some p'" "dequeued own keccak sender p1 Y p'" "sender ` Y \<subseteq> Some ` set as"
        "of_nat (card (listed (tp_queue p'))) = g \<or> (\<forall>a \<in> set as. of_acc sender a (listed (tp_queue p')) = {})" by auto
      have "of_acc sender a (listed (tp_queue p')) = {}"
        using t(5) False unfolding dequeuedD(5) [OF r(2)] Q1 by (auto simp: of_acc_def)
      then show ?thesis using t(1) r(1,3,4) sX dequeued_trans [OF t(2) r(2)]
        by (intro exI [of _ "X \<union> Y"] exI [of _ p']) (auto simp: image_Un)
    qed
  qed
qed

lemma by_heartbeat_accounts:
  assumes "acc_ok sender False (tp_queue p)"
  shows "distinct (by_heartbeat p)" and "set (by_heartbeat p) = {a. of_acc sender a (listed (tp_queue p)) \<noteq> {} \<and> a \<notin> tp_locals p}"
proof -
  let ?f = "\<lambda>addr. (addr, case map_of (tp_beats p) addr of None \<Rightarrow> 0 | Some t \<Rightarrow> t)"
  let ?xs = "filter (\<lambda>addr. addr \<notin> tp_locals p) (map fst (tp_queue p))"
  have "mset (by_heartbeat p) = mset (map fst (map ?f ?xs))" unfolding by_heartbeat_def mset_map mset_sort ..
  then have m: "mset (by_heartbeat p) = mset ?xs" by (simp add: comp_def)
  have "distinct ?xs" using assms by (simp add: acc_ok_def)
  then show "distinct (by_heartbeat p)" using m by (metis mset_eq_imp_distinct_iff)
  show "set (by_heartbeat p) = {a. of_acc sender a (listed (tp_queue p)) \<noteq> {} \<and> a \<notin> tp_locals p}"
    using set_mset_eq [OF m] acc_keys [OF assms] by auto
qed

lemma truncateQueue_spec:
  assumes ok: "pool_ok own keccak sender p"
  obtains X p' where "truncateQueue keccak sender p = Some p'" and "dequeued own keccak sender p X p'"
    and "\<And>tx a. tx \<in> X \<Longrightarrow> sender tx = Some a \<Longrightarrow> a \<notin> tp_locals p"
    and "count_txs (tp_queue p') \<le> cfg_GlobalQueue (tp_config p) \<or> (\<forall>a. a \<notin> tp_locals p \<longrightarrow> of_acc sender a (listed (tp_queue p')) = {})"
proof (cases "count_txs (tp_queue p) \<le> cfg_GlobalQueue (tp_config p)")
  case True
  then show thesis using that [of p "{}"] dequeued_refl [OF ok] by (simp add: truncateQueue_def)
next
  case False
  let ?g = "cfg_GlobalQueue (tp_config p)" and ?as = "rev (by_heartbeat p)"
  note bh = by_heartbeat_accounts [OF listsD(2) [OF pool_okD(2) [OF ok]]]
  have "of_nat (card (listed (tp_queue p))) = (count_txs (tp_queue p) - ?g) + ?g" using count_queue [OF ok] by simp
  moreover have "distinct ?as" "\<And>a. a \<in> set ?as \<Longrightarrow> of_acc sender a (listed (tp_queue p)) \<noteq> {}" using bh by auto
  ultimately obtain X p' where r: "truncate_accounts keccak sender p (count_txs (tp_queue p) - ?g) ?as = Some p'" "dequeued own keccak sender p X p'"
      "sender ` X \<subseteq> Some ` set ?as"
      "of_nat (card (listed (tp_queue p'))) = ?g \<or> (\<forall>a \<in> set ?as. of_acc sender a (listed (tp_queue p')) = {})"
    using truncate_accounts_spec [OF ok] by blast
  have "of_acc sender a (listed (tp_queue p')) = {}" if "\<forall>a \<in> set ?as. of_acc sender a (listed (tp_queue p')) = {}" "a \<notin> tp_locals p" for a
  proof (cases "a \<in> set ?as")
    case False
    then have "of_acc sender a (listed (tp_queue p)) = {}" using bh(2) that(2) by simp
    then show ?thesis unfolding dequeuedD(5) [OF r(2)] of_acc_def by blast
  qed (use that in blast)
  moreover have "a \<notin> tp_locals p" if "tx \<in> X" "sender tx = Some a" for tx a using r(3) that bh(2) by force
  ultimately show thesis using r(1,2,4) False count_queue [OF dequeuedD(1) [OF r(2)]]
    by (intro that [of p' X]) (auto simp: truncateQueue_def)
qed
end
