(* ===== verification/Pool_Run.thy ===== *)
theory Pool_Run
  imports Pool_Trunc
begin

text \<open>
  The pool as a whole: eviction, the price floor, the reset to a new chain head and the reorganisation
  run that composes the steps, and the states that sequences of these operations reach.
\<close>

section \<open>Eviction and the price floor\<close>

lemma dequeued_nonce_frame: "dequeued own keccak sender p X q \<Longrightarrow> tp_config q = tp_config p"
  using dequeuedD(2) [of own keccak sender p X q] by (simp add: env_def)

lemma evict_accounts_spec:
  assumes "pool_ok own keccak sender p"
  shows "\<exists>X p'. evict_accounts keccak sender now p as = Some p' \<and> dequeued own keccak sender p X p' \<and>
    (\<forall>tx a. tx \<in> X \<longrightarrow> sender tx = Some a \<longrightarrow> a \<notin> tp_locals p)"
  using assms
proof (induction as arbitrary: p)
  case Nil
  then show ?case by (intro exI [of _ "{}"] exI [of _ p]) (simp add: dequeued_refl)
next
  case (Cons a as)
  note skip = Cons.IH [OF Cons.prems]
  show ?case
  proof (cases "map_of (tp_queue p) a")
    case None
    then show ?thesis using skip by simp
  next
    case (Some l)
    let ?old = "now - (case map_of (tp_beats p) a of None \<Rightarrow> 0 | Some t \<Rightarrow> t) > cfg_Lifetime (tp_config p)"
    obtain txs l' where f: "tl_Flatten l = (txs, l')" by fastforce
    note F = flatten_queue_ok [OF Cons.prems Some f]
    let ?p1 = "p\<lparr>tp_queue := AList.update a l' (tp_queue p)\<rparr>"
    have "set txs \<subseteq> listed (tp_queue ?p1)" unfolding dequeuedD(5) [OF F(1)] using F(2) by (auto simp: of_acc_def)
    then obtain p2 where r: "remove_txs keccak sender ?p1 txs True = Some p2" "dequeued own keccak sender ?p1 (set txs) p2"
      using remove_txs_queued [OF dequeuedD(1) [OF F(1)] _ F(3)] by blast
    have d: "dequeued own keccak sender p (set txs) p2" using dequeued_trans [OF F(1) r(2)] by simp
    obtain X p' where e: "evict_accounts keccak sender now p2 as = Some p'" "dequeued own keccak sender p2 X p'"
        "\<forall>tx a. tx \<in> X \<longrightarrow> sender tx = Some a \<longrightarrow> a \<notin> tp_locals p2"
      using Cons.IH [OF dequeuedD(1) [OF d]] by blast
    show ?thesis
    proof (cases "a \<notin> tp_locals p \<and> ?old")
      case True
      have "b \<notin> tp_locals p" if "tx \<in> set txs \<union> X" "sender tx = Some b" for tx b
        using that e(3) dequeuedD(3) [OF d] F(2) True by (auto simp: of_acc_def)
      moreover have "evict_accounts keccak sender now p (a # as) = Some p'" using Some True f r(1) e(1) by simp
      ultimately show ?thesis using dequeued_trans [OF d e(2)] by blast
    next
      case False
      then show ?thesis using Some skip by auto
    qed
  qed
qed

lemma evict_tick_spec:
  assumes "pool_ok own keccak sender p"
  obtains X p' where "evict_tick keccak sender now p = Some p'" and "dequeued own keccak sender p X p'"
    and "\<And>tx a. tx \<in> X \<Longrightarrow> sender tx = Some a \<Longrightarrow> a \<notin> tp_locals p"
  using evict_accounts_spec [OF assms, of now "map fst (tp_queue p)"] that by (auto simp: evict_tick_def)

lemma SetGasPrice_spec:
  assumes ok: "pool_ok own keccak sender p"
  obtains p' where "SetGasPrice keccak sender p price = Some p'" and "pool_ok own keccak sender p'"
    and "pool_txs p' \<subseteq> pool_txs p" and "tp_config p' = tp_config p" and "tp_gasPrice p' = price"
proof -
  note ok4 = pool_okD [OF ok]
  obtain drops pr where c: "pl_Cap keccak sender (tp_all p) (tp_priced p) price (tp_locals p) = (drops, pr)" by fastforce
  let ?p1 = "p\<lparr>tp_gasPrice := price, tp_priced := pr\<rparr>"
  have "core_ok own keccak sender ?p1" "priced_ok (tp_priced ?p1) (pool_txs ?p1 - set drops)"
    using ok4(1) pl_Cap_ok [OF ok4(3,4) c] by (simp_all add: core_ok_def)
  then obtain p' where r: "remove_txs keccak sender ?p1 drops False = Some p'" "pool_ok own keccak sender p'" "env p' = env ?p1"
      "pool_txs p' = {tx \<in> pool_txs ?p1. tx_Hash keccak tx \<notin> tx_Hash keccak ` set drops}"
    by (rule remove_drops_ok) (rule that)
  show thesis using r c by (intro that [of p']) (auto simp: SetGasPrice_def env_def)
qed

section \<open>Pending nonces\<close>

text \<open>Every pending account has the nonce after its last transaction.\<close>

lemma update_nonces_spec:
  assumes "pool_ok own keccak sender p" and "distinct (map fst ls)" and "\<And>a l. (a, l) \<in> set ls \<Longrightarrow> map_of (tp_pending p) a = Some l"
  shows "\<exists>p'. update_nonces p ls = Some p' \<and> pool_ok own keccak sender p' \<and> env p' = env p \<and> tp_locals p' = tp_locals p \<and>
    listed (tp_pending p') = listed (tp_pending p) \<and> tp_queue p' = tp_queue p \<and>
    (\<forall>a. (\<lambda>l. txs_of l) ` set_option (map_of (tp_pending p') a) = (\<lambda>l. txs_of l) ` set_option (map_of (tp_pending p) a)) \<and>
    (\<forall>a. map_of (nc_nonces (tp_pendingNonces p')) a =
      (case map_of ls a of None \<Rightarrow> map_of (nc_nonces (tp_pendingNonces p)) a | Some l \<Rightarrow> Some (tx_Nonce (List.last (txs_of l)) + 1)))"
  using assms
proof (induction ls arbitrary: p)
  case Nil
  then show ?case by simp
next
  case (Cons x ls)
  obtain a l where x: "x = (a, l)" by fastforce
  note ok4 = pool_okD [OF Cons.prems(1)] and A = listsD [OF pool_okD(2) [OF Cons.prems(1)]]
  have l: "map_of (tp_pending p) a = Some l" using Cons.prems(3) [of a l] x by simp
  note k = acc_lookup [OF A(1) l]
  obtain txs l' where f: "tl_Flatten l = (txs, l')" by fastforce
  note F = tl_Flatten_spec [OF k(1) f]
  let ?m = "AList.update a l' (tp_pending p)"
  let ?p1 = "p\<lparr>tp_pending := ?m, tp_pendingNonces := nc_set (tp_pendingNonces p) a (tx_Nonce (List.last txs) + 1)\<rparr>"
  have sd: "sender y = Some a" if "y \<in> set (txs_of l')" for y using that k(4) F(4) by (simp add: of_acc_def)
  have st: "tl_strict l' = True" and ne: "txs_of l' \<noteq> []" using F(3,4) k(2,3) by simp_all
  have u: "acc_ok sender True ?m" "listed ?m = (listed (tp_pending p) - of_acc sender a (listed (tp_pending p))) \<union> set (txs_of l')"
    using acc_update [OF A(1) F(2) st ne sd] by simp_all
  have same: "listed ?m = listed (tp_pending p)" unfolding u(2) F(4) k(4) by (auto simp: of_acc_def)
  have ok1: "pool_ok own keccak sender ?p1" using ok4 u(1) same by (simp add: pool_ok_def core_ok_def lists_ok_def)
  have a: "a \<notin> fst ` set ls" and d: "distinct (map fst ls)" using Cons.prems(2) x by simp_all
  have "map_of (tp_pending ?p1) b = Some l2" if "(b, l2) \<in> set ls" for b l2
    using Cons.prems(3) [of b l2] that a by (force simp: map_of_update)
  from Cons.IH [OF ok1 d this] obtain p' where r: "update_nonces ?p1 ls = Some p'" "pool_ok own keccak sender p'" "env p' = env ?p1"
      "tp_locals p' = tp_locals ?p1" "listed (tp_pending p') = listed (tp_pending ?p1)" "tp_queue p' = tp_queue ?p1"
      "\<forall>b. (\<lambda>l. txs_of l) ` set_option (map_of (tp_pending p') b) = (\<lambda>l. txs_of l) ` set_option (map_of (tp_pending ?p1) b)"
      "\<forall>b. map_of (nc_nonces (tp_pendingNonces p')) b =
        (case map_of ls b of None \<Rightarrow> map_of (nc_nonces (tp_pendingNonces ?p1)) b | Some l \<Rightarrow> Some (tx_Nonce (List.last (txs_of l)) + 1))"
    by blast
  have "update_nonces p (x # ls) = Some p'" using r(1) f F(1) k(3) x by simp
  moreover have "map_of ls a = None" using a by (simp add: map_of_eq_None_iff)
  ultimately show ?case using r(2-8) same F(1,4) l x
    by (intro exI [of _ p']) (auto simp: env_def nc_set_def map_of_update split: option.splits)
qed

section \<open>The reset\<close>

text \<open>
  What the pool relies on in the chain: a block is found under its own hash and number, there is none
  below the genesis block, and the transactions of a block came over the wire.
\<close>

definition chain_ok :: "Chain \<Rightarrow> bool" where
  "chain_ok chain \<longleftrightarrow> (\<forall>h. ch_GetBlock chain h (- 1) = None) \<and>
     (\<forall>h n b. ch_GetBlock chain h n = Some b \<longrightarrow> NumberU64 b = n \<and> hd_Hash (bl_Header b) = h \<and> list_all tx_wired (bl_Transactions b))"

text \<open>The blocks from \<open>b\<close> back to a later ancestor, which is not among them.\<close>

inductive path :: "Chain \<Rightarrow> Block \<Rightarrow> Block list \<Rightarrow> Block \<Rightarrow> bool" for chain where
  path_Nil: "path chain b [] b"
| path_Cons: "parent_block chain b = Some b1 \<Longrightarrow> path chain b1 bs b' \<Longrightarrow> path chain b (b # bs) b'"

abbreviation branch_txs :: "Block list \<Rightarrow> Transaction list" where
  "branch_txs bs \<equiv> concat (map bl_Transactions bs)"

lemma path_append: "path chain b bs b' \<Longrightarrow> path chain b' cs b'' \<Longrightarrow> path chain b (bs @ cs) b''"
  by (induction rule: path.induct) (auto intro: path.intros)

lemma parent_number:
  assumes "chain_ok chain" and "parent_block chain b = Some b'"
  shows "unat (NumberU64 b) = Suc (unat (NumberU64 b'))" and "NumberU64 b' = NumberU64 b - 1" and "list_all tx_wired (bl_Transactions b')"
proof -
  show n: "NumberU64 b' = NumberU64 b - 1" "list_all tx_wired (bl_Transactions b')" using assms by (auto simp: chain_ok_def parent_block_def)
  have "NumberU64 b \<noteq> 0" using assms by (auto simp: chain_ok_def parent_block_def)
  then show "unat (NumberU64 b) = Suc (unat (NumberU64 b'))" by (simp add: n(1) unat_minus_one unat_gt_0)
qed

lemma path_wired: "path chain b bs b' \<Longrightarrow> chain_ok chain \<Longrightarrow> list_all tx_wired (bl_Transactions b) \<Longrightarrow> list_all tx_wired (branch_txs bs @ bl_Transactions b')"
  by (induction rule: path.induct) (auto simp: parent_number(3))

lemma walk_down_spec:
  assumes "chain_ok chain"
  shows "walk_down chain b n txs = Some None \<or>
    (\<exists>bs b'. walk_down chain b n txs = Some (Some (txs @ branch_txs bs, b')) \<and> path chain b bs b')"
proof (induction "unat (NumberU64 b)" arbitrary: b txs)
  case 0
  then have "NumberU64 b = 0" by (simp add: unat_eq_0)
  then have "walk_down chain b n txs = Some (Some (txs @ branch_txs [], b))" by (subst walk_down.simps) simp
  then show ?case using path_Nil [of chain b] by blast
next
  case (Suc m)
  show ?case
  proof (cases "n < NumberU64 b")
    case False
    then have "walk_down chain b n txs = Some (Some (txs @ branch_txs [], b))" by (subst walk_down.simps) simp
    then show ?thesis using path_Nil [of chain b] by blast
  next
    case True
    show ?thesis
    proof (cases "parent_block chain b")
      case None
      then have "walk_down chain b n txs = Some None" using True by (subst walk_down.simps) simp
      then show ?thesis by blast
    next
      case (Some b1)
      have w: "walk_down chain b n txs = walk_down chain b1 n (txs @ bl_Transactions b)" using True Some by (subst walk_down.simps) simp
      have "m = unat (NumberU64 b1)" using Suc(2) parent_number(1) [OF assms Some] by simp
      from Suc(1) [OF this, of "txs @ bl_Transactions b"] show ?thesis
      proof (elim disjE exE conjE)
        fix bs b'
        assume r: "walk_down chain b1 n (txs @ bl_Transactions b) = Some (Some ((txs @ bl_Transactions b) @ branch_txs bs, b'))" "path chain b1 bs b'"
        have "walk_down chain b n txs = Some (Some (txs @ branch_txs (b # bs), b'))" using w r(1) by simp
        then show ?thesis using path_Cons [OF Some r(2)] by blast
      qed (use w in simp)
    qed
  qed
qed

lemma walk_both_spec:
  assumes "chain_ok chain"
  shows "walk_both chain rem ad d i = Some None \<or>
    (\<exists>os ns anc anc'. walk_both chain rem ad d i = Some (Some (d @ branch_txs os, i @ branch_txs ns)) \<and>
      path chain rem os anc \<and> path chain ad ns anc' \<and> hd_Hash (bl_Header anc) = hd_Hash (bl_Header anc'))"
proof (induction "unat (NumberU64 rem)" arbitrary: rem ad d i rule: less_induct)
  case less
  consider (same) "hd_Hash (bl_Header rem) = hd_Hash (bl_Header ad)"
    | (stop) "hd_Hash (bl_Header rem) \<noteq> hd_Hash (bl_Header ad)" "parent_block chain rem = None \<or> parent_block chain ad = None"
    | (go) rem' ad' where "hd_Hash (bl_Header rem) \<noteq> hd_Hash (bl_Header ad)" "parent_block chain rem = Some rem'" "parent_block chain ad = Some ad'"
    by fastforce
  then show ?case
  proof cases
    case same
    then have "walk_both chain rem ad d i = Some (Some (d @ branch_txs [], i @ branch_txs []))" by (subst walk_both.simps) simp
    then show ?thesis using same path_Nil by blast
  next
    case stop
    then have "walk_both chain rem ad d i = Some None" by (subst walk_both.simps) (auto split: option.splits)
    then show ?thesis by blast
  next
    case go
    let ?d = "d @ bl_Transactions rem" and ?i = "i @ bl_Transactions ad"
    have w: "walk_both chain rem ad d i = walk_both chain rem' ad' ?d ?i" using go by (subst walk_both.simps) simp
    have "unat (NumberU64 rem') < unat (NumberU64 rem)" using parent_number(1) [OF assms go(2)] by simp
    from less [OF this, of ad' ?d ?i] show ?thesis
    proof (elim disjE exE conjE)
      fix os ns anc anc'
      assume r: "walk_both chain rem' ad' ?d ?i = Some (Some (?d @ branch_txs os, ?i @ branch_txs ns))"
        "path chain rem' os anc" "path chain ad' ns anc'" "hd_Hash (bl_Header anc) = hd_Hash (bl_Header anc')"
      have "walk_both chain rem ad d i = Some (Some (d @ branch_txs (rem # os), i @ branch_txs (ad # ns)))" using w r(1) by simp
      then show ?thesis using path_Cons [OF go(2) r(2)] path_Cons [OF go(3) r(3)] r(4) by blast
    qed (use w in simp)
  qed
qed

lemma reinject_unfold:
  assumes "ch_GetBlock chain (hd_Hash old) (big_Uint64 (hd_Number old)) = Some rem"
    and "ch_GetBlock chain (hd_Hash new) (big_Uint64 (hd_Number new)) = Some ad" and "hd_Hash old \<noteq> hd_ParentHash new"
    and "\<bar>uint (big_Uint64 (hd_Number old)) - uint (big_Uint64 (hd_Number new))\<bar> \<le> 64"
  shows "reinject_txs keccak chain (Some old) new = do {
      r1 \<leftarrow> walk_down chain rem (NumberU64 ad) [];
      (case r1 of None \<Rightarrow> Some None
       | Some (discarded, rem1) \<Rightarrow> do {
           r2 \<leftarrow> walk_down chain ad (NumberU64 rem1) [];
           (case r2 of None \<Rightarrow> Some None
            | Some (included, ad1) \<Rightarrow> do {
                r3 \<leftarrow> walk_both chain rem1 ad1 discarded included;
                Some (map_option (\<lambda>(d, i). TxDifference keccak d i) r3) }) }) }"
  using assms by (simp add: reinject_txs_def Let_def)

lemma reinject_spec:
  assumes ok: "chain_ok chain" and rem: "ch_GetBlock chain (hd_Hash old) (big_Uint64 (hd_Number old)) = Some rem"
    and ad: "ch_GetBlock chain (hd_Hash new) (big_Uint64 (hd_Number new)) = Some ad" and side: "hd_Hash old \<noteq> hd_ParentHash new"
    and near: "\<bar>uint (big_Uint64 (hd_Number old)) - uint (big_Uint64 (hd_Number new))\<bar> \<le> 64"
  shows "reinject_txs keccak chain (Some old) new = Some None \<or>
    (\<exists>os ns anc anc'. reinject_txs keccak chain (Some old) new = Some (Some (TxDifference keccak (branch_txs os) (branch_txs ns))) \<and>
      path chain rem os anc \<and> path chain ad ns anc' \<and> hd_Hash (bl_Header anc) = hd_Hash (bl_Header anc'))"
proof -
  note e = reinject_unfold [OF rem ad side near, of keccak]
  consider (no1) "walk_down chain rem (NumberU64 ad) [] = Some None"
    | (w1) os1 rem1 where "walk_down chain rem (NumberU64 ad) [] = Some (Some (branch_txs os1, rem1))" "path chain rem os1 rem1"
    using walk_down_spec [OF ok, of rem "NumberU64 ad" "[]"] by auto
  then show ?thesis
  proof cases
    case no1
    then show ?thesis using e by simp
  next
    case w1
    consider (no2) "walk_down chain ad (NumberU64 rem1) [] = Some None"
      | (w2) ns1 ad1 where "walk_down chain ad (NumberU64 rem1) [] = Some (Some (branch_txs ns1, ad1))" "path chain ad ns1 ad1"
      using walk_down_spec [OF ok, of ad "NumberU64 rem1" "[]"] by auto
    then show ?thesis
    proof cases
      case no2
      then show ?thesis using e w1(1) by simp
    next
      case w2
      from walk_both_spec [OF ok, of rem1 ad1 "branch_txs os1" "branch_txs ns1"] show ?thesis
      proof (elim disjE exE conjE)
        fix os ns anc anc'
        assume w3: "walk_both chain rem1 ad1 (branch_txs os1) (branch_txs ns1) = Some (Some (branch_txs os1 @ branch_txs os, branch_txs ns1 @ branch_txs ns))"
          "path chain rem1 os anc" "path chain ad1 ns anc'" "hd_Hash (bl_Header anc) = hd_Hash (bl_Header anc')"
        have "reinject_txs keccak chain (Some old) new = Some (Some (TxDifference keccak (branch_txs (os1 @ os)) (branch_txs (ns1 @ ns))))"
          using e w1(1) w2(1) w3(1) by simp
        then show ?thesis using path_append [OF w1(2) w3(2)] path_append [OF w2(2) w3(3)] w3(4) by blast
      qed (use e w1 w2 in auto)
    qed
  qed
qed


text \<open>A common ancestor ends the loops.\<close>

definition stored :: "Chain \<Rightarrow> Block \<Rightarrow> bool" where
  "stored chain b \<longleftrightarrow> ch_GetBlock chain (hd_Hash (bl_Header b)) (NumberU64 b) = Some b"

lemma GetBlock_stored: "chain_ok chain \<Longrightarrow> ch_GetBlock chain h n = Some b \<Longrightarrow> stored chain b"
  by (auto simp: chain_ok_def stored_def)

lemma parent_stored: "chain_ok chain \<Longrightarrow> parent_block chain b = Some b' \<Longrightarrow> stored chain b'"
  by (simp add: parent_block_def GetBlock_stored)

lemma path_number: "path chain b bs b' \<Longrightarrow> chain_ok chain \<Longrightarrow> unat (NumberU64 b) = length bs + unat (NumberU64 b')"
  by (induction rule: path.induct) (auto simp: parent_number(1))

lemma path_stored: "path chain b bs b' \<Longrightarrow> chain_ok chain \<Longrightarrow> stored chain b \<Longrightarrow> stored chain b'"
  by (induction rule: path.induct) (auto simp: parent_stored)

lemma walk_down_to:
  assumes "path chain b bs anc" and "chain_ok chain" and "NumberU64 anc \<le> n"
  shows "\<exists>bs1 bs2 b'. walk_down chain b n txs = Some (Some (txs @ branch_txs bs1, b')) \<and> path chain b bs1 b' \<and> path chain b' bs2 anc \<and>
    NumberU64 b' = min n (NumberU64 b)"
  using assms
proof (induction arbitrary: txs rule: path.induct)
  case (path_Nil b)
  then have "walk_down chain b n txs = Some (Some (txs @ branch_txs [], b))" by (subst walk_down.simps) (simp add: leD)
  then show ?case using path_Nil path.path_Nil by (metis min.absorb2)
next
  case (path_Cons b b1 bs anc)
  show ?case
  proof (cases "n < NumberU64 b")
    case False
    then have "walk_down chain b n txs = Some (Some (txs @ branch_txs [], b))" by (subst walk_down.simps) simp
    then show ?thesis using False path.path_Nil path.path_Cons [OF path_Cons(1,2)] by (metis linorder_not_less min.absorb2)
  next
    case True
    have w: "walk_down chain b n txs = walk_down chain b1 n (txs @ bl_Transactions b)" using True path_Cons(1) by (subst walk_down.simps) simp
    have "n \<le> NumberU64 b1" using True parent_number(1) [OF path_Cons(4,1)] by (simp add: word_less_nat_alt word_le_nat_alt)
    then have m: "min n (NumberU64 b1) = min n (NumberU64 b)" using True by (simp add: min.absorb1 less_imp_le)
    obtain bs1 bs2 b' where r: "walk_down chain b1 n (txs @ bl_Transactions b) = Some (Some ((txs @ bl_Transactions b) @ branch_txs bs1, b'))"
        "path chain b1 bs1 b'" "path chain b' bs2 anc" "NumberU64 b' = min n (NumberU64 b1)"
      using path_Cons.IH [OF path_Cons(4,5)] by blast
    have "walk_down chain b n txs = Some (Some (txs @ branch_txs (b # bs1), b'))" using w r(1) by simp
    then show ?thesis using path.path_Cons [OF path_Cons(1) r(2)] r(3,4) m by metis
  qed
qed

lemma TxDifference_set:
  "tx \<in> set (TxDifference keccak a b) \<longleftrightarrow> tx \<in> set a \<and> tx_Hash keccak tx \<notin> tx_Hash keccak ` set b"
  by (simp add: TxDifference_def)

lemma walk_both_meet:
  assumes "chain_ok chain" and "stored chain rem" and "stored chain ad" and "NumberU64 rem = NumberU64 ad"
    and "path chain rem os anc" and "path chain ad ns anc"
  shows "\<exists>os1 ns1 c. walk_both chain rem ad d i = Some (Some (d @ branch_txs os1, i @ branch_txs ns1)) \<and> path chain rem os1 c \<and> path chain ad ns1 c"
  using assms(2-6)
proof (induction os arbitrary: rem ad ns d i)
  case Nil
  then have anc: "rem = anc" by (auto elim: path.cases)
  then have "ns = []" using path_number [OF Nil(5) assms(1)] Nil(3) by simp
  then have "ad = anc" using Nil(5) by (auto elim: path.cases)
  then have "walk_both chain rem ad d i = Some (Some (d @ branch_txs [], i @ branch_txs []))" using anc by (subst walk_both.simps) simp
  then show ?case using anc \<open>ad = anc\<close> path.path_Nil by blast
next
  case (Cons o' os)
  show ?case
  proof (cases "hd_Hash (bl_Header rem) = hd_Hash (bl_Header ad)")
    case True
    then have "rem = ad" using Cons.prems(1-3) by (simp add: stored_def)
    moreover have "walk_both chain rem ad d i = Some (Some (d @ branch_txs [], i @ branch_txs []))" using True by (subst walk_both.simps) simp
    ultimately show ?thesis using path.path_Nil by blast
  next
    case False
    obtain rem1 where rem1: "parent_block chain rem = Some rem1" "path chain rem1 os anc" using Cons.prems(4) by (auto elim: path.cases)
    have "ns \<noteq> []" using path_number [OF Cons.prems(4) assms(1)] path_number [OF Cons.prems(5) assms(1)] Cons.prems(3) by auto
    then obtain ad1 ns' where ad1: "parent_block chain ad = Some ad1" "path chain ad1 ns' anc" using Cons.prems(5) by (auto elim: path.cases)
    have n: "NumberU64 rem1 = NumberU64 ad1" using parent_number(2) [OF assms(1)] rem1(1) ad1(1) Cons.prems(3) by simp
    obtain os1 ns1 c where r: "walk_both chain rem1 ad1 (d @ bl_Transactions rem) (i @ bl_Transactions ad) =
        Some (Some ((d @ bl_Transactions rem) @ branch_txs os1, (i @ bl_Transactions ad) @ branch_txs ns1))" "path chain rem1 os1 c" "path chain ad1 ns1 c"
      using Cons.IH [OF parent_stored [OF assms(1) rem1(1)] parent_stored [OF assms(1) ad1(1)] n rem1(2) ad1(2)] by blast
    have "walk_both chain rem ad d i = Some (Some (d @ branch_txs (rem # os1), i @ branch_txs (ad # ns1)))"
      using False rem1(1) ad1(1) r(1) by (subst walk_both.simps) simp
    then show ?thesis using path.path_Cons [OF rem1(1) r(2)] path.path_Cons [OF ad1(1) r(3)] by blast
  qed
qed

definition head_known :: "Chain \<Rightarrow> Header \<Rightarrow> bool" where
  "head_known chain h \<longleftrightarrow> ch_GetBlock chain (hd_Hash h) (big_Uint64 (hd_Number h)) \<noteq> None"

text \<open>The heads a reset is asked for: the new one is in the chain, and missing only together with the old one.\<close>

fun reset_ok :: "Chain \<Rightarrow> Header option \<times> Header option \<Rightarrow> bool" where
  "reset_ok chain (old, None) \<longleftrightarrow> old = None"
| "reset_ok chain (old, Some new) \<longleftrightarrow> head_known chain new"

lemma reinject_returns:
  assumes ok: "chain_ok chain" and new: "head_known chain new"
  obtains r where "reinject_txs keccak chain old new = Some r" and "\<And>txs. r = Some txs \<Longrightarrow> list_all tx_wired txs"
proof -
  note concl = that
  obtain ad where ad: "ch_GetBlock chain (hd_Hash new) (big_Uint64 (hd_Number new)) = Some ad" using new by (auto simp: head_known_def)
  have trivial: thesis if "reinject_txs keccak chain old new = Some (Some [])" using concl that by simp
  consider "old = None" | o' where "old = Some o'" "hd_Hash o' = hd_ParentHash new"
    | o' where "old = Some o'" "hd_Hash o' \<noteq> hd_ParentHash new" "\<not> \<bar>uint (big_Uint64 (hd_Number o')) - uint (big_Uint64 (hd_Number new))\<bar> \<le> 64"
    | o' where "old = Some o'" "hd_Hash o' \<noteq> hd_ParentHash new" "\<bar>uint (big_Uint64 (hd_Number o')) - uint (big_Uint64 (hd_Number new))\<bar> \<le> 64"
    by (cases old) auto
  then show thesis
  proof cases
    case (4 o')
    show thesis
    proof (cases "ch_GetBlock chain (hd_Hash o') (big_Uint64 (hd_Number o'))")
      case None
      then have "reinject_txs keccak chain old new = Some None" using 4 by (simp add: reinject_txs_def Let_def)
      then show thesis using concl by blast
    next
      case (Some rem)
      have w: "list_all tx_wired (bl_Transactions rem)" using ok Some by (auto simp: chain_ok_def)
      from reinject_spec [OF ok Some ad 4(2,3), of keccak] show thesis
      proof (elim disjE exE conjE)
        fix os ns anc anc'
        assume r: "reinject_txs keccak chain (Some o') new = Some (Some (TxDifference keccak (branch_txs os) (branch_txs ns)))" "path chain rem os anc"
        have "list_all tx_wired (branch_txs os)" using path_wired [OF r(2) ok w] by simp
        then have "list_all tx_wired (TxDifference keccak (branch_txs os) (branch_txs ns))" by (auto simp: TxDifference_def list_all_iff)
        then show thesis using concl r(1) 4(1) by blast
      qed (use concl 4(1) in blast)
    qed
  qed (auto intro!: trivial simp: reinject_txs_def Let_def)
qed

text \<open>The pool works on the state \<open>st\<close> and the gas limit of the head.\<close>

definition on_head :: "Header \<Rightarrow> StateView \<Rightarrow> TxPool \<Rightarrow> bool" where
  "on_head head st p \<longleftrightarrow> tp_currentState p = st \<and> tp_currentMaxGas p = hd_GasLimit head"

lemma on_head_env: "env p' = env p \<Longrightarrow> on_head head st p' \<longleftrightarrow> on_head head st p"
  by (simp add: on_head_def env_def)

text \<open>
  The reset gets to the new head: no block on the way back to the common ancestor is missing, and the
  state of the new head is available. Otherwise \<open>reset\<close> returns early and leaves the pool on the old
  head.
\<close>

definition arrives :: "(bytes \<Rightarrow> bytes) \<Rightarrow> Chain \<Rightarrow> Header option \<Rightarrow> Header \<Rightarrow> StateView \<Rightarrow> bool" where
  "arrives keccak chain old new st \<longleftrightarrow> reinject_txs keccak chain old new \<noteq> Some None \<and> ch_StateAt chain (hd_Root new) = Some st"

lemma reset_state_spec:
  assumes ok: "pool_ok own keccak sender p" and keys: "keys_ok (tp_config p)" and txs: "list_all tx_wired txs"
  obtains p' where "reset_state keccak sha sender chain p head txs = Some p'" and "pool_ok own keccak sender p'" and "tp_config p' = tp_config p"
    and "pool_txs p' \<subseteq> pool_txs p \<union> set txs" and "\<And>st. ch_StateAt chain (hd_Root head) = Some st \<Longrightarrow> on_head head st p'"
proof (cases "ch_StateAt chain (hd_Root head)")
  case None
  then show thesis using that [of p] ok by (simp add: reset_state_def)
next
  case (Some st)
  let ?p = "p\<lparr>tp_currentState := st, tp_pendingNonces := newTxNoncer st, tp_currentMaxGas := hd_GasLimit head\<rparr>"
  have "pool_ok own keccak sender ?p" "keys_ok (tp_config ?p)" using ok keys by (simp_all add: pool_ok_def core_ok_def)
  from addTxsLocked_spec [OF this txs, of sha False] obtain errs dirty p1 where
    a: "addTxsLocked keccak sha sender ?p txs False = Some (errs, dirty, p1)" "pool_ok own keccak sender p1" "env p1 = env ?p"
    "pool_txs p1 \<subseteq> pool_txs ?p \<union> set txs" by blast
  let ?p' = "p1\<lparr>tp_istanbul := ch_IsIstanbul chain (hd_Number head + 1)\<rparr>"
  have "pool_ok own keccak sender ?p'" using a(2) by (simp add: pool_ok_def core_ok_def)
  moreover have "reset_state keccak sha sender chain p head txs = Some ?p'" using Some a(1) by (simp add: reset_state_def)
  moreover have "tp_config ?p' = tp_config p" "pool_txs ?p' \<subseteq> pool_txs p \<union> set txs" using a(3,4) by (simp_all add: env_def)
  moreover have "on_head head st' ?p'" if "ch_StateAt chain (hd_Root head) = Some st'" for st'
    using that Some a(3) by (simp add: on_head_def env_def)
  ultimately show thesis using that by blast
qed

lemma pool_reset_spec:
  assumes ok: "pool_ok own keccak sender p" and keys: "keys_ok (tp_config p)" and chain: "chain_ok chain" and heads: "reset_ok chain (old, new)"
  obtains p' where "pool_reset keccak sha sender chain p old new = Some p'" and "pool_ok own keccak sender p'" and "tp_config p' = tp_config p"
    and "\<And>head st. new = Some head \<Longrightarrow> arrives keccak chain old head st \<Longrightarrow> on_head head st p'"
proof (cases new)
  case None
  then have "pool_reset keccak sha sender chain p old new = reset_state keccak sha sender chain p (ch_CurrentHeader chain) []"
    using heads by (simp add: pool_reset_def)
  moreover obtain p' where "reset_state keccak sha sender chain p (ch_CurrentHeader chain) [] = Some p'" "pool_ok own keccak sender p'" "tp_config p' = tp_config p"
    by (rule reset_state_spec [OF ok keys, of "[]"]) (simp, rule that)
  ultimately show thesis using that None by simp
next
  case (Some h)
  then have "head_known chain h" using heads by simp
  obtain r where r: "reinject_txs keccak chain old h = Some r" "\<And>txs. r = Some txs \<Longrightarrow> list_all tx_wired txs"
    by (rule reinject_returns [OF chain \<open>head_known chain h\<close>]) (rule that)
  show thesis
  proof (cases r)
    case None
    then show thesis using ok r(1) Some by (intro that [of p]) (auto simp: pool_reset_def arrives_def)
  next
    case (Some txs)
    obtain p' where "reset_state keccak sha sender chain p h txs = Some p'" "pool_ok own keccak sender p'" "tp_config p' = tp_config p"
        "\<And>st. ch_StateAt chain (hd_Root h) = Some st \<Longrightarrow> on_head h st p'"
      by (rule reset_state_spec [OF ok keys r(2) [OF Some], where sha = sha and chain = chain and head = h]) (rule that)
    then show thesis using r(1) Some \<open>new = Some h\<close> by (intro that [of p']) (auto simp: pool_reset_def arrives_def)
  qed
qed

section \<open>The reorganisation run\<close>

lemma forward_events_spec:
  "list_all (\<lambda>(a, m). sm_ok m) evs \<Longrightarrow> \<exists>evs' nc. forward_events p evs = Some (evs', p\<lparr>tp_pendingNonces := nc\<rparr>)"
proof (induction evs arbitrary: p)
  case Nil
  then show ?case by (intro exI [of _ "[]"] exI [of _ "tp_pendingNonces p"]) simp
next
  case (Cons ev evs)
  obtain a m where ev: "ev = (a, m)" by fastforce
  let ?nc = "nc_get (tp_pendingNonces p) a"
  obtain rs m' where f: "sm_Forward m (fst ?nc) = Some (rs, m')" using sm_Forward_spec [of m "fst ?nc"] Cons.prems ev by auto
  obtain evs' nc where "forward_events (p\<lparr>tp_pendingNonces := snd ?nc\<rparr>) evs = Some (evs', p\<lparr>tp_pendingNonces := nc\<rparr>)"
    using Cons.IH [of "p\<lparr>tp_pendingNonces := snd ?nc\<rparr>"] Cons.prems by auto
  then show ?case using f ev by (simp add: case_prod_unfold) blast
qed

definition limits_ok :: "TxPoolConfig \<Rightarrow> bool" where
  "limits_ok cfg \<longleftrightarrow> 1 \<le> cfg_AccountSlots cfg \<and> 0 \<le> sint (cfg_AccountQueue cfg)"

lemma plen_card: "pool_ok own keccak sender p \<Longrightarrow> plen p a = card (of_acc sender a (listed (tp_pending p)))"
proof -
  assume "pool_ok own keccak sender p"
  then have A: "acc_ok sender True (tp_pending p)" using listsD(1) [OF pool_okD(2)] by blast
  show ?thesis
  proof (cases "map_of (tp_pending p) a")
    case None
    then show ?thesis using acc_lookup_None [OF A None] by (simp add: plen_def)
  next
    case (Some l)
    then show ?thesis using acc_lookup [OF A Some] distinct_card [OF distinct_txs_of, of l] by (simp add: plen_Some)
  qed
qed

lemma count_pending: "pool_ok own keccak sender p \<Longrightarrow> count_txs (tp_pending p) = of_nat (card (listed (tp_pending p)))"
  using card_listed [OF listsD(1) [OF pool_okD(2)]] by (simp add: count_txs_sum)

text \<open>The part of the run before promotion: the reset, if one is asked for, and the accounts to promote.\<close>

lemma reorg_head_spec:
  assumes ok: "pool_ok own keccak sender p" and keys: "keys_ok (tp_config p)" and chain: "chain_ok chain"
    and req: "\<And>h. req = Some h \<Longrightarrow> reset_ok chain h" and evs: "list_all (\<lambda>(a, m). sm_ok m) evs"
  obtains evs1 addrs p1 where "(case req of None \<Rightarrow> Some (evs, dirty, p)
      | Some (oldHead, newHead) \<Rightarrow> do {
          q \<leftarrow> pool_reset keccak sha sender chain p oldHead newHead;
          (evs1, q1) \<leftarrow> forward_events q evs;
          Some (evs1, map fst (tp_queue q1), q1) }) = Some (evs1, addrs, p1)"
    and "pool_ok own keccak sender p1" and "tp_config p1 = tp_config p"
    and "\<And>old head st. req = Some (old, Some head) \<Longrightarrow> arrives keccak chain old head st \<Longrightarrow> on_head head st p1"
proof (cases req)
  case None
  then show thesis using that ok by simp
next
  case (Some h)
  obtain old new where h: "h = (old, new)" by fastforce
  obtain q where q: "pool_reset keccak sha sender chain p old new = Some q" "pool_ok own keccak sender q" "tp_config q = tp_config p"
      "\<And>head st. new = Some head \<Longrightarrow> arrives keccak chain old head st \<Longrightarrow> on_head head st q"
    by (rule pool_reset_spec [where sha = sha, OF ok keys chain, of old new]) (use req [OF Some] h in simp, rule that)
  obtain evs1 nc where f: "forward_events q evs = Some (evs1, q\<lparr>tp_pendingNonces := nc\<rparr>)" using forward_events_spec [OF evs] by blast
  have "pool_ok own keccak sender (q\<lparr>tp_pendingNonces := nc\<rparr>)" using q(2) by (simp add: pool_ok_def core_ok_def)
  then show thesis using q f Some h by (intro that [of evs1 "map fst (tp_queue q)" "q\<lparr>tp_pendingNonces := nc\<rparr>"]) (auto simp: on_head_def)
qed

text \<open>What a run leaves behind.\<close>

definition within_limits :: "sender \<Rightarrow> TxPool \<Rightarrow> bool" where
  "within_limits sender p \<longleftrightarrow>
     (count_txs (tp_pending p) \<le> cfg_GlobalSlots (tp_config p) \<or>
      (\<forall>a. a \<notin> tp_locals p \<longrightarrow> plen p a \<le> unat (cfg_AccountSlots (tp_config p)))) \<and>
     (count_txs (tp_queue p) \<le> cfg_GlobalQueue (tp_config p) \<or>
      (\<forall>a. a \<notin> tp_locals p \<longrightarrow> of_acc sender a (listed (tp_queue p)) = {}))"

definition nonces_follow :: "TxPool \<Rightarrow> bool" where
  "nonces_follow p \<longleftrightarrow> (\<forall>a l. map_of (tp_pending p) a = Some l \<longrightarrow>
     fst (nc_get (tp_pendingNonces p) a) = tx_Nonce (List.last (txs_of l)) + 1)"

text \<open>The end of the run: the two truncations and the update of the nonces.\<close>

lemma reorg_tail_spec:
  assumes ok: "pool_ok own keccak sender p" and slots: "1 \<le> cfg_AccountSlots (tp_config p)"
  obtains p4 p5 p6 where "truncatePending keccak p = Some p4" and "truncateQueue keccak sender p4 = Some p5"
    and "update_nonces p5 (tp_pending p5) = Some p6" and "pool_ok own keccak sender p6" and "env p6 = env p" and "within_limits sender p6"
    and "nonces_follow p6" and "pool_txs p6 \<subseteq> pool_txs p"
    and "\<And>st g a. executable sender st g (listed (tp_pending p)) a \<Longrightarrow> executable sender st g (listed (tp_pending p6)) a"
proof -
  obtain p4 where p4: "truncatePending keccak p = Some p4" "trimmed own keccak sender p p4"
      "count_txs (tp_pending p4) \<le> cfg_GlobalSlots (tp_config p) \<or> (\<forall>a. a \<notin> tp_locals p \<longrightarrow> plen p4 a \<le> unat (cfg_AccountSlots (tp_config p)))"
    by (rule truncatePending_spec [OF ok slots]) (rule that)
  note T = trimmedD [OF p4(2)]
  obtain X p5 where p5: "truncateQueue keccak sender p4 = Some p5" "dequeued own keccak sender p4 X p5"
      "count_txs (tp_queue p5) \<le> cfg_GlobalQueue (tp_config p4) \<or> (\<forall>a. a \<notin> tp_locals p4 \<longrightarrow> of_acc sender a (listed (tp_queue p5)) = {})"
    by (rule truncateQueue_spec [OF T(1)]) (rule that)
  note D = dequeuedD [OF p5(2)]
  have dist: "distinct (map fst (tp_pending p5))" using listsD(1) [OF pool_okD(2) [OF D(1)]] by (simp add: acc_ok_def)
  obtain p6 where p6: "update_nonces p5 (tp_pending p5) = Some p6" "pool_ok own keccak sender p6" "env p6 = env p5" "tp_locals p6 = tp_locals p5"
      "listed (tp_pending p6) = listed (tp_pending p5)" "tp_queue p6 = tp_queue p5"
      "\<forall>a. (\<lambda>l. txs_of l) ` set_option (map_of (tp_pending p6) a) = (\<lambda>l. txs_of l) ` set_option (map_of (tp_pending p5) a)"
      "\<forall>a. map_of (nc_nonces (tp_pendingNonces p6)) a = (case map_of (tp_pending p5) a of None \<Rightarrow> map_of (nc_nonces (tp_pendingNonces p5)) a
        | Some l \<Rightarrow> Some (tx_Nonce (List.last (txs_of l)) + 1))"
    using update_nonces_spec [OF D(1) dist] map_of_is_SomeI [OF dist] by blast
  have env: "env p6 = env p" using p6(3) D(2) T(2) by simp
  then have cfg: "tp_config p6 = tp_config p" "tp_config p4 = tp_config p" using T(2) by (simp_all add: env_def)
  have loc: "tp_locals p6 = tp_locals p" using p6(4) D(3) T(3) by simp
  have pend: "listed (tp_pending p6) = listed (tp_pending p4)" using p6(5) D(4) by simp
  have "count_txs (tp_pending p6) = count_txs (tp_pending p4)" using pend count_pending [OF T(1)] count_pending [OF p6(2)] by simp
  moreover have "plen p6 a = plen p4 a" for a using plen_card [OF p6(2)] plen_card [OF T(1)] pend by simp
  ultimately have lim: "within_limits sender p6" using p4(3) p5(3) cfg loc T(3) p6(6) by (simp add: within_limits_def)
  have "nonces_follow p6" unfolding nonces_follow_def
  proof (intro allI impI)
    fix a l
    assume l: "map_of (tp_pending p6) a = Some l"
    have "txs_of ` set_option (map_of (tp_pending p5) a) = {txs_of l}" using p6(7) [rule_format, of a] l by simp
    then obtain l5 where "map_of (tp_pending p5) a = Some l5" "txs_of l5 = txs_of l" by (cases "map_of (tp_pending p5) a") auto
    then show "fst (nc_get (tp_pendingNonces p6) a) = tx_Nonce (List.last (txs_of l)) + 1" using p6(8) by (simp add: nc_get_def)
  qed
  moreover have "pool_txs p6 \<subseteq> pool_txs p" using pend T(4,5) p6(6) D(5) by auto
  moreover have "executable sender st g (listed (tp_pending p6)) a" if "executable sender st g (listed (tp_pending p)) a" for st g a
    using trimmed_executable [OF p4(2) that] pend by simp
  ultimately show thesis using that p4(1) p5(1) p6(1,2) env lim by blast
qed

lemma runReorg_spec:
  assumes ok: "pool_ok own keccak sender p" and keys: "keys_ok (tp_config p)" and lim: "limits_ok (tp_config p)" and chain: "chain_ok chain"
    and req: "\<And>h. req = Some h \<Longrightarrow> reset_ok chain h" and evs: "list_all (\<lambda>(a, m). sm_ok m) evs"
  obtains txs p' where "runReorg keccak sha sender chain now p req dirty evs = Some (txs, p')" and "pool_ok own keccak sender p'"
    and "tp_config p' = tp_config p" and "within_limits sender p'" and "nonces_follow p'"
    and "\<And>a. req \<noteq> None \<Longrightarrow> executable sender (tp_currentState p') (tp_currentMaxGas p') (listed (tp_pending p')) a"
    and "\<And>old head st. req = Some (old, Some head) \<Longrightarrow> arrives keccak chain old head st \<Longrightarrow> on_head head st p'"
proof -
  obtain evs1 addrs p1 where p1: "(case req of None \<Rightarrow> Some (evs, dirty, p)
      | Some (oldHead, newHead) \<Rightarrow> do {
          q \<leftarrow> pool_reset keccak sha sender chain p oldHead newHead;
          (evs1, q1) \<leftarrow> forward_events q evs;
          Some (evs1, map fst (tp_queue q1), q1) }) = Some (evs1, addrs, p1)" "pool_ok own keccak sender p1" "tp_config p1 = tp_config p"
      "\<And>old head st. req = Some (old, Some head) \<Longrightarrow> arrives keccak chain old head st \<Longrightarrow> on_head head st p1"
    by (rule reorg_head_spec [where sha = sha, OF ok keys chain req evs]) (assumption, rule that)
  have "0 \<le> sint (cfg_AccountQueue (tp_config p1))" using lim p1(3) by (simp add: limits_ok_def)
  from promoteExecutables_spec [OF p1(2) this, of now addrs] obtain rs p2 where
    p2: "promoteExecutables keccak now p1 addrs = Some (rs, p2)" "pool_ok own keccak sender p2" "env p2 = env p1" by blast
  have "\<exists>p3. (if req \<noteq> None then demoteUnexecutables keccak sender p2 else Some p2) = Some p3 \<and> pool_ok own keccak sender p3 \<and> env p3 = env p2 \<and>
      (\<forall>a. req \<noteq> None \<longrightarrow> executable sender (tp_currentState p2) (tp_currentMaxGas p2) (listed (tp_pending p3)) a)"
    using p2(2) demoteUnexecutables_spec [OF p2(2)] by (cases "req = None") (simp, metis (no_types))
  then obtain p3 where p3: "(if req \<noteq> None then demoteUnexecutables keccak sender p2 else Some p2) = Some p3" "pool_ok own keccak sender p3" "env p3 = env p2"
      "\<forall>a. req \<noteq> None \<longrightarrow> executable sender (tp_currentState p2) (tp_currentMaxGas p2) (listed (tp_pending p3)) a" by blast
  have "1 \<le> cfg_AccountSlots (tp_config p3)" using lim p1(3) p2(3) p3(3) by (simp add: limits_ok_def env_def)
  then obtain p4 p5 p6 where t: "truncatePending keccak p3 = Some p4" "truncateQueue keccak sender p4 = Some p5"
      "update_nonces p5 (tp_pending p5) = Some p6" "pool_ok own keccak sender p6" "env p6 = env p3" "within_limits sender p6" "nonces_follow p6"
      "\<And>st g a. executable sender st g (listed (tp_pending p3)) a \<Longrightarrow> executable sender st g (listed (tp_pending p6)) a"
    by (rule reorg_tail_spec [OF p3(2)]) (rule that)
  obtain out where "runReorg keccak sha sender chain now p req dirty evs = Some (out, p6)"
    using p1(1) p2(1) p3(1) t(1-3) unfolding runReorg_def by (simp add: Let_def)
  moreover have "tp_config p6 = tp_config p" "tp_currentState p6 = tp_currentState p2" "tp_currentMaxGas p6 = tp_currentMaxGas p2"
    using t(5) p3(3) p2(3) p1(3) by (simp_all add: env_def)
  moreover have "on_head head st p6" if "req = Some (old, Some head)" "arrives keccak chain old head st" for old head st
    using p1(4) [OF that] on_head_env [of p6 p1] t(5) p3(3) p2(3) by simp
  ultimately show thesis using that [of out p6] t(4,6-8) p3(4) by simp
qed

section \<open>Reachable pools\<close>

lemma flatten_accounts_ok:
  assumes "acc_ok sender b m"
  shows "acc_ok sender b (snd (flatten_accounts m))" and "listed (snd (flatten_accounts m)) = listed m"
proof -
  let ?f = "\<lambda>(a, l). (a, snd (tl_Flatten l))"
  have F: "tl_ok (snd (tl_Flatten l)) \<and> tl_strict (snd (tl_Flatten l)) = tl_strict l \<and> txs_of (snd (tl_Flatten l)) = txs_of l" if "(a, l) \<in> set m" for a l
  proof -
    have "tl_ok l" and e: "tl_Flatten l = (fst (tl_Flatten l), snd (tl_Flatten l))" using assms that by (auto simp: acc_ok_def)
    then show ?thesis using tl_Flatten_spec [OF _ e] by blast
  qed
  have fst: "map fst (map ?f m) = map fst m" by (auto intro: map_idI)
  have s: "snd (flatten_accounts m) = map ?f m" by (simp add: flatten_accounts_def)
  show "acc_ok sender b (snd (flatten_accounts m))" unfolding s acc_ok_def fst using assms F by (force simp: acc_ok_def)
  show "listed (snd (flatten_accounts m)) = listed m" unfolding s listed_def using F by force
qed

lemma pool_Pending_ok:
  assumes "pool_ok own keccak sender p"
  shows "pool_ok own keccak sender (snd (pool_Pending p))" and "tp_config (snd (pool_Pending p)) = tp_config p"
  using assms flatten_accounts_ok [of sender True "tp_pending p"] listsD(1,2) [OF pool_okD(2) [OF assms]]
  by (simp_all add: pool_Pending_def pool_ok_def core_ok_def lists_ok_def case_prod_unfold Let_def)

lemma pool_Content_ok:
  assumes "pool_ok own keccak sender p"
  shows "pool_ok own keccak sender (snd (pool_Content p))" and "tp_config (snd (pool_Content p)) = tp_config p"
  using assms flatten_accounts_ok [of sender True "tp_pending p"] flatten_accounts_ok [of sender False "tp_queue p"]
    listsD(1,2) [OF pool_okD(2) [OF assms]]
  by (simp_all add: pool_Content_def pool_ok_def core_ok_def lists_ok_def case_prod_unfold Let_def)

text \<open>The operations that other parts of the node call, one at a time under the pool's lock.\<close>

inductive pool_step :: "(bytes \<Rightarrow> bytes) \<Rightarrow> (bytes \<Rightarrow> bytes) \<Rightarrow> sender \<Rightarrow> TxPool \<Rightarrow> TxPool \<Rightarrow> bool" for keccak sha sender where
  step_addTxs: "list_all tx_wired txs \<Longrightarrow> addTxs keccak sha sender p txs local = Some (errs, dirty, p') \<Longrightarrow> pool_step keccak sha sender p p'"
| step_runReorg: "chain_ok chain \<Longrightarrow> (\<And>h. req = Some h \<Longrightarrow> reset_ok chain h) \<Longrightarrow> list_all (\<lambda>(a, m). sm_ok m) evs \<Longrightarrow>
    runReorg keccak sha sender chain now p req dirty evs = Some (txs, p') \<Longrightarrow> pool_step keccak sha sender p p'"
| step_SetGasPrice: "SetGasPrice keccak sender p price = Some p' \<Longrightarrow> pool_step keccak sha sender p p'"
| step_evict: "evict_tick keccak sender now p = Some p' \<Longrightarrow> pool_step keccak sha sender p p'"
| step_Nonce: "pool_step keccak sha sender p (snd (pool_Nonce p a))"
| step_Pending: "pool_step keccak sha sender p (snd (pool_Pending p))"
| step_Content: "pool_step keccak sha sender p (snd (pool_Content p))"

definition system_ok :: "bytes set \<Rightarrow> (bytes \<Rightarrow> bytes) \<Rightarrow> sender \<Rightarrow> TxPool \<Rightarrow> bool" where
  "system_ok own keccak sender p \<longleftrightarrow> pool_ok own keccak sender p \<and> keys_ok (tp_config p) \<and> limits_ok (tp_config p)"

lemma addTxs_spec:
  assumes ok: "pool_ok own keccak sender p" and keys: "keys_ok (tp_config p)" and txs: "list_all tx_wired txs"
  obtains errs dirty p' where "addTxs keccak sha sender p txs local = Some (errs, dirty, p')" and "pool_ok own keccak sender p'"
    and "env p' = env p"
proof -
  let ?new = "[tx \<leftarrow> txs. lk_Get (tp_all p) (tx_Hash keccak tx) = None]"
  have "list_all tx_wired ?new" using txs by (auto simp: list_all_iff)
  then obtain newErrs dirty p' where a: "addTxsLocked keccak sha sender p ?new local = Some (newErrs, dirty, p')"
      "pool_ok own keccak sender p'" "env p' = env p" "length newErrs = length ?new"
    using addTxsLocked_spec [OF ok keys, of ?new] by blast
  then show thesis using that [OF addTxs_unfold [OF a(1,4)]] by blast
qed

lemma pool_step_ok:
  assumes "pool_step keccak sha sender p p'" and "system_ok own keccak sender p"
  shows "system_ok own keccak sender p'"
  using assms
proof (induction rule: pool_step.induct)
  case (step_addTxs txs p local errs dirty p')
  then have ok: "pool_ok own keccak sender p" "keys_ok (tp_config p)" by (auto simp: system_ok_def)
  show ?case by (rule addTxs_spec [OF ok step_addTxs(1), of sha local]) (use step_addTxs in \<open>auto simp: system_ok_def env_def\<close>)
next
  case (step_runReorg chain req evs now p dirty txs p')
  then have ok: "pool_ok own keccak sender p" "keys_ok (tp_config p)" "limits_ok (tp_config p)" by (auto simp: system_ok_def)
  show ?case
    by (rule runReorg_spec [where req = req and sha = sha and now = now and dirty = dirty, OF ok step_runReorg(1) _ step_runReorg(3)])
      (use step_runReorg(2,4,5) in \<open>auto simp: system_ok_def\<close>)
next
  case (step_SetGasPrice p price p')
  then have ok: "pool_ok own keccak sender p" by (simp add: system_ok_def)
  show ?case by (rule SetGasPrice_spec [OF ok, of price]) (use step_SetGasPrice in \<open>auto simp: system_ok_def\<close>)
next
  case (step_evict now p p')
  then have ok: "pool_ok own keccak sender p" by (simp add: system_ok_def)
  show ?case
    by (rule evict_tick_spec [OF ok, of now]) (use step_evict in \<open>auto simp: system_ok_def dequeued_def env_def\<close>)
next
  case (step_Nonce p a)
  then show ?case by (simp add: system_ok_def pool_Nonce_def case_prod_unfold Let_def pool_ok_def core_ok_def)
next
  case (step_Pending p)
  then show ?case using pool_Pending_ok [of own keccak sender p] by (simp add: system_ok_def)
next
  case (step_Content p)
  then show ?case using pool_Content_ok [of own keccak sender p] by (simp add: system_ok_def)
qed

lemma set_if:
  "(if b then r\<lparr>cfg_Rejournal := i\<rparr> else r) = r\<lparr>cfg_Rejournal := if b then i else cfg_Rejournal r\<rparr>"
  "(if b then r\<lparr>cfg_PriceLimit := w\<rparr> else r) = r\<lparr>cfg_PriceLimit := if b then w else cfg_PriceLimit r\<rparr>"
  "(if b then r\<lparr>cfg_PriceBump := w\<rparr> else r) = r\<lparr>cfg_PriceBump := if b then w else cfg_PriceBump r\<rparr>"
  "(if b then r\<lparr>cfg_AccountSlots := w\<rparr> else r) = r\<lparr>cfg_AccountSlots := if b then w else cfg_AccountSlots r\<rparr>"
  "(if b then r\<lparr>cfg_GlobalSlots := w\<rparr> else r) = r\<lparr>cfg_GlobalSlots := if b then w else cfg_GlobalSlots r\<rparr>"
  "(if b then r\<lparr>cfg_AccountQueue := w\<rparr> else r) = r\<lparr>cfg_AccountQueue := if b then w else cfg_AccountQueue r\<rparr>"
  "(if b then r\<lparr>cfg_GlobalQueue := w\<rparr> else r) = r\<lparr>cfg_GlobalQueue := if b then w else cfg_GlobalQueue r\<rparr>"
  "(if b then r\<lparr>cfg_Lifetime := i\<rparr> else r) = r\<lparr>cfg_Lifetime := if b then i else cfg_Lifetime r\<rparr>"
  by simp_all

lemma sanitize_eq:
  "sanitize c = c\<lparr>cfg_Rejournal := if cfg_Rejournal c < 10 ^ 9 then 10 ^ 9 else cfg_Rejournal c,
     cfg_PriceLimit := if cfg_PriceLimit c < 1 then 1 else cfg_PriceLimit c,
     cfg_PriceBump := if cfg_PriceBump c < 1 then 10 else cfg_PriceBump c,
     cfg_AccountSlots := if cfg_AccountSlots c < 1 then 16 else cfg_AccountSlots c,
     cfg_GlobalSlots := if cfg_GlobalSlots c < 1 then 4096 else cfg_GlobalSlots c,
     cfg_AccountQueue := if cfg_AccountQueue c < 1 then 64 else cfg_AccountQueue c,
     cfg_GlobalQueue := if cfg_GlobalQueue c < 1 then 1024 else cfg_GlobalQueue c,
     cfg_Lifetime := if cfg_Lifetime c < 1 then 3 * 3600 * 10 ^ 9 else cfg_Lifetime c\<rparr>"
  unfolding sanitize_def Let_def set_if by (simp add: DefaultTxPoolConfig_def)

lemma u64_ge_one: "(w :: u64) \<noteq> 0 \<Longrightarrow> 1 \<le> w"
  by (simp add: word_le_nat_alt Suc_le_eq unat_gt_0)

lemma NewTxPool_spec:
  assumes chain: "chain_ok chain" "head_known chain (ch_CurrentHeader chain)" and keys: "keys_ok config"
    and queue: "0 \<le> sint (cfg_AccountQueue config)" and db: "cmdb_ok db"
  obtains p where "NewTxPool keccak sha sender chain nostate config db = Some p" and "system_ok own keccak sender p"
proof -
  let ?p0 = "\<lparr>tp_config = sanitize config, tp_gasPrice = uint (cfg_PriceLimit (sanitize config)), tp_istanbul = False,
      tp_currentState = nostate, tp_pendingNonces = newTxNoncer nostate, tp_currentMaxGas = 0,
      tp_locals = set (cfg_Locals (sanitize config)), tp_pending = [], tp_queue = [], tp_beats = [],
      tp_all = newTxLookup, tp_priced = newTxPricedList, tp_CMdb = db\<rparr>"
  have ok: "pool_ok own keccak sender ?p0"
    using db by (simp add: pool_ok_def core_ok_def lists_ok_def books_ok_def claims_ok_def priced_ok_def newTxLookup_def newTxPricedList_def is_heap_def pairs_def)
  have keys': "keys_ok (tp_config ?p0)" using keys by (simp add: keys_ok_def sanitize_eq)
  have "1 \<le> cfg_AccountSlots (sanitize config)" using u64_ge_one [of "cfg_AccountSlots config"] by (simp add: sanitize_eq)
  moreover have "0 \<le> sint (cfg_AccountQueue (sanitize config))" using queue by (simp add: sanitize_eq)
  ultimately have lim: "limits_ok (sanitize config)" by (simp add: limits_ok_def)
  obtain p where "pool_reset keccak sha sender chain ?p0 None (Some (ch_CurrentHeader chain)) = Some p" "pool_ok own keccak sender p"
      "tp_config p = tp_config ?p0"
    by (rule pool_reset_spec [OF ok keys' chain(1), of None "Some (ch_CurrentHeader chain)"]) (use chain(2) in simp, rule that)
  then show thesis using that [of p] keys' lim by (simp add: NewTxPool_def Let_def system_ok_def)
qed

text \<open>
  The coins that pooled transactions claim, and those that the transactions of a block write.
\<close>

definition claimed :: "(bytes \<Rightarrow> bytes) \<Rightarrow> TxPool \<Rightarrow> bytes set" where
  "claimed keccak p = {h. \<exists>tx \<in> pool_txs p. claim_of keccak tx = Some h}"

definition written :: "(bytes \<Rightarrow> bytes) \<Rightarrow> Transaction list \<Rightarrow> bytes set" where
  "written keccak block = {h. \<exists>t \<in> set block. h \<in> outputs_of keccak t \<or> claim_of keccak t = Some h}"

text \<open>
  The runs of a node: a new pool, the operations of the pool, and the import of blocks, which writes
  the commitment database that the pool shares with the chain (\<open>writeBlockWithState\<close> of
  \<open>core/blockchain.go\<close>). Any block can come: one with transactions of the pool, which the next reset
  takes out, one of a side chain, one with a competing purchase. The second component of the state
  collects the coins that a block wrote while a pooled transaction claimed them, until none claims
  them any more. The limit of the queue must be below \<open>2**63\<close>, which \<open>sanitize\<close> does not check.
\<close>

inductive pool_run :: "(bytes \<Rightarrow> bytes) \<Rightarrow> (bytes \<Rightarrow> bytes) \<Rightarrow> sender \<Rightarrow> TxPool \<Rightarrow> bytes set \<Rightarrow> bool" for keccak sha sender where
  run_new: "chain_ok chain \<Longrightarrow> head_known chain (ch_CurrentHeader chain) \<Longrightarrow> keys_ok config \<Longrightarrow> 0 \<le> sint (cfg_AccountQueue config) \<Longrightarrow>
    cmdb_ok db \<Longrightarrow> NewTxPool keccak sha sender chain nostate config db = Some p \<Longrightarrow> pool_run keccak sha sender p {}"
| run_step: "pool_run keccak sha sender p D \<Longrightarrow> pool_step keccak sha sender p p' \<Longrightarrow> pool_run keccak sha sender p' (D \<inter> claimed keccak p')"
| run_block: "pool_run keccak sha sender p D \<Longrightarrow> list_all tx_fits block \<Longrightarrow> WriteAllCM keccak (tp_CMdb p) block = Some db \<Longrightarrow>
    pool_run keccak sha sender (p\<lparr>tp_CMdb := db\<rparr>) (D \<union> claimed keccak p \<inter> written keccak block)"

definition reachable :: "(bytes \<Rightarrow> bytes) \<Rightarrow> (bytes \<Rightarrow> bytes) \<Rightarrow> sender \<Rightarrow> TxPool \<Rightarrow> bool" where
  "reachable keccak sha sender p \<longleftrightarrow> (\<exists>D. pool_run keccak sha sender p D)"

lemma mine_unwritten: "h \<notin> written keccak block \<Longrightarrow> fold (\<lambda>tx L. mine_tx keccak L tx) block L h = L h"
  by (induction block arbitrary: L) (auto simp: mine_tx_def written_def)

lemma claims_ok_more:
  assumes "claims_ok own keccak db (pool_txs p)" and "own' \<inter> claimed keccak p \<subseteq> own"
  shows "claims_ok own' keccak db (pool_txs p)"
  using assms unfolding claims_ok_def claimed_def by blast

lemma system_ok_more:
  assumes "system_ok own keccak sender p" and "own' \<inter> claimed keccak p \<subseteq> own"
  shows "system_ok own' keccak sender p"
  using assms claims_ok_more [OF _ assms(2)] by (simp add: system_ok_def pool_ok_def core_ok_def books_ok_def)

lemma import_ok:
  assumes "system_ok own keccak sender p" and "list_all tx_fits block" and "WriteAllCM keccak (tp_CMdb p) block = Some db"
    and "own \<inter> claimed keccak p \<inter> written keccak block = {}"
  shows "system_ok own keccak sender (p\<lparr>tp_CMdb := db\<rparr>)"
proof -
  have B: "books_ok own keccak (tp_all p) (tp_CMdb p) (pool_txs p)" using assms(1) pool_okD(3) by (auto simp: system_ok_def)
  have d: "cmdb_ok db" "coins db = fold (\<lambda>tx L. mine_tx keccak L tx) block (coins (tp_CMdb p))"
    using WriteAllCM_coins [OF assms(2) booksD(5) [OF B], of keccak] assms(3) by auto
  have "coins db h = coins (tp_CMdb p) h" if "h \<in> own" "x \<in> pool_txs p" "claim_of keccak x = Some h" for x h
  proof -
    have "h \<notin> written keccak block" using assms(4) that by (auto simp: claimed_def)
    then show ?thesis unfolding d(2) by (rule mine_unwritten)
  qed
  then have "books_ok own keccak (tp_all p) db (pool_txs p)" by (rule books_db_other [OF B d(1)])
  then show ?thesis using assms(1) by (simp add: system_ok_def pool_ok_def core_ok_def)
qed

lemma pool_run_ok: "pool_run keccak sha sender p D \<Longrightarrow> system_ok (- D) keccak sender p"
proof (induction rule: pool_run.induct)
  case (run_new chain config db nostate p)
  obtain p0 where "NewTxPool keccak sha sender chain nostate config db = Some p0" "system_ok (- {}) keccak sender p0"
    by (rule NewTxPool_spec [OF run_new(1-5)])
  then show ?case using run_new(6) by simp
next
  case (run_step p D p')
  have "system_ok (- D) keccak sender p'" using pool_step_ok run_step(2,3) by blast
  then show ?case by (rule system_ok_more) blast
next
  case (run_block p D block db)
  have "system_ok (- (D \<union> claimed keccak p \<inter> written keccak block)) keccak sender p" using run_block(4) by (rule system_ok_more) blast
  then show ?case by (rule import_ok [OF _ run_block(2,3)]) blast
qed

lemma reachable_ok: "reachable keccak sha sender p \<Longrightarrow> system_ok {} keccak sender p"
  unfolding reachable_def using pool_run_ok system_ok_more by blast

end
