(* ===== verification/Pool_Props.thy ===== *)
theory Pool_Props
  imports Pool_Run
begin

text \<open>
  The properties of the transaction pool, and a small chain and pool on which they are exercised.
\<close>

section \<open>An example\<close>

definition ex_data :: "u64 \<Rightarrow> u8 \<Rightarrow> txdata" where
  "ex_data n v = blank_data\<lparr>td_ID := 1, td_AccountNonce := n, td_CmV := Some [v]\<rparr>"

definition ex_tx :: "u64 \<Rightarrow> u8 \<Rightarrow> Transaction" where
  "ex_tx n v = Tx (wire (ex_data n v))"

definition ex_pool_key :: PublicKey where
  "ex_pool_key = \<lparr>pk_G1 = 4, pk_G2 = 9, pk_P = 23, pk_H = 2\<rparr>"

definition ex_sender :: sender where
  "ex_sender tx = Some [1]"

definition ex_header :: "u8 \<Rightarrow> int \<Rightarrow> Header" where
  "ex_header h n = \<lparr>hd_Hash = [h], hd_ParentHash = [0], hd_Number = n, hd_Root = [], hd_GasLimit = 1000000\<rparr>"

definition ex_block :: "u8 \<Rightarrow> int \<Rightarrow> Transaction list \<Rightarrow> Block" where
  "ex_block h n txs = \<lparr>bl_Header = ex_header h n, bl_Transactions = txs\<rparr>"

definition ex_state :: StateView where
  "ex_state = \<lparr>st_GetNonce = (\<lambda>_. 0), st_GetBalance = (\<lambda>_. 0)\<rparr>"

text \<open>The genesis block and two blocks on top of it; the second is the head.\<close>

definition ex_chain :: Chain where
  "ex_chain = \<lparr>ch_GetBlock = (\<lambda>h n. if h = [0] \<and> n = 0 then Some (ex_block 0 0 [])
       else if h = [1] \<and> n = 1 then Some (ex_block 1 1 [ex_tx 0 5])
       else if h = [2] \<and> n = 1 then Some (ex_block 2 1 []) else None),
     ch_CurrentHeader = ex_header 2 1, ch_StateAt = (\<lambda>_. Some ex_state), ch_IsIstanbul = (\<lambda>_. True)\<rparr>"

lemma fill_fill [simp]: "fill (fill h) = fill h"
  by (simp add: fill_def)

lemma wire_wire: "wire (wire d) = wire d"
  by (simp add: wire_def)

lemma ex_data_ok:
  "tx_ok (ex_data n v)" "length (rlp_enc (txdata_val (ex_data 0 5))) = 70" "length (rlp_enc (txdata_val (ex_data 1 6))) = 70"
  by (simp_all add: ex_data_def blank_data_def txdata_of_def tx_ok_def txdata_val_def rlp_enc_hex_None hex_val_def enc_list_def enc_string_def
      rlp_head_def be_bytes.simps)

lemma ex_tx_fields [simp]:
  "tx_ID (ex_tx n v) = 1" "tx_CmV (ex_tx n v) = Some [v]" "tx_Nonce (ex_tx n v) = n" "tx_Value (ex_tx n v) = 0" "tx_Gas (ex_tx n v) = 0"
  "tx_CmO (ex_tx n v) = Some []" "tx_CmS (ex_tx n v) = Some []" "tx_CmR (ex_tx n v) = Some []"
  "tx_SigM (ex_tx n v) = Some []" "tx_SigMHash (ex_tx n v) = Some []" "tx_SigR (ex_tx n v) = Some []" "tx_SigS (ex_tx n v) = Some []"
  by (simp_all add: ex_tx_def ex_data_def tx_ID_def tx_CmV_def tx_Nonce_def tx_Value_def tx_Gas_def tx_CmO_def tx_CmS_def tx_CmR_def tx_SigM_def
      tx_SigMHash_def tx_SigR_def tx_SigS_def wire_def blank_data_def txdata_of_def fill_def)

lemma ex_tx_size:
  assumes "length (rlp_enc (txdata_val (ex_data n v))) = 70"
  shows "tx_Size (ex_tx n v) = 70" and "tx_wired (ex_tx n v)"
proof -
  have "encodable (txdata_val (ex_data n v))" using tx_ok_encodable ex_data_ok(1) by blast
  then show size: "tx_Size (ex_tx n v) = 70"
    using Encode_bytes_eq [of "txdata_val (wire (ex_data n v))"] assms by (simp add: tx_Size_def ex_tx_def wire_enc wire_encodable)
  have "tx_fits (ex_tx n v)" by (simp add: tx_fits_def hex_fits_def)
  then show "tx_wired (ex_tx n v)" using size by (simp add: tx_wired_def tx_good_def) (simp add: ex_tx_def wire_wire)
qed

lemmas ex_tx_1 = ex_tx_size [OF ex_data_ok(2)] and ex_tx_2 = ex_tx_size [OF ex_data_ok(3)]

lemma ex_chain_ok: "chain_ok ex_chain" "head_known ex_chain (ch_CurrentHeader ex_chain)"
  by (auto simp: chain_ok_def ex_chain_def ex_block_def ex_header_def NumberU64_def big_Uint64_def head_known_def ex_tx_1)

definition ex_config :: TxPoolConfig where
  "ex_config = DefaultTxPoolConfig ex_pool_key ex_pool_key"

definition ex_new :: TxPool where
  "ex_new = \<lparr>tp_config = ex_config, tp_gasPrice = 1, tp_istanbul = True, tp_currentState = ex_state,
     tp_pendingNonces = newTxNoncer ex_state, tp_currentMaxGas = 1000000, tp_locals = {}, tp_pending = [], tp_queue = [], tp_beats = [],
     tp_all = newTxLookup, tp_priced = newTxPricedList, tp_CMdb = Map.empty\<rparr>"

lemma ex_keys_ok: "keys_ok ex_config" "0 \<le> sint (cfg_AccountQueue ex_config)"
  by (simp_all add: keys_ok_def ex_config_def DefaultTxPoolConfig_def ex_pool_key_def)

lemma ex_new_pool: "NewTxPool keccak sha ex_sender ex_chain ex_state ex_config Map.empty = Some ex_new"
  by (simp add: NewTxPool_def pool_reset_def reinject_txs_def reset_state_def ex_chain_def ex_header_def sanitize_eq ex_config_def
      DefaultTxPoolConfig_def ex_new_def Let_def)

lemma ex_new_run: "pool_run keccak sha ex_sender ex_new {}"
  by (rule run_new [OF ex_chain_ok ex_keys_ok _ ex_new_pool]) simp

text \<open>The pool after the first purchase has come in.\<close>

definition ex_pool :: TxPool where
  "ex_pool = (case pool_add (\<lambda>b. b) (\<lambda>_. []) ex_sender ex_new (ex_tx 0 5) False of Some (_, p) \<Rightarrow> p | None \<Rightarrow> ex_new)"

lemma ex_enqueue:
  "enqueueTx keccak ex_sender ex_new h (ex_tx 0 5) = Some (r, p) \<Longrightarrow> r = Inr False \<and> processCM keccak Map.empty (ex_tx 0 5) = Some (tp_CMdb p)"
  by (auto simp: enter_tx_def enqueueTx_def sender_of_def ex_sender_def ex_new_def tl_Add_def sm_Get_def newTxList_def newTxSortedMap_def drop_old_def
      newTxLookup_def lk_Get_def Let_def Option.bind_eq_Some_conv)

lemma ex_new_ok: "system_ok {} keccak ex_sender ex_new"
  using pool_run_ok [OF ex_new_run] by (rule system_ok_more) simp

lemma ex_add: "pool_add (\<lambda>b. b) (\<lambda>_. []) ex_sender ex_new (ex_tx 0 5) False = Some (Inr False, ex_pool) \<and>
    pool_ok {} (\<lambda>b. b) ex_sender ex_pool \<and> env ex_pool = env ex_new \<and> pool_txs ex_pool = {ex_tx 0 5} \<and> processCM (\<lambda>b. b) Map.empty (ex_tx 0 5) = Some (tp_CMdb ex_pool)"
proof -
  let ?tx = "ex_tx 0 5" and ?k = "\<lambda>b :: bytes. b"
  have ok: "pool_ok {} ?k ex_sender ex_new" "keys_ok (tp_config ex_new)" using ex_new_ok [of ?k] by (simp_all add: system_ok_def)
  obtain r p' where a: "pool_add ?k (\<lambda>_. []) ex_sender ex_new ?tx False = Some (r, p')" "pool_ok {} ?k ex_sender p'" "env p' = env ex_new"
      "case r of Inl _ \<Rightarrow> pool_txs p' \<subseteq> pool_txs ex_new | Inr _ \<Rightarrow> \<exists>X \<subseteq> pool_txs ex_new. pool_txs p' = added ex_sender ?tx X"
    by (rule pool_add_spec [OF ok ex_tx_1(2)]) (rule that)
  have "validateSign (\<lambda>_. []) ex_new ?tx = Some None"
    by (simp add: validateSign_def Btob_def Verify_def big_Mod_def ex_new_def ex_config_def DefaultTxPoolConfig_def ex_pool_key_def big_Exp_def)
  moreover have "validateTx ex_sender ex_new ?tx False = None"
    by (simp add: validateTx_def ex_sender_def ex_new_def ex_state_def ex_tx_1(1) IntrinsicGas_def Let_def)
  moreover have "validateCM ?k (tp_CMdb ex_new) ?tx = None"
    by (simp add: validateCM_def ex_new_def HasCM_def)
  moreover have "lk_Get (tp_all ex_new) h = None" for h by (simp add: ex_new_def newTxLookup_def lk_Get_def)
  moreover have "make_room ?k ex_sender ex_new ?tx False = Some (None, ex_new)"
    by (simp add: make_room_def ex_new_def newTxLookup_def lk_Count_def ex_config_def DefaultTxPoolConfig_def Let_def)
  moreover have "map_of (tp_pending ex_new) b = None" for b by (simp add: ex_new_def)
  ultimately have q: "add_queued ?k ex_sender ex_new ?tx False = Some (r, p')"
    using a(1) by (simp add: pool_add_def add_checked_def Let_def)
  then obtain r0 q where e: "enqueueTx ?k ex_sender ex_new (tx_Hash ?k ?tx) ?tx = Some (r0, q)"
    by (cases "enqueueTx ?k ex_sender ex_new (tx_Hash ?k ?tx) ?tx") (auto simp: add_queued_def)
  have r: "r = Inr False" "q = p'" using q ex_enqueue [OF e] e by (simp_all add: add_queued_def)
  then have "ex_pool = p'" using a(1) by (simp add: ex_pool_def)
  then show ?thesis using a r ex_enqueue [OF e] by (auto simp: added_def ex_new_def)
qed

lemma ex_addTxs: "addTxs (\<lambda>b. b) (\<lambda>_. []) ex_sender ex_new [ex_tx 0 5] False = Some ([None], [[1]], ex_pool)"
  using conjunct1 [OF ex_add]
  by (simp add: addTxs_def ex_sender_def ex_new_def newTxLookup_def lk_Get_def next_nil.simps Let_def)

lemma ex_run: "pool_run (\<lambda>b. b) (\<lambda>_. []) ex_sender ex_pool {}"
proof -
  have "pool_step (\<lambda>b. b) (\<lambda>_. []) ex_sender ex_new ex_pool"
    by (rule step_addTxs [OF _ ex_addTxs]) (simp add: ex_tx_1)
  from run_step [OF ex_new_run this] show ?thesis by simp
qed

lemma ex_reachable: "reachable (\<lambda>b. b) (\<lambda>_. []) ex_sender ex_pool"
  using ex_run by (auto simp: reachable_def)

lemma ex_pool_txs [simp]: "pool_txs ex_pool = {ex_tx 0 5}"
  using ex_add by blast

text \<open>The pool after the block with that purchase has been imported, before the reset.\<close>

definition ex_mined :: TxPool where
  "ex_mined = (case WriteAllCM (\<lambda>b. b) (tp_CMdb ex_pool) [ex_tx 0 5] of Some db \<Rightarrow> ex_pool\<lparr>tp_CMdb := db\<rparr> | None \<Rightarrow> ex_pool)"

lemma ex_mined_reachable: "reachable (\<lambda>b. b) (\<lambda>_. []) ex_sender ex_mined"
proof -
  have fits: "list_all tx_fits [ex_tx 0 5]" using ex_tx_1(2) by (simp add: tx_wired_def tx_good_def)
  have "pool_ok {} (\<lambda>b. b) ex_sender ex_pool" using ex_add by blast
  then have "cmdb_ok (tp_CMdb ex_pool)" using booksD(5) [OF pool_okD(3)] by blast
  then obtain db where db: "WriteAllCM (\<lambda>b. b) (tp_CMdb ex_pool) [ex_tx 0 5] = Some db" using WriteAllCM_coins [OF fits] by blast
  then have "ex_mined = ex_pool\<lparr>tp_CMdb := db\<rparr>" by (simp add: ex_mined_def)
  then show ?thesis using run_block [OF ex_run fits db] by (auto simp: reachable_def)
qed

text \<open>A transfer of that coin, with proofs that the trivial hash function accepts.\<close>

definition ex_spend_data :: txdata where
  "ex_spend_data = blank_data\<lparr>td_ID := 0, td_AccountNonce := 1, td_CmO := Some [5], td_CmS := Some [7], td_CmR := Some [8],
     td_EvOEPt := Some [1], td_ErpkEPt := Some [1], td_EspkEPt := Some [1]\<rparr>"

definition ex_spend :: Transaction where
  "ex_spend = Tx (wire ex_spend_data)"

lemma ex_spend_fields:
  "tx_ID ex_spend = 0" "tx_CmO ex_spend = Some [5]" "tx_CmS ex_spend = Some [7]" "tx_CmR ex_spend = Some [8]" "tx_CmV ex_spend = Some []"
  "tx_Nonce ex_spend = 1" "tx_Value ex_spend = 0" "tx_Gas ex_spend = 0"
  by (simp_all add: ex_spend_def ex_spend_data_def tx_ID_def tx_CmV_def tx_Nonce_def tx_Value_def tx_Gas_def tx_CmO_def tx_CmS_def tx_CmR_def
      wire_def blank_data_def txdata_of_def fill_def)

lemma ex_spend_size: "tx_Size ex_spend = 70" "tx_wired ex_spend"
proof -
  have l: "tx_ok ex_spend_data" "length (rlp_enc (txdata_val ex_spend_data)) = 70"
    by (simp_all add: ex_spend_data_def blank_data_def txdata_of_def tx_ok_def txdata_val_def rlp_enc_hex_None hex_val_def enc_list_def
        enc_string_def rlp_head_def be_bytes.simps)
  then have "encodable (txdata_val ex_spend_data)" using tx_ok_encodable by blast
  then show size: "tx_Size ex_spend = 70"
    using Encode_bytes_eq [of "txdata_val (wire ex_spend_data)"] l(2) by (simp add: tx_Size_def ex_spend_def wire_enc wire_encodable)
  have "tx_fits ex_spend" by (simp add: tx_fits_def hex_fits_def ex_spend_fields)
  then show "tx_wired ex_spend" using size by (simp add: tx_wired_def tx_good_def) (simp add: ex_spend_def wire_wire)
qed

lemma ex_spend_hash: "tx_Hash (\<lambda>b. b) (ex_tx 0 5) \<noteq> tx_Hash (\<lambda>b. b) ex_spend"
proof -
  have h: "tx_Hash (\<lambda>b. b) (Tx (wire d)) = rlp_enc (txdata_val d)" if "tx_ok d" "length (rlp_enc (txdata_val d)) = 70" for d
    using Encode_bytes_eq [of "txdata_val (wire d)"] that tx_ok_encodable by (simp add: tx_Hash_def rlpHash_def wire_enc wire_encodable)
  have "tx_ok ex_spend_data" "length (rlp_enc (txdata_val ex_spend_data)) = 70"
    "rlp_enc (txdata_val (ex_data 0 5)) \<noteq> rlp_enc (txdata_val ex_spend_data)"
    by (simp_all add: ex_data_def ex_spend_data_def blank_data_def txdata_of_def tx_ok_def txdata_val_def rlp_enc_hex_None hex_val_def enc_list_def
        enc_string_def rlp_head_def be_bytes.simps)
  then show ?thesis using h [of "ex_data 0 5"] h [of ex_spend_data] ex_data_ok by (simp add: ex_tx_def ex_spend_def)
qed

lemma ex_spend_zkp: "tp_config p = ex_config \<Longrightarrow> verifyzkp (\<lambda>_. []) p ex_spend = Some None"
proof -
  assume "tp_config p = ex_config"
  then have "verifyzkp (\<lambda>_. []) p ex_spend = verifyzkp (\<lambda>_. []) ex_new ex_spend" by (simp add: verifyzkp_def ex_new_def)
  also have "\<dots> = Some None" by code_simp
  finally show ?thesis .
qed

section \<open>Properties of the pool\<close>

text \<open>
  C4: In every pool that the operations of the pool and the import of arbitrary blocks reach, the tables
  agree. The lookup table holds exactly the transactions of the pending and the queued lists, under
  their hashes, and counts their slots; the price heap holds all of them; and no account has the same
  nonce twice. (The locks in the commitment database need not agree, see the next property.)
\<close>

theorem pool_consistent:
  assumes "reachable keccak sha sender p"
  shows "(\<forall>h tx. lk_Get (tp_all p) h = Some tx \<longleftrightarrow> tx \<in> pool_txs p \<and> tx_Hash keccak tx = h) \<and>
    lk_slots (tp_all p) = (\<Sum>tx \<in> pool_txs p. int (numSlots tx)) \<and>
    pool_txs p \<subseteq> set (pl_items (tp_priced p)) \<and>
    (\<forall>x \<in> pool_txs p. \<forall>y \<in> pool_txs p. sender x = sender y \<longrightarrow> tx_Nonce x = tx_Nonce y \<longrightarrow> x = y)"
proof -
  have ok: "pool_ok {} keccak sender p" using reachable_ok [OF assms] by (simp add: system_ok_def)
  show ?thesis
    using books_lookup [OF pool_okD(3) [OF ok]] booksD(9) [OF pool_okD(3) [OF ok]] pool_okD(4) [OF ok] lists_nonce_inj [OF pool_okD(2) [OF ok]]
    by (intro conjI allI ballI impI) (simp_all add: priced_ok_def)
qed

theorem pool_consistent_witness:
  "lk_Get (tp_all ex_pool) (tx_Hash (\<lambda>b. b) (ex_tx 0 5)) = Some (ex_tx 0 5) \<and> ex_tx 0 5 \<in> set (pl_items (tp_priced ex_pool)) \<and>
    lk_slots (tp_all ex_pool) = int (numSlots (ex_tx 0 5))"
  using pool_consistent [OF ex_reachable] by simp

text \<open>
  C2: In every run of the pool with arbitrary block imports, a coin that a pooled transaction buys or
  spends is locked in the database and claimed by no other pooled transaction, unless a block was
  imported that wrote this very coin while a pooled transaction claimed it. The set \<open>D\<close> of the run
  holds these coins; only for them can the lock be lost.
\<close>

theorem no_double_claim:
  assumes "pool_run keccak sha sender p D" and "tx \<in> pool_txs p" and "claim_of keccak tx = Some c" and "c \<notin> D"
  shows "coins (tp_CMdb p) c = Locked \<and> {tx' \<in> pool_txs p. claim_of keccak tx' = Some c} = {tx}"
proof -
  have "pool_ok (- D) keccak sender p" using pool_run_ok [OF assms(1)] by (simp add: system_ok_def)
  then have "claims_ok (- D) keccak (tp_CMdb p) (pool_txs p)" using booksD(6) [OF pool_okD(3)] by blast
  then show ?thesis using assms(2-4) unfolding claims_ok_def by blast
qed

theorem no_double_claim_witness:
  "coins (tp_CMdb ex_pool) [5] = Locked \<and> {tx \<in> pool_txs ex_pool. claim_of (\<lambda>b. b) tx = Some [5]} = {ex_tx 0 5}"
  by (rule no_double_claim [OF ex_run]) (simp_all add: claim_of_def)

text \<open>The proofs and limits of a transaction are checked without the commitment database.\<close>

lemma checks_without_db:
  "verifyzkp sha (p\<lparr>tp_CMdb := db\<rparr>) tx = verifyzkp sha p tx"
  "validateTx sender (p\<lparr>tp_CMdb := db\<rparr>) tx local = validateTx sender p tx local"
  by (simp_all add: verifyzkp_def validateTx_def cong: option.case_cong sum.case_cong if_cong)

text \<open>
  C3: The exception of the previous property is real: the import of a block that creates the coin of a
  pooled transaction - because it contains the pooled purchase itself or another purchase of the
  commitment - takes the lock away, and until the next reset a transfer of the coin which passes
  every check is pooled beside it. Two pooled transactions then claim one coin.
\<close>

theorem import_double_claim:
  assumes "reachable keccak sha sender p" and "A \<in> pool_txs p" and "claim_of keccak A = Some c"
    and "list_all tx_fits (before @ t0 # after)" and "c \<in> outputs_of keccak t0" and "c \<notin> written keccak after"
    and "tx_wired t" and "tx_ID t = 0" and "claim_of keccak t = Some c" and "lk_Get (tp_all p) (tx_Hash keccak t) = None"
    and "\<forall>h \<in> outputs_of keccak t. coins (tp_CMdb p) h = Fresh \<and> h \<notin> written keccak (before @ t0 # after)"
    and "verifyzkp sha p t = Some None" and "validateTx sender p t local = None"
    and "(of_nat (lk_Count (tp_all p)) :: u64) < cfg_GlobalSlots (tp_config p) + cfg_GlobalQueue (tp_config p)"
    and "free_nonce sender (pool_txs p) t"
  shows "\<exists>db p'. WriteAllCM keccak (tp_CMdb p) (before @ t0 # after) = Some db \<and>
    pool_add keccak sha sender (p\<lparr>tp_CMdb := db\<rparr>) t local = Some (Inr False, p') \<and>
    A \<in> pool_txs p' \<and> t \<in> pool_txs p' \<and> A \<noteq> t \<and> claim_of keccak A = claim_of keccak t"
proof -
  have sys: "system_ok {} keccak sender p" by (rule reachable_ok [OF assms(1)])
  then have ok: "pool_ok {} keccak sender p" by (simp add: system_ok_def)
  note B = pool_okD(3) [OF ok]
  obtain db where db: "WriteAllCM keccak (tp_CMdb p) (before @ t0 # after) = Some db" "cmdb_ok db"
      "coins db = fold (\<lambda>tx L. mine_tx keccak L tx) (before @ t0 # after) (coins (tp_CMdb p))"
    using WriteAllCM_coins [OF assms(4) booksD(5) [OF B]] by blast
  have "coins db c = Free"
    using assms(5) mine_unwritten [OF assms(6)] unfolding db(3) by (simp add: mine_tx_def)
  moreover have "coins db h = Fresh" if "h \<in> outputs_of keccak t" for h
    using bspec [OF assms(11) that] mine_unwritten [of h keccak "before @ t0 # after"] unfolding db(3) by simp
  ultimately have adm: "validateCM keccak db t = None"
    using assms(8,9) unfolding validateCM_admits [OF db(2)] by (simp add: admits_def claim_of_def)
  let ?p = "p\<lparr>tp_CMdb := db\<rparr>"
  have ok': "pool_ok {} keccak sender ?p" using import_ok [OF sys assms(4) db(1)] by (simp add: system_ok_def)
  have chk: "verifyzkp sha ?p t = Some None" "validateTx sender ?p t local = None"
    using assms(12,13) by (simp_all only: checks_without_db)
  obtain p' where p': "pool_add keccak sha sender ?p t local = Some (Inr False, p')" "pool_txs p' = insert t (pool_txs ?p)"
    by (rule pool_add_accepts [OF ok' assms(7), of sha local]) (use assms(8,10,14,15) adm chk that in simp_all)
  have "A \<noteq> t" using books_lookup_None [OF B] assms(2,10) by blast
  then show ?thesis using db(1) p' assms(2,3,9) by auto
qed

theorem import_double_claim_witness:
  "\<exists>db p'. WriteAllCM (\<lambda>b. b) (tp_CMdb ex_pool) [ex_tx 0 5] = Some db \<and>
    pool_add (\<lambda>b. b) (\<lambda>_. []) ex_sender (ex_pool\<lparr>tp_CMdb := db\<rparr>) ex_spend False = Some (Inr False, p') \<and>
    ex_tx 0 5 \<in> pool_txs p' \<and> ex_spend \<in> pool_txs p' \<and> ex_tx 0 5 \<noteq> ex_spend \<and> claim_of (\<lambda>b. b) (ex_tx 0 5) = claim_of (\<lambda>b. b) ex_spend"
proof -
  have ok: "pool_ok {} (\<lambda>b. b) ex_sender ex_pool" and env: "env ex_pool = env ex_new" using ex_add by blast+
  note B = pool_okD(3) [OF ok]
  have cfg: "tp_config ex_pool = ex_config" using env by (simp add: env_def ex_new_def)
  have st: "tp_currentState ex_pool = ex_state" "tp_currentMaxGas ex_pool = 1000000" using env by (simp_all add: env_def ex_new_def)
  have "lk_Get (tp_all ex_pool) (tx_Hash (\<lambda>b. b) ex_spend) = None" using books_lookup_None [OF B] ex_spend_hash by simp
  moreover have "lk_Count (tp_all ex_pool) = 1" using books_count [OF B] by simp
  moreover have "list_all tx_fits [ex_tx 0 5]" using ex_tx_1(2) by (simp add: tx_wired_def tx_good_def)
  moreover have "coins (tp_CMdb ex_pool) [7] = Fresh" "coins (tp_CMdb ex_pool) [8] = Fresh"
  proof -
    have "processCM (\<lambda>b. b) Map.empty (ex_tx 0 5) = Some (tp_CMdb ex_pool)" using ex_add by blast
    then have "coins (tp_CMdb ex_pool) = set_claim (\<lambda>b. b) (\<lambda>_. Fresh) (ex_tx 0 5) Locked"
      using processCM_coins [of "ex_tx 0 5" Map.empty "\<lambda>b. b"] ex_tx_1(2) by (auto simp: tx_wired_def tx_good_def)
    then show "coins (tp_CMdb ex_pool) [7] = Fresh" "coins (tp_CMdb ex_pool) [8] = Fresh" by (simp_all add: set_claim_def claim_of_def)
  qed
  moreover have "validateTx ex_sender ex_pool ex_spend False = None"
    by (simp add: validateTx_def ex_sender_def st ex_state_def ex_spend_fields ex_spend_size IntrinsicGas_def Let_def)
  ultimately show ?thesis
    using import_double_claim [OF ex_reachable, of "ex_tx 0 5" "[5]" "[]" "ex_tx 0 5" "[]" ex_spend False] ex_spend_size(2) ex_spend_zkp [OF cfg]
    by (simp add: claim_of_def outputs_of_def written_def ex_spend_fields cfg ex_config_def DefaultTxPoolConfig_def free_nonce_def)
qed



text \<open>
  C29: \<open>addTxs\<close> of transactions from the network returns, keeps the invariant of the pool and reports one
  result per transaction. The failures of the transactions that were not yet known are reported in
  order, but in the leftmost slots: a slot is not left when its transaction was accepted, so that
  the next failure takes the place of that success.
\<close>

theorem addTxs_errors:
  assumes "pool_ok own keccak sender p" and "keys_ok (tp_config p)" and "list_all tx_wired txs"
  shows "\<exists>errs dirty p' newErrs. addTxs keccak sha sender p txs local = Some (errs, dirty, p') \<and> pool_ok own keccak sender p' \<and>
    pool_txs p' \<subseteq> pool_txs p \<union> set txs \<and>
    addTxsLocked keccak sha sender p [tx \<leftarrow> txs. lk_Get (tp_all p) (tx_Hash keccak tx) = None] local = Some (newErrs, dirty, p') \<and>
    errs = fill_slots (map (\<lambda>tx. if lk_Get (tp_all p) (tx_Hash keccak tx) = None then None else Some ErrAlreadyKnown) txs)
      (filter (\<lambda>e. e \<noteq> None) newErrs)"
proof -
  let ?new = "[tx \<leftarrow> txs. lk_Get (tp_all p) (tx_Hash keccak tx) = None]"
  have "list_all tx_wired ?new" using assms(3) by (auto simp: list_all_iff)
  then obtain newErrs dirty p' where a: "addTxsLocked keccak sha sender p ?new local = Some (newErrs, dirty, p')"
      "pool_ok own keccak sender p'" "pool_txs p' \<subseteq> pool_txs p \<union> set ?new" "length newErrs = length ?new"
    using addTxsLocked_spec [OF assms(1,2), of ?new] by blast
  with addTxs_unfold [OF a(1,4)] show ?thesis by auto
qed

theorem addTxs_errors_witness:
  "\<exists>errs dirty p'. addTxs (\<lambda>b. b) (\<lambda>_. []) ex_sender ex_pool [ex_tx 0 5, ex_tx 1 6] False = Some (errs, dirty, p') \<and>
    pool_txs p' \<subseteq> {ex_tx 0 5, ex_tx 1 6} \<and> fill_slots [None, Some ErrAlreadyKnown, None] [Some ErrNonceTooLow] = [Some ErrNonceTooLow, Some ErrAlreadyKnown, None]"
proof -
  have "pool_ok {} (\<lambda>b. b) ex_sender ex_pool" "keys_ok (tp_config ex_pool)" using reachable_ok [OF ex_reachable] by (simp_all add: system_ok_def)
  moreover have "list_all tx_wired [ex_tx 0 5, ex_tx 1 6]" using ex_tx_1 ex_tx_2 by simp
  ultimately show ?thesis using addTxs_errors [of "{}" "\<lambda>b. b" ex_sender ex_pool "[ex_tx 0 5, ex_tx 1 6]" "\<lambda>_. []" False] by auto
qed

text \<open>
  C16: When the old and the new head have a common ancestor in the database, the three loops of \<open>reset\<close>
  that walk back from them end in one, and the transactions to reinject are exactly those of the
  abandoned branch that the new branch does not contain.
\<close>

theorem reset_reinjects_abandoned:
  assumes ok: "chain_ok chain" and rem: "ch_GetBlock chain (hd_Hash old) (big_Uint64 (hd_Number old)) = Some rem"
    and ad: "ch_GetBlock chain (hd_Hash new) (big_Uint64 (hd_Number new)) = Some ad" and side: "hd_Hash old \<noteq> hd_ParentHash new"
    and near: "\<bar>uint (big_Uint64 (hd_Number old)) - uint (big_Uint64 (hd_Number new))\<bar> \<le> 64"
    and anc: "path chain rem os anc" "path chain ad ns anc"
  shows "\<exists>txs os' ns' c. reinject_txs keccak chain (Some old) new = Some (Some txs) \<and> path chain rem os' c \<and> path chain ad ns' c \<and>
    (\<forall>tx. tx \<in> set txs \<longleftrightarrow> tx \<in> set (branch_txs os') \<and> tx_Hash keccak tx \<notin> tx_Hash keccak ` set (branch_txs ns'))"
proof -
  note num = path_number [OF anc(1) ok] path_number [OF anc(2) ok]
  have "NumberU64 anc \<le> NumberU64 ad" using num(2) by (simp add: word_le_nat_alt)
  then obtain os1 os2 rem1 where w1: "walk_down chain rem (NumberU64 ad) [] = Some (Some ([] @ branch_txs os1, rem1))"
      "path chain rem os1 rem1" "path chain rem1 os2 anc" "NumberU64 rem1 = min (NumberU64 ad) (NumberU64 rem)"
    using walk_down_to [OF anc(1) ok] by blast
  have "NumberU64 anc \<le> NumberU64 rem1" using path_number [OF w1(3) ok] by (simp add: word_le_nat_alt)
  then obtain ns1 ns2 ad1 where w2: "walk_down chain ad (NumberU64 rem1) [] = Some (Some ([] @ branch_txs ns1, ad1))"
      "path chain ad ns1 ad1" "path chain ad1 ns2 anc" "NumberU64 ad1 = min (NumberU64 rem1) (NumberU64 ad)"
    using walk_down_to [OF anc(2) ok] by blast
  have "NumberU64 rem1 = NumberU64 ad1" using w1(4) w2(4) by (simp add: min.commute min.left_commute)
  then obtain os' ns' c where w3: "walk_both chain rem1 ad1 (branch_txs os1) (branch_txs ns1) =
      Some (Some (branch_txs os1 @ branch_txs os', branch_txs ns1 @ branch_txs ns'))" "path chain rem1 os' c" "path chain ad1 ns' c"
    using walk_both_meet [OF ok path_stored [OF w1(2) ok GetBlock_stored [OF ok rem]] path_stored [OF w2(2) ok GetBlock_stored [OF ok ad]] _ w1(3) w2(3)] by blast
  have "reinject_txs keccak chain (Some old) new = Some (Some (TxDifference keccak (branch_txs (os1 @ os')) (branch_txs (ns1 @ ns'))))"
    unfolding reinject_unfold [OF rem ad side near] using w1(1) w2(1) w3(1) by simp
  then show ?thesis using path_append [OF w1(2) w3(2)] path_append [OF w2(2) w3(3)] TxDifference_set by (intro exI conjI allI)
qed

theorem reset_reinjects_abandoned_witness:
  "\<exists>txs. reinject_txs (\<lambda>b. b) ex_chain (Some (ex_header 1 1)) (ex_header 2 1) = Some (Some txs)"
proof -
  let ?rem = "ex_block 1 1 [ex_tx 0 5]" and ?ad = "ex_block 2 1 []" and ?g = "ex_block 0 0 []"
  have b: "ch_GetBlock ex_chain (hd_Hash (ex_header 1 1)) (big_Uint64 (hd_Number (ex_header 1 1))) = Some ?rem"
      "ch_GetBlock ex_chain (hd_Hash (ex_header 2 1)) (big_Uint64 (hd_Number (ex_header 2 1))) = Some ?ad"
      "hd_Hash (ex_header 1 1) \<noteq> hd_ParentHash (ex_header 2 1)"
      "\<bar>uint (big_Uint64 (hd_Number (ex_header 1 1))) - uint (big_Uint64 (hd_Number (ex_header 2 1)))\<bar> \<le> 64"
      "parent_block ex_chain ?rem = Some ?g" "parent_block ex_chain ?ad = Some ?g"
    by (simp_all add: ex_chain_def ex_header_def ex_block_def big_Uint64_def parent_block_def NumberU64_def)
  show ?thesis
    using reset_reinjects_abandoned [OF ex_chain_ok(1) b(1-4) path_Cons [OF b(5) path_Nil] path_Cons [OF b(6) path_Nil], of "\<lambda>b. b"] by blast
qed

lemma first_nonce:
  assumes "sorted_wrt nonce_lt xs" and "\<forall>x \<in> set xs. n \<le> tx_Nonce x" and "\<exists>x \<in> set xs. tx_Nonce x = n"
  shows "tx_Nonce (hd xs) = n"
proof (cases xs)
  case (Cons y ys)
  then have "tx_Nonce y \<le> n" using assms(1,3) by (auto simp: less_imp_le)
  then show ?thesis using assms(2) Cons by (auto intro: antisym)
qed (use assms(3) in simp)

text \<open>
  C9: A reorganisation run of a reachable pool returns and leaves the pool within its limits. Either
  there are at most \<open>GlobalSlots\<close> pending transactions, or no remote account has more than
  \<open>AccountSlots\<close> of them; either there are at most \<open>GlobalQueue\<close> queued transactions, or only local
  accounts have any. The chain and the heads of a reset are as in the previous property.
\<close>

theorem runReorg_limits:
  assumes "reachable keccak sha sender p" and "chain_ok chain" and "\<And>h. req = Some h \<Longrightarrow> reset_ok chain h"
    and "list_all (\<lambda>(a, m). sm_ok m) evs"
  shows "\<exists>txs p'. runReorg keccak sha sender chain now p req dirty evs = Some (txs, p') \<and>
    (count_txs (tp_pending p') \<le> cfg_GlobalSlots (tp_config p') \<or>
      (\<forall>a l. a \<notin> tp_locals p' \<longrightarrow> map_of (tp_pending p') a = Some l \<longrightarrow> tl_Len l \<le> unat (cfg_AccountSlots (tp_config p')))) \<and>
    (count_txs (tp_queue p') \<le> cfg_GlobalQueue (tp_config p') \<or>
      (\<forall>tx \<in> listed (tp_queue p'). \<exists>a \<in> tp_locals p'. sender tx = Some a))"
proof -
  have ok: "pool_ok {} keccak sender p" "keys_ok (tp_config p)" "limits_ok (tp_config p)" using reachable_ok [OF assms(1)] by (auto simp: system_ok_def)
  obtain txs p' where r: "runReorg keccak sha sender chain now p req dirty evs = Some (txs, p')" "pool_ok {} keccak sender p'" "within_limits sender p'"
    by (rule runReorg_spec [where req = req and sha = sha and now = now and dirty = dirty, OF ok assms(2) _ assms(4)]) (use assms(3) that in auto)
  have s: "\<exists>a. sender tx = Some a" if "tx \<in> listed (tp_queue p')" for tx using acc_sender [OF listsD(2) [OF pool_okD(2) [OF r(2)]] that] .
  have "plen p' a = tl_Len l" if "map_of (tp_pending p') a = Some l" for a l using that by (simp add: plen_def)
  then have "count_txs (tp_pending p') \<le> cfg_GlobalSlots (tp_config p') \<or>
      (\<forall>a l. a \<notin> tp_locals p' \<longrightarrow> map_of (tp_pending p') a = Some l \<longrightarrow> tl_Len l \<le> unat (cfg_AccountSlots (tp_config p')))"
    using r(3) by (metis within_limits_def)
  moreover have "count_txs (tp_queue p') \<le> cfg_GlobalQueue (tp_config p') \<or>
      (\<forall>tx \<in> listed (tp_queue p'). \<exists>a \<in> tp_locals p'. sender tx = Some a)"
    using r(3) s unfolding within_limits_def of_acc_def by blast
  ultimately show ?thesis using r(1) by blast
qed

lemma ex_reset: "Some (Some (ex_header 1 1), Some (ex_header 2 1)) = Some h \<Longrightarrow> reset_ok ex_chain h"
  using ex_chain_ok(2) by (auto simp: ex_chain_def)

theorem runReorg_limits_witness:
  "\<exists>txs p'. runReorg (\<lambda>b. b) (\<lambda>_. []) ex_sender ex_chain 7 ex_mined (Some (Some (ex_header 1 1), Some (ex_header 2 1))) [[1]] [] = Some (txs, p') \<and>
    (count_txs (tp_pending p') \<le> cfg_GlobalSlots (tp_config p') \<or>
      {a. a \<notin> tp_locals p' \<and> (\<exists>l. map_of (tp_pending p') a = Some l \<and> tl_Len l > unat (cfg_AccountSlots (tp_config p')))} = {})"
proof -
  obtain txs p' where "runReorg (\<lambda>b. b) (\<lambda>_. []) ex_sender ex_chain 7 ex_mined (Some (Some (ex_header 1 1), Some (ex_header 2 1))) [[1]] [] = Some (txs, p')"
      "count_txs (tp_pending p') \<le> cfg_GlobalSlots (tp_config p') \<or>
      (\<forall>a l. a \<notin> tp_locals p' \<longrightarrow> map_of (tp_pending p') a = Some l \<longrightarrow> tl_Len l \<le> unat (cfg_AccountSlots (tp_config p')))"
    using runReorg_limits [OF ex_mined_reachable ex_chain_ok(1), of "Some (Some (ex_header 1 1), Some (ex_header 2 1))" "[]" 7 "[[1]]"] ex_reset
    by fastforce
  then show ?thesis by (intro exI [of _ txs] exI [of _ p']) (auto simp: not_le [symmetric])
qed

text \<open>
  C11: A run with a reset moves the pool to the new head: it then works on the state and the gas limit
  of that head, and the pending transactions of every account can be executed on it. None has a
  nonce below the account's or costs more than its balance or the block's gas limit, the first has
  the account's nonce, and the pool's virtual nonce of the account follows the last. This is for
  resets that arrive: the state of the new head is available, and no block is missing on the way
  back from the old head.
\<close>

theorem runReorg_executable:
  assumes "reachable keccak sha sender p" and "chain_ok chain" and "head_known chain head" and "list_all (\<lambda>(a, m). sm_ok m) evs"
    and "ch_StateAt chain (hd_Root head) = Some st" and "reinject_txs keccak chain old head \<noteq> Some None"
  shows "\<exists>txs p'. runReorg keccak sha sender chain now p (Some (old, Some head)) dirty evs = Some (txs, p') \<and>
    tp_currentState p' = st \<and> tp_currentMaxGas p' = hd_GasLimit head \<and>
    (\<forall>a l. map_of (tp_pending p') a = Some l \<longrightarrow>
      (\<forall>tx \<in> set (txs_of l). st_GetNonce st a \<le> tx_Nonce tx \<and> tx_Cost tx \<le> st_GetBalance st a \<and> tx_Gas tx \<le> hd_GasLimit head) \<and>
      tx_Nonce (hd (txs_of l)) = st_GetNonce st a \<and>
      fst (pool_Nonce p' a) = tx_Nonce (List.last (txs_of l)) + 1)"
proof -
  have ok: "pool_ok {} keccak sender p" "keys_ok (tp_config p)" "limits_ok (tp_config p)" using reachable_ok [OF assms(1)] by (auto simp: system_ok_def)
  obtain txs p' where r: "runReorg keccak sha sender chain now p (Some (old, Some head)) dirty evs = Some (txs, p')" "pool_ok {} keccak sender p'"
      "nonces_follow p'" "\<And>a. executable sender (tp_currentState p') (tp_currentMaxGas p') (listed (tp_pending p')) a"
      "\<And>st. arrives keccak chain old head st \<Longrightarrow> on_head head st p'"
    by (rule runReorg_spec [where req = "Some (old, Some head)" and sha = sha and now = now and dirty = dirty, OF ok assms(2) _ assms(4)])
      (use assms(3) that in auto)
  have h: "tp_currentState p' = st" "tp_currentMaxGas p' = hd_GasLimit head"
    using r(5) [of st] assms(5,6) by (simp_all add: arrives_def on_head_def)
  show ?thesis
  proof (intro exI conjI allI impI, rule r(1))
    fix a l
    assume l: "map_of (tp_pending p') a = Some l"
    note k = acc_lookup [OF listsD(1) [OF pool_okD(2) [OF r(2)]] l]
    have ex: "\<forall>tx \<in> set (txs_of l). st_GetNonce st a \<le> tx_Nonce tx \<and> \<not> over_limit (st_GetBalance st a) (hd_GasLimit head) tx"
        "\<exists>tx \<in> set (txs_of l). tx_Nonce tx = st_GetNonce st a"
      using r(4) [of a] k(3) unfolding executable_def k(4) [symmetric] h by auto
    then show "\<forall>tx \<in> set (txs_of l). st_GetNonce st a \<le> tx_Nonce tx \<and> tx_Cost tx \<le> st_GetBalance st a \<and> tx_Gas tx \<le> hd_GasLimit head"
      by (auto simp: over_limit_def not_less)
    show "tx_Nonce (hd (txs_of l)) = st_GetNonce st a" using first_nonce [OF sorted_txs_of [OF k(1)]] ex by blast
    show "fst (pool_Nonce p' a) = tx_Nonce (List.last (txs_of l)) + 1" using r(3) l by (simp add: nonces_follow_def pool_Nonce_def case_prod_unfold Let_def)
  qed (rule h)+
qed

theorem runReorg_executable_witness:
  "\<exists>txs p'. runReorg (\<lambda>b. b) (\<lambda>_. []) ex_sender ex_chain 7 ex_mined (Some (None, Some (ex_header 2 1))) [[1]] [] = Some (txs, p') \<and>
    tp_currentState p' = ex_state \<and> tp_currentMaxGas p' = 1000000 \<and>
    {a. \<exists>l. map_of (tp_pending p') a = Some l \<and> tx_Nonce (hd (txs_of l)) \<noteq> st_GetNonce ex_state a} = {}"
proof -
  have "head_known ex_chain (ex_header 2 1)" "ch_StateAt ex_chain (hd_Root (ex_header 2 1)) = Some ex_state"
    using ex_chain_ok(2) by (simp_all add: ex_chain_def)
  moreover have "reinject_txs (\<lambda>b. b) ex_chain None (ex_header 2 1) \<noteq> Some None" by (simp add: reinject_txs_def)
  ultimately show ?thesis
    using runReorg_executable [OF ex_mined_reachable ex_chain_ok(1), of "ex_header 2 1" "[]" ex_state None 7 "[[1]]"]
    by (fastforce simp: ex_header_def)
qed

text \<open>
  C13: \<open>add\<close> pools a new transaction of a reachable pool with room that passes the check of its commitments
  and of its signature or proofs, is not too large, has no negative value, no more gas than a block,
  a recoverable sender and a nonce that is neither used on chain nor by a pooled transaction of that
  sender. Nothing leaves the pool, and the coin that the transaction claims is locked. No condition
  on the price, the balance of the sender or the intrinsic gas is needed: these checks of
  \<open>validateTx\<close> are disabled in the code.
\<close>

theorem pool_add_pools:
  assumes "reachable keccak sha sender p" and "tx_wired tx" and "lk_Get (tp_all p) (tx_Hash keccak tx) = None"
    and "validateCM keccak (tp_CMdb p) tx = None"
    and "(if tx_ID tx = 1 then validateSign sha p tx else verifyzkp sha p tx) = Some None"
    and "(of_nat (tx_Size tx) :: u64) \<le> 2 * 32768" and "0 \<le> tx_Value tx" and "tx_Gas tx \<le> tp_currentMaxGas p"
    and "sender tx = Some a" and "st_GetNonce (tp_currentState p) a \<le> tx_Nonce tx"
    and "(of_nat (lk_Count (tp_all p)) :: u64) < cfg_GlobalSlots (tp_config p) + cfg_GlobalQueue (tp_config p)"
    and "\<forall>x \<in> pool_txs p. sender x = Some a \<longrightarrow> tx_Nonce x \<noteq> tx_Nonce tx"
  shows "\<exists>p' c. pool_add keccak sha sender p tx local = Some (Inr False, p') \<and> pool_txs p' = insert tx (pool_txs p) \<and>
    claim_of keccak tx = Some c \<and> coins (tp_CMdb p') c = Locked"
proof -
  have ok: "pool_ok {} keccak sender p" using reachable_ok [OF assms(1)] by (simp add: system_ok_def)
  have "admits keccak (coins (tp_CMdb p)) tx" using validateCM_admits booksD(5) [OF pool_okD(3) [OF ok]] assms(4) by blast
  then obtain c where c: "claim_of keccak tx = Some c" "tx_ID tx = 1 \<or> tx_ID tx = 0" by (auto simp: admits_def claim_of_def)
  have chk: "(if tx_ID tx = 1 then validateSign sha p tx else if tx_ID tx = 0 then verifyzkp sha p tx else Some (Some ErrIDFormat)) = Some None"
    using assms(5) c(2) by auto
  have val: "validateTx sender p tx local = None"
    using assms(6-10) by (simp add: validateTx_def IntrinsicGas_def Let_def not_less)
  have free: "free_nonce sender (pool_txs p) tx" using assms(9,12) by (simp add: free_nonce_def)
  obtain p' where "pool_add keccak sha sender p tx local = Some (Inr False, p')" "pool_txs p' = insert tx (pool_txs p)"
      "\<And>c. claim_of keccak tx = Some c \<Longrightarrow> coins (tp_CMdb p') c = Locked"
    by (rule pool_add_accepts [OF ok assms(2-4) chk val assms(11) free]) (rule that)
  then show ?thesis using c(1) by blast
qed

theorem pool_add_pools_witness:
  "\<exists>p' c. pool_add (\<lambda>b. b) (\<lambda>_. []) ex_sender ex_new (ex_tx 0 5) False = Some (Inr False, p') \<and> pool_txs p' = {ex_tx 0 5} \<and>
    claim_of (\<lambda>b. b) (ex_tx 0 5) = Some c \<and> coins (tp_CMdb p') c = Locked \<and> tx_Gas (ex_tx 0 5) = 0"
proof -
  have "validateSign (\<lambda>_. []) ex_new (ex_tx 0 5) = Some None"
    by (simp add: validateSign_def Btob_def Verify_def big_Mod_def ex_new_def ex_config_def DefaultTxPoolConfig_def ex_pool_key_def big_Exp_def)
  moreover have "validateCM (\<lambda>b. b) (tp_CMdb ex_new) (ex_tx 0 5) = None" by (simp add: validateCM_def ex_new_def HasCM_def)
  moreover have "reachable (\<lambda>b. b) (\<lambda>_. []) ex_sender ex_new" using ex_new_run by (auto simp: reachable_def)
  moreover have "pool_txs ex_new = {}" by (simp add: ex_new_def)
  ultimately show ?thesis
    using pool_add_pools [of "\<lambda>b. b" "\<lambda>_. []" ex_sender ex_new "ex_tx 0 5" "[1]" False] ex_tx_1
    by (simp add: ex_sender_def ex_new_def newTxLookup_def lk_Get_def lk_Count_def ex_state_def ex_config_def DefaultTxPoolConfig_def)
qed

text \<open>
  C27: \<open>removeTx\<close> takes exactly the transaction with the given hash out of the pool. It returns, keeps the
  pool consistent, frees the coin of the transaction and leaves every other coin as it is.
\<close>

theorem removeTx_exact:
  assumes "reachable keccak sha sender p"
  shows "\<exists>p'. removeTx keccak sender p h True = Some p' \<and> pool_ok {} keccak sender p' \<and>
    (\<forall>tx. tx \<in> pool_txs p' \<longleftrightarrow> tx \<in> pool_txs p \<and> tx_Hash keccak tx \<noteq> h) \<and>
    (\<forall>c. coins (tp_CMdb p') c =
      (if \<exists>tx \<in> pool_txs p. tx_Hash keccak tx = h \<and> claim_of keccak tx = Some c then Free else coins (tp_CMdb p) c))"
proof -
  have ok: "core_ok {} keccak sender p" "priced_ok (tp_priced p) (pool_txs p)" using reachable_ok [OF assms] by (auto simp: system_ok_def pool_ok_def)
  have B: "books_ok {} keccak (tp_all p) (tp_CMdb p) (pool_txs p)" using ok(1) by (simp add: core_ok_def)
  obtain p' where r: "removeTx keccak sender p h True = Some p'" "core_ok {} keccak sender p'" "pool_txs p' = {tx \<in> pool_txs p. tx_Hash keccak tx \<noteq> h}"
      "True \<Longrightarrow> priced_ok (tp_priced p) (pool_txs p) \<Longrightarrow> priced_ok (tp_priced p') (pool_txs p')"
      "coins (tp_CMdb p') = (case lk_Get (tp_all p) h of None \<Rightarrow> coins (tp_CMdb p) | Some tx \<Rightarrow> set_claim keccak (coins (tp_CMdb p)) tx Free)"
    by (rule removeTx_spec [OF ok(1), of h True]) (rule that)
  have "tx \<in> pool_txs p' \<longleftrightarrow> tx \<in> pool_txs p \<and> tx_Hash keccak tx \<noteq> h" for tx unfolding r(3) by simp
  moreover have "coins (tp_CMdb p') c =
      (if \<exists>tx \<in> pool_txs p. tx_Hash keccak tx = h \<and> claim_of keccak tx = Some c then Free else coins (tp_CMdb p) c)" for c
  proof (cases "lk_Get (tp_all p) h")
    case None
    then show ?thesis using books_lookup_None [OF B, of h] r(5) by auto
  next
    case (Some x)
    then have "y \<in> pool_txs p \<and> tx_Hash keccak y = h \<longleftrightarrow> y = x" for y using books_lookup [OF B, of h y] by auto
    then have "(\<exists>tx \<in> pool_txs p. tx_Hash keccak tx = h \<and> claim_of keccak tx = Some c) \<longleftrightarrow> claim_of keccak x = Some c" by metis
    then show ?thesis using Some r(5) by (auto simp: set_claim_def split: option.splits)
  qed
  ultimately show ?thesis using r(1,2) r(4) [OF TrueI ok(2)] by (intro exI [of _ p']) (simp add: pool_ok_def)
qed

theorem removeTx_exact_witness:
  "\<exists>p'. removeTx (\<lambda>b. b) ex_sender ex_pool (tx_Hash (\<lambda>b. b) (ex_tx 0 5)) True = Some p' \<and> pool_txs p' = {}"
proof -
  obtain p' where r: "removeTx (\<lambda>b. b) ex_sender ex_pool (tx_Hash (\<lambda>b. b) (ex_tx 0 5)) True = Some p'"
      "\<And>tx. tx \<in> pool_txs p' \<longleftrightarrow> tx \<in> pool_txs ex_pool \<and> tx_Hash (\<lambda>b. b) tx \<noteq> tx_Hash (\<lambda>b. b) (ex_tx 0 5)"
    using removeTx_exact [OF ex_reachable, of "tx_Hash (\<lambda>b. b) (ex_tx 0 5)"] by blast
  have "x \<notin> pool_txs p'" for x using r(2) [of x] unfolding ex_pool_txs by blast
  then show ?thesis using r(1) by blast
qed

end
