(* ===== verification/Spec2Isabelle.thy ===== *)
theory Spec2Isabelle
  imports Pool_Props
begin

text \<open>
  Verification library of the confidential-transaction fork of go-ethereum 1.9
  (\<open>src/go-ethereum-release-1.9\<close>) and of its two companion services, the exchange
  (\<open>src/exchange\<close>) and the regulator (\<open>src/Regulator\<close>).

  \<^item> \<open>Prelude\<close>: byte strings, big-endian numbers, shared lemmas.
  \<^item> \<open>Go_Big\<close>: the operations of \<open>math/big\<close> the sources use, and Fermat's little theorem.
  \<^item> \<open>Elgamal\<close>: \<open>crypto/zkp/Elgamal.go\<close>, \<open>crypto/zkp/commit.go\<close>, \<open>crypto/zkp/utils.go\<close> and
    the exchange's \<open>crypto/ElGamal.go\<close>: keys, encryption, commitments, signatures.
  \<^item> \<open>Zkp\<close>: \<open>crypto/zkp/zkp.go\<close>: the format, balance, linear-equation and equality proofs.
  \<^item> \<open>Codec\<close>: the interface of a canonical codec, as a locale.
  \<^item> \<open>Rlp_Encode\<close>, \<open>Rlp_Raw\<close>, \<open>Rlp_Stream\<close>: the RLP encoder, raw access and streaming decoder of
    \<open>rlp/encode.go\<close>, \<open>rlp/raw.go\<close> and \<open>rlp/decode.go\<close>.
  \<^item> \<open>Rlp_Moves\<close>, \<open>Rlp_Roundtrip\<close>, \<open>Rlp_Canonical\<close>: how the decoder moves through its input, and the two
    directions of the round trip.
  \<^item> \<open>Go_Heap\<close>: \<open>container/heap\<close> of Go's library, with a locale for the order it is used with.
  \<^item> \<open>Transaction\<close>: \<open>core/types/transaction.go\<close>, the transaction with its confidential fields.
  \<^item> \<open>Cm_Db\<close>: the commitment database of \<open>core/rawdb/accessors_chain.go\<close> and the operations of
    \<open>core/tx_pool.go\<close> on it, against an abstract ledger of coins.
  \<^item> \<open>Tx_List\<close>, \<open>Tx_Priced\<close>: \<open>core/tx_list.go\<close> and \<open>txLookup\<close> of \<open>core/tx_pool.go\<close>.
\<close>

end
